(* ===== verification/Prelude.thy ===== *)
theory Prelude
  imports Main "HOL-Library.Word"
begin

text \<open>
  The prelude of the development: the types every component uses (bytes, machine words, Go
  results and errors), the byte-level encodings of the Go standard library that the code calls
  (\<open>encoding/binary\<close> in little endian, \<open>math/big\<close>'s \<open>Bytes\<close> and \<open>BitLen\<close>, \<open>copy\<close> into a
  zeroed array), and two interfaces as locales: prefix codecs (what may be written to a buffer
  and read back) and polling loops (loops that go round until an environment input decides).
\<close>

section \<open>Fact collections\<close>

named_theorems codec_simps \<open>encoders, decoders and their lengths\<close>
named_theorems scan_simps \<open>regular-expression scanning of text\<close>
named_theorems step_defs \<open>definitions of operations, for unfolding a whole handler\<close>

section \<open>Types\<close>

type_synonym byte = "8 word"
type_synonym bytes = "byte list"
type_synonym u32 = "32 word"
type_synonym u64 = "64 word"

text \<open>
  Go errors. The sentinels are those of \<open>channel/errors.go\<close> and \<open>channel/connector/errors.go\<close>;
  \<open>ErrNew\<close> is an error made on the spot from a text, \<open>ErrExt\<close> one received from a library or
  a service, \<open>ErrWrap\<close> one that wraps another (\<open>fmt.Errorf\<close> with \<open>%w\<close>, \<open>errors.Wrap\<close>,
  \<open>errors.WithMessage\<close>), \<open>ErrFmt\<close> one that only prints another (\<open>fmt.Errorf\<close> with \<open>%v\<close>),
  and \<open>ErrFundingTimeout\<close> go-perun's funding timeout error (asset index, timed-out peers).
\<close>

datatype err =
    ErrNotFundedInTime
  | ErrFundingReqIncompatible
  | ErrFailWithdrawal
  | ErrFailDispute
  | ErrFailConclude
  | ErrFinalizedNotConcludable
  | ErrConcludedDifferentVersion
  | ErrAdjudicatorReqIncompatible
  | ErrReqVersionTooLow
  | ErrNonceOutOfRange
  | ErrAllocIncompatible
  | ErrStateIncompatible
  | ErrIdentLenMismatch
  | ErrNotConcluded
  | ErrFundTransfer
  | ErrNew string
  | ErrExt string
  | ErrWrap string err
  | ErrFmt string err
  | ErrFundingTimeout nat "nat list"

text \<open>\<open>errors.Is\<close>: does the chain of wrapped errors reach the target?\<close>

fun err_is :: "err \<Rightarrow> err \<Rightarrow> bool" where
  "err_is (ErrWrap m e) t = (ErrWrap m e = t \<or> err_is e t)"
| "err_is e t = (e = t)"

text \<open>\<open>err.Error()\<close>: the text of an error. go-perun's own text is not modelled.\<close>

fun err_text :: "err \<Rightarrow> string" where
  "err_text ErrNotFundedInTime = ''funding not in time''"
| "err_text ErrFundingReqIncompatible = ''incompatible funding request''"
| "err_text ErrFailWithdrawal = ''withdrawal failed''"
| "err_text ErrFailDispute = ''error disputing''"
| "err_text ErrFailConclude = ''error concluding''"
| "err_text ErrFinalizedNotConcludable = ''channel finalized but not concludable''"
| "err_text ErrConcludedDifferentVersion = ''channel was concluded with a different version''"
| "err_text ErrAdjudicatorReqIncompatible = ''adjudicator request was not compatible''"
| "err_text ErrReqVersionTooLow = ''request version too low''"
| "err_text ErrNonceOutOfRange = ''nonce values was out of range''"
| "err_text ErrAllocIncompatible = ''incompatible allocation''"
| "err_text ErrStateIncompatible = ''incompatible state''"
| "err_text ErrIdentLenMismatch = ''length of an identity was wrong''"
| "err_text ErrNotConcluded = ''channel not concluded''"
| "err_text ErrFundTransfer = ''funding transfer failed''"
| "err_text (ErrNew s) = s"
| "err_text (ErrExt s) = s"
| "err_text (ErrWrap s e) = s @ '': '' @ err_text e"
| "err_text (ErrFmt s e) = s @ '': '' @ err_text e"
| "err_text (ErrFundingTimeout a ps) = ''funding timeout''"

text \<open>
  The outcome of running a piece of Go code: it returns normally, returns an error, panics, or
  is still waiting when the inputs it was given are used up.
\<close>

datatype 'a res = Ok 'a | Err err | Panic string | Hang

fun is_ok :: "'a res \<Rightarrow> bool" where
  "is_ok (Ok _) = True"
| "is_ok _ = False"

fun is_panic :: "'a res \<Rightarrow> bool" where
  "is_panic (Panic _) = True"
| "is_panic _ = False"

fun res_bind :: "'a res \<Rightarrow> ('a \<Rightarrow> 'b res) \<Rightarrow> 'b res" where
  "res_bind (Ok a) f = f a"
| "res_bind (Err e) f = Err e"
| "res_bind (Panic m) f = Panic m"
| "res_bind Hang f = Hang"

lemma res_bind_eq_Ok [simp]: "res_bind m f = Ok b \<longleftrightarrow> (\<exists>a. m = Ok a \<and> f a = Ok b)"
  by (cases m) auto

lemma res_bind_eq_Hang: "res_bind m f = Hang \<longleftrightarrow> m = Hang \<or> (\<exists>a. m = Ok a \<and> f a = Hang)"
  by (cases m) auto

text \<open>An index expression \<open>xs[i]\<close> of Go panics when \<open>i\<close> is out of range (also when negative).\<close>

definition go_nth :: "'a list \<Rightarrow> int \<Rightarrow> 'a res" where
  "go_nth xs i = (if 0 \<le> i \<and> nat i < length xs then Ok (xs ! nat i)
     else Panic ''index out of range'')"

lemma go_nth_ok [simp]: "i < length xs \<Longrightarrow> go_nth xs (int i) = Ok (xs ! i)"
  by (simp add: go_nth_def)

lemma go_nth_neg [simp]: "go_nth xs (- 1) = Panic ''index out of range''"
  by (simp add: go_nth_def)

lemma go_nth_eq_Ok: "go_nth xs i = Ok x \<longleftrightarrow> 0 \<le> i \<and> nat i < length xs \<and> x = xs ! nat i"
  by (auto simp: go_nth_def)

section \<open>Byte encodings\<close>

text \<open>Little-endian bytes of a number, at a fixed width, and reading them back.\<close>

primrec le_enc :: "nat \<Rightarrow> nat \<Rightarrow> bytes" where
  "le_enc 0 v = []"
| "le_enc (Suc n) v = of_nat (v mod 256) # le_enc n (v div 256)"

primrec le_dec :: "bytes \<Rightarrow> nat" where
  "le_dec [] = 0"
| "le_dec (b # bs) = unat b + 256 * le_dec bs"

lemma length_le_enc [simp, codec_simps]: "length (le_enc n v) = n"
  by (induction n arbitrary: v) auto

lemma unat_byte_of_mod [simp]: "unat (of_nat (v mod 256) :: byte) = v mod 256"
  by (simp add: unat_of_nat)

lemma le_dec_enc [codec_simps]: "le_dec (le_enc n v) = v mod 256 ^ n"
proof (induction n arbitrary: v)
  case 0
  then show ?case by simp
next
  case (Suc n)
  have "v mod (256 * 256 ^ n) = 256 * (v div 256 mod 256 ^ n) + v mod 256"
    by (rule mod_mult2_eq)
  with Suc show ?case by (simp add: add.commute)
qed

lemma byte_eq_iff: "(a :: byte) = b \<longleftrightarrow> unat a = unat b"
  by (simp add: word_unat_eq_iff)

lemma unat_byte_less [simp]: "unat (b :: byte) < 256"
proof -
  have "unat b < 2 ^ LENGTH(8)" by (rule unsigned_less)
  then show ?thesis by simp
qed

lemma unat_u64_less: "unat (w :: u64) < 18446744073709551616"
proof -
  have "unat w < 2 ^ LENGTH(64)" by (rule unsigned_less)
  then show ?thesis by simp
qed

lemma unat_u32_less: "unat (w :: u32) < 4294967296"
proof -
  have "unat w < 2 ^ LENGTH(32)" by (rule unsigned_less)
  then show ?thesis by simp
qed

lemma le_enc_dec [codec_simps]: "le_enc (length bs) (le_dec bs) = bs"
proof (induction bs)
  case Nil
  then show ?case by simp
next
  case (Cons b bs)
  have "(unat b + 256 * le_dec bs) mod 256 = unat b"
    by (simp add: mod_less)
  moreover have "(unat b + 256 * le_dec bs) div 256 = le_dec bs"
    by simp
  ultimately show ?case using Cons by simp
qed

lemma le_dec_inject: "length as = length bs \<Longrightarrow> le_dec as = le_dec bs \<Longrightarrow> as = bs"
  by (metis le_enc_dec)

lemma le_enc_inject: "le_enc n v = le_enc n w \<Longrightarrow> v < 256 ^ n \<Longrightarrow> w < 256 ^ n \<Longrightarrow> v = w"
  by (metis le_dec_enc mod_less)

text \<open>\<open>binary.LittleEndian.PutUint64\<close> and \<open>Uint64\<close>, and the 32-bit forms.\<close>

definition put_u64 :: "u64 \<Rightarrow> bytes" where
  "put_u64 w = le_enc 8 (unat w)"

definition get_u64 :: "bytes \<Rightarrow> u64" where
  "get_u64 bs = of_nat (le_dec (take 8 bs))"

definition put_u32 :: "u32 \<Rightarrow> bytes" where
  "put_u32 w = le_enc 4 (unat w)"

definition get_u32 :: "bytes \<Rightarrow> u32" where
  "get_u32 bs = of_nat (le_dec (take 4 bs))"

lemma length_put_u64 [simp, codec_simps]: "length (put_u64 w) = 8"
  by (simp add: put_u64_def)

lemma length_put_u32 [simp, codec_simps]: "length (put_u32 w) = 4"
  by (simp add: put_u32_def)

lemma get_put_u64 [simp, codec_simps]: "get_u64 (put_u64 w @ r) = w"
proof -
  have "unat w mod 256 ^ 8 = unat w"
    using unat_u64_less [of w] by simp
  then show ?thesis by (simp add: get_u64_def put_u64_def le_dec_enc)
qed

lemma get_put_u32 [simp, codec_simps]: "get_u32 (put_u32 w @ r) = w"
proof -
  have "unat w mod 256 ^ 4 = unat w"
    using unat_u32_less [of w] by simp
  then show ?thesis by (simp add: get_u32_def put_u32_def le_dec_enc)
qed

lemma put_u64_inject [simp]: "put_u64 v = put_u64 w \<longleftrightarrow> v = w"
  by (metis append_Nil2 get_put_u64)

text \<open>
  \<open>big.Int.Bytes\<close>: the absolute value in big endian without leading zeros. \<open>nat_le\<close> is the
  same digits in little endian.
\<close>

fun nat_le :: "nat \<Rightarrow> bytes" where
  "nat_le n = (if n = 0 then [] else of_nat (n mod 256) # nat_le (n div 256))"

declare nat_le.simps [simp del]

definition big_bytes :: "int \<Rightarrow> bytes" where
  "big_bytes x = rev (nat_le (nat \<bar>x\<bar>))"

lemma nat_le_0 [simp]: "nat_le 0 = []"
  by (simp add: nat_le.simps)

lemma nat_le_pos: "0 < n \<Longrightarrow> nat_le n = of_nat (n mod 256) # nat_le (n div 256)"
  by (simp add: nat_le.simps)

lemma le_dec_nat_le [simp, codec_simps]: "le_dec (nat_le n) = n"
proof (induction n rule: nat_le.induct)
  case (1 n)
  show ?case
  proof (cases "n = 0")
    case False
    with 1 show ?thesis by (simp add: nat_le_pos)
  qed simp
qed

lemma nat_le_inject [simp]: "nat_le m = nat_le n \<longleftrightarrow> m = n"
  by (metis le_dec_nat_le)

lemma nat_le_eq_Nil [simp]: "nat_le n = [] \<longleftrightarrow> n = 0"
  by (metis nat_le_0 nat_le_inject)

lemma length_nat_le: "length (nat_le n) \<le> k \<longleftrightarrow> n < 256 ^ k"
proof (induction k arbitrary: n)
  case 0
  then show ?case by simp
next
  case (Suc k)
  show ?case
  proof (cases "n = 0")
    case False
    then have "length (nat_le n) \<le> Suc k \<longleftrightarrow> n div 256 < 256 ^ k"
      using Suc by (simp add: nat_le_pos)
    also have "\<dots> \<longleftrightarrow> n < 256 ^ Suc k"
      by (simp add: div_less_iff_less_mult mult.commute)
    finally show ?thesis .
  qed simp
qed

text \<open>\<open>big.Int.BitLen\<close>: the bits of the absolute value; 0 has none.\<close>

fun bit_len :: "nat \<Rightarrow> nat" where
  "bit_len n = (if n = 0 then 0 else Suc (bit_len (n div 2)))"

declare bit_len.simps [simp del]

lemma bit_len_le: "bit_len n \<le> k \<longleftrightarrow> n < 2 ^ k"
proof (induction k arbitrary: n)
  case 0
  then show ?case by (subst bit_len.simps) simp
next
  case (Suc k)
  show ?case
  proof (cases "n = 0")
    case True
    then show ?thesis by (simp add: bit_len.simps)
  next
    case False
    then have "bit_len n \<le> Suc k \<longleftrightarrow> n div 2 < 2 ^ k"
      using Suc by (subst bit_len.simps) simp
    also have "\<dots> \<longleftrightarrow> n < 2 ^ Suc k"
      by (simp add: div_less_iff_less_mult mult.commute)
    finally show ?thesis .
  qed
qed

lemma bit_len_eq_0 [simp]: "bit_len n = 0 \<longleftrightarrow> n = 0"
  by (subst bit_len.simps) simp

text \<open>\<open>copy(a[:], src)\<close> into a fresh zeroed array of \<open>n\<close> bytes.\<close>

definition copy_into :: "nat \<Rightarrow> bytes \<Rightarrow> bytes" where
  "copy_into n src = take n src @ replicate (n - length src) 0"

lemma length_copy_into [simp, codec_simps]: "length (copy_into n src) = n"
  by (simp add: copy_into_def)

lemma copy_into_id [simp, codec_simps]: "length src = n \<Longrightarrow> copy_into n src = src"
  by (simp add: copy_into_def)

section \<open>Interface: prefix codecs\<close>

text \<open>
  A value is written to the end of a buffer and read back from its front. The law: reading what
  was written gives the value and leaves what follows untouched. Sequences and counted lists of
  such values then read back too, which is proved here once.
\<close>

locale prefix_codec =
  fixes enc :: "'a \<Rightarrow> bytes"
    and dec :: "bytes \<Rightarrow> ('a \<times> bytes) option"
    and ok :: "'a \<Rightarrow> bool"
  assumes dec_enc: "ok x \<Longrightarrow> dec (enc x @ rest) = Some (x, rest)"
begin

fun dec_many :: "nat \<Rightarrow> bytes \<Rightarrow> ('a list \<times> bytes) option" where
  "dec_many 0 bs = Some ([], bs)"
| "dec_many (Suc n) bs =
     (case dec bs of None \<Rightarrow> None
      | Some (x, bs') \<Rightarrow> (case dec_many n bs' of None \<Rightarrow> None
                        | Some (xs, bs'') \<Rightarrow> Some (x # xs, bs'')))"

lemma dec_many_enc:
  "\<forall>x\<in>set xs. ok x \<Longrightarrow> dec_many (length xs) (concat (map enc xs) @ rest) = Some (xs, rest)"
  by (induction xs) (simp_all add: dec_enc)

lemma enc_inj: "ok x \<Longrightarrow> ok y \<Longrightarrow> enc x @ r = enc y @ s \<Longrightarrow> x = y \<and> r = s"
  by (metis dec_enc option.inject prod.inject)

end

section \<open>Interface: polling loops\<close>

text \<open>
  Many loops of the code have one shape: \<open>for { select { ... } }\<close>, where each round receives
  one input from its environment and either decides (returns) or goes round again. The inputs
  are a list, the schedule; on an empty schedule the loop is still waiting. The law ties the
  loop to its body \<open>decide\<close>; the lemmas say that the first deciding input fixes the result.
\<close>

locale poll_loop =
  fixes loop :: "'i list \<Rightarrow> 'a res"
    and decide :: "'i \<Rightarrow> 'a res option"
  assumes loop_Nil: "loop [] = Hang"
    and loop_Cons: "loop (x # xs) = (case decide x of None \<Rightarrow> loop xs | Some r \<Rightarrow> r)"
begin

lemma loop_skip: "\<forall>x\<in>set xs. decide x = None \<Longrightarrow> loop (xs @ ys) = loop ys"
  by (induction xs) (simp_all add: loop_Cons)

lemma loop_waiting: "\<forall>x\<in>set xs. decide x = None \<Longrightarrow> loop xs = Hang"
  using loop_skip [of xs "[]"] by (simp add: loop_Nil)

lemma loop_first:
  "\<forall>x\<in>set xs. decide x = None \<Longrightarrow> decide y = Some r \<Longrightarrow> loop (xs @ y # ys) = r"
  by (simp add: loop_skip loop_Cons)

lemma loop_cases:
  "(\<forall>x\<in>set zs. decide x = None) \<and> loop zs = Hang \<or>
   (\<exists>xs y ys r. zs = xs @ y # ys \<and> (\<forall>x\<in>set xs. decide x = None) \<and> decide y = Some r \<and> loop zs = r)"
proof (cases "\<exists>x\<in>set zs. decide x \<noteq> None")
  case True
  then obtain xs y ys where zs: "zs = xs @ y # ys" and y: "decide y \<noteq> None"
    and xs: "\<forall>x\<in>set xs. \<not> decide x \<noteq> None"
    using split_list_first_prop [OF True] by blast
  then obtain r where "decide y = Some r" by blast
  with xs have "loop zs = r" unfolding zs by (intro loop_first) auto
  with zs xs \<open>decide y = Some r\<close> show ?thesis by blast
next
  case False
  then show ?thesis using loop_waiting by blast
qed

lemma loop_returns:
  "loop zs = r \<Longrightarrow> r \<noteq> Hang \<Longrightarrow>
     \<exists>xs y ys. zs = xs @ y # ys \<and> (\<forall>x\<in>set xs. decide x = None) \<and> decide y = Some r"
  using loop_cases [of zs] by auto

lemma loop_result_stable: "loop zs = r \<Longrightarrow> r \<noteq> Hang \<Longrightarrow> loop (zs @ more) = r"
  by (drule (1) loop_returns) (auto intro: loop_first)

end

end
