(* ===== verification/GoRegex.thy ===== *)
theory GoRegex
  imports Prelude
begin

text \<open>
  The part of Go's \<open>regexp\<close> package that the event parsers use: literals, character classes,
  concatenation, capturing groups, greedy and lazy repetition, and the search for all
  non-overlapping matches (\<open>FindAllStringSubmatch\<close>, \<open>FindAllString\<close>). Go's semantics is
  leftmost-first: of all parses at the leftmost position, the one a backtracking matcher finds
  first. \<open>matches\<close> lists the parses at one position in exactly that order. Strings are byte
  sequences; every pattern of the source stops at an ASCII byte, which is never part of a longer
  UTF-8 sequence, so matching by bytes and by runes give the same text.
\<close>

section \<open>Patterns and their parses\<close>

datatype cclass = AnyC | DigitC | WordC | HexC

definition is_digit :: "char \<Rightarrow> bool" where
  "is_digit c \<longleftrightarrow> c \<in> set ''0123456789''"

definition is_hex :: "char \<Rightarrow> bool" where
  "is_hex c \<longleftrightarrow> c \<in> set ''0123456789abcdefABCDEF''"

definition is_word :: "char \<Rightarrow> bool" where
  "is_word c \<longleftrightarrow> c \<in> set ''0123456789abcdefghijklmnopqrstuvwxyzABCDEFGHIJKLMNOPQRSTUVWXYZ_''"

text \<open>\<open>.\<close> is any character but a newline; \<open>\d\<close> and \<open>\w\<close> are ASCII in Go.\<close>

primrec cmatch :: "cclass \<Rightarrow> char \<Rightarrow> bool" where
  "cmatch AnyC c = (c \<noteq> CHR 0x0A)"
| "cmatch DigitC c = is_digit c"
| "cmatch WordC c = is_word c"
| "cmatch HexC c = is_hex c"

text \<open>
  \<open>Star True\<close> is greedy, \<open>Star False\<close> lazy. No pattern of the source has a group under a
  repetition, so the captures are a list in the order of the groups.
\<close>

datatype regex =
    Lit string
  | Cls cclass
  | Seq regex regex
  | Star bool regex
  | Group regex

abbreviation plus_cls :: "cclass \<Rightarrow> regex" where
  "plus_cls c \<equiv> Seq (Cls c) (Star True (Cls c))"

fun strip :: "string \<Rightarrow> string \<Rightarrow> string option" where
  "strip [] s = Some s"
| "strip (a # w) [] = None"
| "strip (a # w) (b # s) = (if a = b then strip w s else None)"

type_synonym parses = "(string \<times> string list) list"

definition then_parse :: "parses \<Rightarrow> (string \<Rightarrow> parses) \<Rightarrow> parses" where
  "then_parse ps f = concat (map (\<lambda>(s1, c1). map (\<lambda>(s2, c2). (s2, c1 @ c2)) (f s1)) ps)"

text \<open>
  Repetition: every iteration must consume something; the bound is the length of the text,
  which no run of consuming iterations exceeds. A greedy repetition prefers one more iteration,
  a lazy one prefers to stop.
\<close>

primrec star_iter :: "bool \<Rightarrow> (string \<Rightarrow> parses) \<Rightarrow> nat \<Rightarrow> string \<Rightarrow> parses" where
  "star_iter g f 0 s = [(s, [])]"
| "star_iter g f (Suc n) s =
     (let more = then_parse (filter (\<lambda>p. length (fst p) < length s) (f s)) (star_iter g f n)
      in if g then more @ [(s, [])] else (s, []) # more)"

primrec matches :: "regex \<Rightarrow> string \<Rightarrow> parses" where
  "matches (Lit w) = (\<lambda>s. case strip w s of None \<Rightarrow> [] | Some s' \<Rightarrow> [(s', [])])"
| "matches (Cls c) = (\<lambda>s. case s of [] \<Rightarrow> [] | x # xs \<Rightarrow> if cmatch c x then [(xs, [])] else [])"
| "matches (Seq a b) = (\<lambda>s. then_parse (matches a s) (matches b))"
| "matches (Star g r) = (\<lambda>s. star_iter g (matches r) (length s) s)"
| "matches (Group r) =
     (\<lambda>s. map (\<lambda>(s', cs). (s', take (length s - length s') s # cs)) (matches r s))"

text \<open>
  \<open>FindAllStringSubmatch\<close>: scan from the left; at each position take the first parse, report
  the whole match followed by the captures, and go on behind it. An empty match is passed over:
  no pattern of the source has one.
\<close>

function find_all :: "regex \<Rightarrow> string \<Rightarrow> string list list" where
  "find_all r [] = []"
| "find_all r (c # s) =
     (case matches r (c # s) of
        [] \<Rightarrow> find_all r s
      | (rest, caps) # _ \<Rightarrow>
          (if length rest < length (c # s)
           then (take (length (c # s) - length rest) (c # s) # caps) # find_all r rest
           else find_all r s))"
  by pat_completeness auto
termination
  by (relation "measure (\<lambda>(r, s). length s)") auto

section \<open>Literals\<close>

lemma strip_append [simp, scan_simps]: "strip w (w @ s) = Some s"
  by (induction w) auto

lemma strip_Some: "strip w s = Some t \<longleftrightarrow> s = w @ t"
  by (induction w s rule: strip.induct) auto

lemma then_parse_simps [simp, scan_simps]:
  "then_parse [] f = []"
  "then_parse ((s, c) # ps) f = map (\<lambda>(s2, c2). (s2, c @ c2)) (f s) @ then_parse ps f"
  by (simp_all add: then_parse_def)

lemma then_parse_append [simp]: "then_parse (ps @ qs) f = then_parse ps f @ then_parse qs f"
  by (simp add: then_parse_def)

lemma then_parse_Nil: "\<forall>p\<in>set ps. f (fst p) = [] \<Longrightarrow> then_parse ps f = []"
  by (induction ps) auto

lemma matches_lit_seq [scan_simps]:
  "matches (Seq (Lit w) r) s = (case strip w s of None \<Rightarrow> [] | Some s' \<Rightarrow> matches r s')"
  by (auto split: option.splits)

text \<open>
  \<open>clash w x\<close>: the texts differ at a position both have. \<open>no_start w x\<close>: the literal \<open>w\<close> cannot
  start anywhere in \<open>x\<close>, whatever follows \<open>x\<close>. Such text is skipped by a scan for a pattern
  that starts with \<open>w\<close>.
\<close>

fun clash :: "string \<Rightarrow> string \<Rightarrow> bool" where
  "clash (a # w) (b # x) = (a \<noteq> b \<or> clash w x)"
| "clash w x = False"

primrec no_start :: "string \<Rightarrow> string \<Rightarrow> bool" where
  "no_start w [] = True"
| "no_start w (b # x) = (clash w (b # x) \<and> no_start w x)"

lemma clash_strip: "clash w x \<Longrightarrow> strip w (x @ t) = None"
  by (induction w x rule: clash.induct) auto

lemma clash_append: "clash w x \<Longrightarrow> clash w (x @ y)"
  by (induction w x rule: clash.induct) auto

lemma no_start_append [simp, scan_simps]:
  "no_start w x \<Longrightarrow> no_start w y \<Longrightarrow> no_start w (x @ y)"
  by (induction x) (auto dest: clash_append [of w "_ # _"])

lemma no_start_hd: "a \<notin> set x \<Longrightarrow> no_start (a # w) x"
  by (induction x) auto

lemma no_start_concat: "\<forall>x\<in>set xs. no_start w x \<Longrightarrow> no_start w (concat xs)"
  by (induction xs) auto

lemma find_all_skip [scan_simps]:
  "no_start w x \<Longrightarrow> find_all (Seq (Lit w) r) (x @ t) = find_all (Seq (Lit w) r) t"
proof (induction x)
  case Nil
  then show ?case by simp
next
  case (Cons b x)
  then have "strip w ((b # x) @ t) = None" by (intro clash_strip) simp
  then have "matches (Seq (Lit w) r) (b # (x @ t)) = []"
    by (simp add: matches_lit_seq del: matches.simps)
  with Cons show ?case by (simp del: matches.simps)
qed

lemma find_all_none: "no_start w x \<Longrightarrow> find_all (Seq (Lit w) r) x = []"
  using find_all_skip [of w x r "[]"] by simp

lemma find_all_hit:
  assumes "matches r (x @ t) = (t, caps) # more" and "x \<noteq> []"
  shows "find_all r (x @ t) = (x # caps) # find_all r t"
proof -
  from assms(2) obtain a y where x: "x = a # y" by (cases x) auto
  show ?thesis using assms(1) by (simp add: x)
qed

section \<open>Repetition of a class\<close>

abbreviation run_len :: "cclass \<Rightarrow> string \<Rightarrow> nat" where
  "run_len c s \<equiv> length (takeWhile (cmatch c) s)"

lemma drop_upt_Cons:
  "map (\<lambda>k. (drop k (x # xs), [])) [Suc 0..<Suc (Suc n)] = map (\<lambda>k. (drop k xs, [])) [0..<Suc n]"
  by (simp only: map_Suc_upt [symmetric] map_map o_def drop_Suc_Cons)

text \<open>The parses of a repeated class are the prefixes of the run it covers, in their order.\<close>

lemma star_cls_greedy:
  "matches (Star True (Cls c)) s = map (\<lambda>k. (drop k s, [])) (rev [0..<Suc (run_len c s)])"
proof (induction s)
  case Nil
  then show ?case by simp
next
  case (Cons x xs)
  show ?case
  proof (cases "cmatch c x")
    case True
    have "[0..<Suc (Suc (run_len c xs))] = 0 # [Suc 0..<Suc (Suc (run_len c xs))]"
      by (simp add: upt_conv_Cons del: upt_Suc)
    moreover have "matches (Star True (Cls c)) (x # xs)
        = map (\<lambda>k. (drop k xs, [])) (rev [0..<Suc (run_len c xs)]) @ [(x # xs, [])]"
      using True Cons by (simp del: upt_Suc)
    ultimately show ?thesis
      using True by (simp add: drop_upt_Cons del: upt_Suc matches.simps flip: rev_map)
  next
    case False
    then show ?thesis by simp
  qed
qed

lemma star_cls_lazy:
  "matches (Star False (Cls c)) s = map (\<lambda>k. (drop k s, [])) [0..<Suc (run_len c s)]"
proof (induction s)
  case Nil
  then show ?case by simp
next
  case (Cons x xs)
  show ?case
  proof (cases "cmatch c x")
    case True
    have "[0..<Suc (Suc (run_len c xs))] = 0 # [Suc 0..<Suc (Suc (run_len c xs))]"
      by (simp add: upt_conv_Cons del: upt_Suc)
    moreover have "matches (Star False (Cls c)) (x # xs)
        = (x # xs, []) # map (\<lambda>k. (drop k xs, [])) [0..<Suc (run_len c xs)]"
      using True Cons by (simp del: upt_Suc)
    ultimately show ?thesis
      using True by (simp add: drop_upt_Cons del: upt_Suc matches.simps)
  next
    case False
    then show ?thesis by simp
  qed
qed

lemma plus_cls_matches:
  "matches (plus_cls c) s = map (\<lambda>k. (drop k s, [])) (rev [1..<Suc (run_len c s)])"
proof (cases s)
  case Nil
  then show ?thesis by simp
next
  case (Cons x xs)
  show ?thesis
  proof (cases "cmatch c x")
    case True
    have "matches (plus_cls c) (x # xs) = matches (Star True (Cls c)) xs"
      using True by (simp del: matches.simps(4))
    also have "\<dots> = rev (map (\<lambda>k. (drop k (x # xs), [])) [Suc 0..<Suc (Suc (run_len c xs))])"
      unfolding star_cls_greedy drop_upt_Cons by (simp only: rev_map)
    finally show ?thesis
      using True Cons by (simp add: rev_map del: matches.simps upt_Suc)
  next
    case False
    then show ?thesis using Cons by simp
  qed
qed

text \<open>The first parse after a greedy run that has to give back what follows position \<open>m\<close>.\<close>

lemma then_parse_run:
  assumes "0 < m" "m \<le> n" and "f (drop m s) = (t, cs) # more"
    and "\<And>k. m < k \<Longrightarrow> k \<le> n \<Longrightarrow> f (drop k s) = []"
  shows "\<exists>more'. then_parse (map (\<lambda>k. (drop k s, g k)) (rev [1..<Suc n])) f
           = (t, g m @ cs) # more'"
proof -
  have "[1..<Suc n] = [1..<m] @ [m..<Suc n]"
    using assms(1,2) upt_add_eq_append [of 1 m "Suc n - m"] by simp
  moreover have "[m..<Suc n] = m # [Suc m..<Suc n]"
    using assms(2) by (intro upt_conv_Cons) simp
  ultimately have "rev [1..<Suc n] = rev [Suc m..<Suc n] @ m # rev [1..<m]" by simp
  moreover have "then_parse (map (\<lambda>k. (drop k s, g k)) (rev [Suc m..<Suc n])) f = []"
    using assms(4) by (intro then_parse_Nil) auto
  ultimately show ?thesis using assms(3) by (simp del: upt_Suc)
qed


section \<open>The shapes of the source's patterns\<close>

text \<open>
  Each lemma gives the first parse of one pattern shape at the front of a text, from what the
  text is made of. Later parses (\<open>more\<close>) never matter to \<open>find_all\<close>.
\<close>

lemma take_diff_drop: "k \<le> length s \<Longrightarrow> take (length s - length (drop k s)) s = take k s"
  by simp

lemma run_len_le: "run_len c s \<le> length s"
  by (rule length_takeWhile_le)

lemma group_captures:
  "\<forall>k\<in>set ks. k \<le> length s \<Longrightarrow>
     map (\<lambda>(s', cs). (s', take (length s - length s') s # cs)) (map (\<lambda>k. (drop k s, [])) ks)
       = map (\<lambda>k. (drop k s, [take k s])) ks"
  by (induction ks) auto

lemma group_plus_matches:
  "matches (Group (plus_cls c)) s
     = map (\<lambda>k. (drop k s, [take k s])) (rev [1..<Suc (run_len c s)])"
proof -
  have "matches (Group (plus_cls c)) s = map (\<lambda>(s', cs). (s', take (length s - length s') s # cs))
          (map (\<lambda>k. (drop k s, [])) (rev [1..<Suc (run_len c s)]))"
    by (simp only: matches.simps(5) plus_cls_matches)
  also have "\<dots> = map (\<lambda>k. (drop k s, [take k s])) (rev [1..<Suc (run_len c s)])"
    using run_len_le [of c s] by (intro group_captures) auto
  finally show ?thesis .
qed

lemma run_len_append:
  "\<forall>x\<in>set ds. cmatch c x \<Longrightarrow> run_len c (ds @ rest) = length ds + run_len c rest"
  by (induction ds) auto

text \<open>\<open>(c+)b\<close>: the group takes \<open>ds\<close> when no longer prefix lets \<open>b\<close> go on.\<close>

lemma group_plus_first:
  assumes "ds \<noteq> []" and "\<forall>x\<in>set ds. cmatch c x"
    and "matches b rest = (t, cs) # more"
    and "\<And>k. 0 < k \<Longrightarrow> k \<le> run_len c rest \<Longrightarrow> matches b (drop k rest) = []"
  shows "\<exists>more'. matches (Seq (Group (plus_cls c)) b) (ds @ rest) = (t, ds # cs) # more'"
proof -
  let ?s = "ds @ rest"
  have "matches b (drop k ?s) = []" if "length ds < k" "k \<le> run_len c ?s" for k
    using assms(4) [of "k - length ds"] that assms(2) by (simp add: run_len_append)
  moreover have "length ds \<le> run_len c ?s"
    using assms(2) by (simp add: run_len_append)
  ultimately have "\<exists>more'. then_parse (map (\<lambda>k. (drop k ?s, [take k ?s])) (rev [1..<Suc (run_len c ?s)]))
      (matches b) = (t, [take (length ds) ?s] @ cs) # more'"
    using assms(1,3) by (intro then_parse_run [where more = more]) auto
  then show ?thesis by (simp only: matches.simps(3) group_plus_matches) simp
qed

corollary group_plus_stop:
  assumes "ds \<noteq> []" and "\<forall>x\<in>set ds. cmatch c x"
    and "\<not> cmatch c x" and "matches b (x # rest) = (t, cs) # more"
  shows "\<exists>more'. matches (Seq (Group (plus_cls c)) b) (ds @ x # rest) = (t, ds # cs) # more'"
  using assms by (intro group_plus_first) auto

text \<open>
  \<open>c+\<close> before a literal whose first character is outside the class: one parse only.
\<close>

lemma plus_lit_unique:
  assumes "ds \<noteq> []" and "\<forall>x\<in>set ds. cmatch c x" and "\<not> cmatch c a"
  shows "matches (Seq (plus_cls c) (Seq (Lit (a # w)) r)) (ds @ a # w @ rest) = matches r rest"
proof -
  let ?s = "ds @ a # w @ rest" and ?f = "matches (Seq (Lit (a # w)) r)"
  have n: "run_len c ?s = length ds" using assms(2,3) by (simp add: run_len_append)
  have "?f (drop k ?s) = []" if k: "k \<in> set (rev [1..<length ds])" for k
  proof -
    have "k < length ds" using k by simp
    then have "drop k ?s = ds ! k # drop (Suc k) ?s"
      by (metis Cons_nth_drop_Suc length_append nth_append trans_less_add1)
    moreover have "ds ! k \<noteq> a" using \<open>k < length ds\<close> assms(2,3) nth_mem by metis
    ultimately show ?thesis by (simp add: matches_lit_seq del: matches.simps)
  qed
  then have "then_parse (map (\<lambda>k. (drop k ?s, [])) (rev [1..<length ds])) ?f = []"
    by (intro then_parse_Nil) auto
  moreover have "rev [1..<Suc (length ds)] = length ds # rev [1..<length ds]"
    using assms(1) by (cases ds) auto
  ultimately have "then_parse (map (\<lambda>k. (drop k ?s, [])) (rev [1..<Suc (run_len c ?s)])) ?f
      = ?f (a # w @ rest)"
    using n by (simp del: upt_Suc matches.simps)
  then show ?thesis
    using strip_append [of "a # w" rest] plus_cls_matches [of c ?s]
    by (simp only: matches.simps(3) [of "plus_cls c"] matches_lit_seq) simp
qed

text \<open>\<open>(c+ac+)b\<close>: two runs around a separator.\<close>

lemma group_pair_first:
  assumes "ds \<noteq> []" and "\<forall>x\<in>set ds. cmatch c x" and "es \<noteq> []" and "\<forall>x\<in>set es. cmatch c x"
    and "\<not> cmatch c a" and "\<not> cmatch c y" and "matches b (y # rest) = (t, cs) # more"
  shows "\<exists>more'. matches (Seq (Group (Seq (plus_cls c) (Seq (Lit [a]) (plus_cls c)))) b)
           (ds @ a # es @ y # rest) = (t, (ds @ a # es) # cs) # more'"
proof -
  let ?s = "ds @ a # es @ y # rest" and ?u = "es @ y # rest"
  let ?g = "\<lambda>k. [take (Suc (length ds + k)) ?s]"
  have n: "run_len c ?u = length es" using assms(4,6) by (simp add: run_len_append)
  have "matches (Seq (plus_cls c) (Seq (Lit [a]) (plus_cls c))) ?s
      = map (\<lambda>k. (drop k ?u, [])) (rev [1..<Suc (length es)])"
    using plus_lit_unique [OF assms(1,2,5), of "[]" "plus_cls c" ?u]
    by (simp only: plus_cls_matches n append_Nil append_Cons)
  then have "matches (Group (Seq (plus_cls c) (Seq (Lit [a]) (plus_cls c)))) ?s
      = map (\<lambda>k. (drop k ?u, ?g k)) (rev [1..<Suc (length es)])"
    by (simp only: matches.simps(5)) (auto simp: rev_map [symmetric])
  moreover have "\<exists>more'. then_parse (map (\<lambda>k. (drop k ?u, ?g k)) (rev [1..<Suc (length es)]))
      (matches b) = (t, ?g (length es) @ cs) # more'"
    using assms(3,7) by (intro then_parse_run [where more = more]) auto
  ultimately show ?thesis by (simp only: matches.simps(3) [of "Group _"]) simp
qed

text \<open>\<open>(.*?)b\<close>: the lazy group stops at the first place where \<open>b\<close> can go on.\<close>

lemma group_lazy_first:
  assumes "\<forall>x\<in>set ds. cmatch c x" and "matches b rest = (t, cs) # more"
    and "\<And>k. k < length ds \<Longrightarrow> matches b (drop k ds @ rest) = []"
  shows "\<exists>more'. matches (Seq (Group (Star False (Cls c))) b) (ds @ rest) = (t, ds # cs) # more'"
proof -
  let ?s = "ds @ rest" and ?g = "\<lambda>k. (drop k (ds @ rest), [take k (ds @ rest)])"
  have "matches (Group (Star False (Cls c))) ?s = map (\<lambda>(s', cs). (s', take (length ?s - length s') ?s # cs))
          (map (\<lambda>k. (drop k ?s, [])) [0..<Suc (run_len c ?s)])"
    by (simp only: matches.simps(5) star_cls_lazy)
  also have "\<dots> = map ?g [0..<Suc (run_len c ?s)]"
    using run_len_le [of c ?s] by (intro group_captures) auto
  finally have m: "matches (Group (Star False (Cls c))) ?s = map ?g [0..<Suc (run_len c ?s)]" .
  have le: "length ds \<le> run_len c ?s" using assms(1) by (simp add: run_len_append)
  then have "[0..<Suc (run_len c ?s)] = [0..<length ds] @ length ds # [Suc (length ds)..<Suc (run_len c ?s)]"
    using upt_add_eq_append [of 0 "length ds" "Suc (run_len c ?s) - length ds"]
    by (simp add: upt_conv_Cons del: upt_Suc)
  moreover have "then_parse (map ?g [0..<length ds]) (matches b) = []"
    using assms(3) by (intro then_parse_Nil) auto
  ultimately show ?thesis
    using assms(2) m by (simp only: matches.simps(3) [of "Group _"]) (simp del: upt_Suc)
qed


text \<open>
  \<open>(c+(?:ac+)*?)\<close> before a literal: runs joined by a separator. Only the parse that covers all
  of them reaches the literal.
\<close>

definition hits :: "string \<Rightarrow> parses \<Rightarrow> parses" where
  "hits w ps = filter (\<lambda>p. strip w (fst p) \<noteq> None) ps"

lemma hits_simps [simp]:
  "hits w [] = []"
  "hits w (p # ps) = (if strip w (fst p) = None then hits w ps else p # hits w ps)"
  "hits w (ps @ qs) = hits w ps @ hits w qs"
  by (simp_all add: hits_def)

lemma then_parse_lit:
  "then_parse ps (matches (Lit w)) = map (\<lambda>(s, cs). (the (strip w s), cs)) (hits w ps)"
  by (induction ps) auto

lemma hits_then_parse_nocap:
  "hits w (then_parse (map (\<lambda>k. (u k, [])) ks) F) = concat (map (\<lambda>k. hits w (F (u k))) ks)"
  by (induction ks) (simp_all add: split_beta)

lemma concat_map_Nil: "\<forall>k\<in>set ks. h k = [] \<Longrightarrow> concat (map h ks) = []"
  by (induction ks) auto

text \<open>Reading a run and going on with \<open>F\<close>, when \<open>F\<close> has no hit inside the run.\<close>

lemma hits_plus_then:
  assumes "g \<noteq> []" and "\<forall>x\<in>set g. cmatch c x" and "run_len c s1 = 0"
    and "\<And>d z. cmatch c d \<Longrightarrow> hits w (F (d # z)) = []"
  shows "hits w (then_parse (matches (plus_cls c) (g @ s1)) F) = hits w (F s1)"
proof -
  let ?u = "\<lambda>k. drop k (g @ s1)"
  have n: "run_len c (g @ s1) = length g" using assms(2,3) by (simp add: run_len_append)
  have "hits w (F (?u k)) = []" if k: "k \<in> set (rev [1..<length g])" for k
  proof -
    have "k < length g" using k by simp
    then have "?u k = g ! k # drop (Suc k) (g @ s1)"
      by (metis Cons_nth_drop_Suc length_append nth_append trans_less_add1)
    moreover have "cmatch c (g ! k)" using \<open>k < length g\<close> assms(2) by simp
    ultimately show ?thesis using assms(4) by simp
  qed
  then have "concat (map (\<lambda>k. hits w (F (?u k))) (rev [1..<length g])) = []"
    by (intro concat_map_Nil) blast
  moreover have "rev [1..<Suc (length g)] = length g # rev [1..<length g]"
    using assms(1) by (cases g) auto
  ultimately show ?thesis
    by (simp add: plus_cls_matches n hits_then_parse_nocap del: upt_Suc matches.simps)
qed

lemma star_iter_stop: "f s = [] \<Longrightarrow> star_iter False f n s = [(s, [])]"
  by (cases n) auto

lemma sep_iter_hits:
  assumes "\<forall>g\<in>set gs. g \<noteq> [] \<and> (\<forall>x\<in>set g. cmatch c x)" and "length gs \<le> n"
    and "\<not> cmatch c a" and "\<not> cmatch c y" and "y \<noteq> a"
  shows "hits (y # w) (star_iter False (matches (Seq (Lit [a]) (plus_cls c))) n
           (concat (map (\<lambda>g. a # g) gs) @ y # w @ t)) = [(y # w @ t, [])]"
  using assms(1,2)
proof (induction gs arbitrary: n)
  case Nil
  have "matches (Seq (Lit [a]) (plus_cls c)) (y # w @ t) = []"
    using assms(5) by (simp add: matches_lit_seq del: matches.simps)
  then show ?case by (simp add: star_iter_stop del: matches.simps)
next
  case (Cons g gs)
  let ?f = "matches (Seq (Lit [a]) (plus_cls c))" and ?F = "\<lambda>n. star_iter False (matches (Seq (Lit [a]) (plus_cls c))) n"
  let ?s1 = "concat (map (\<lambda>g. a # g) gs) @ y # w @ t"
  obtain m where n: "n = Suc m" using Cons.prems(2) by (cases n) auto
  have f: "?f (a # g @ ?s1) = matches (plus_cls c) (g @ ?s1)"
    by (simp add: matches_lit_seq del: matches.simps)
  have short: "filter (\<lambda>p. length (fst p) < length (a # g @ ?s1)) (matches (plus_cls c) (g @ ?s1))
      = matches (plus_cls c) (g @ ?s1)"
    by (auto simp: plus_cls_matches filter_id_conv simp del: matches.simps upt_Suc)
  have s1: "run_len c ?s1 = 0" using assms(3,4) by (cases gs) auto
  have "hits (y # w) (?F m (d # z)) = []" if "cmatch c d" for d z
    using that assms(3,4) by (subst star_iter_stop) (auto simp: matches_lit_seq simp del: matches.simps)
  then have "hits (y # w) (then_parse (matches (plus_cls c) (g @ ?s1)) (?F m)) = hits (y # w) (?F m ?s1)"
    using Cons.prems(1) s1 by (intro hits_plus_then) auto
  also have "\<dots> = [(y # w @ t, [])]"
    using Cons.prems n by (intro Cons.IH) auto
  finally have IH: "hits (y # w) (then_parse (matches (plus_cls c) (g @ ?s1)) (?F m)) = [(y # w @ t, [])]" .
  have "?F n (a # g @ ?s1) = (a # g @ ?s1, []) # then_parse (matches (plus_cls c) (g @ ?s1)) (?F m)"
    by (simp only: n star_iter.simps f short Let_def if_False)
  with IH show ?case using assms(5) by simp
qed

lemma group_sep_first:
  assumes "g \<noteq> []" and "\<forall>x\<in>set g. cmatch c x"
    and "\<forall>g\<in>set gs. g \<noteq> [] \<and> (\<forall>x\<in>set g. cmatch c x)"
    and "\<not> cmatch c a" and "\<not> cmatch c y" and "y \<noteq> a"
  defines "body \<equiv> g @ concat (map (\<lambda>g. a # g) gs)"
  shows "matches (Seq (Group (Seq (plus_cls c) (Star False (Seq (Lit [a]) (plus_cls c))))) (Lit (y # w)))
           (body @ y # w @ t) = [(t, [body])]"
proof -
  let ?r = "Seq (plus_cls c) (Star False (Seq (Lit [a]) (plus_cls c)))"
  let ?F = "matches (Star False (Seq (Lit [a]) (plus_cls c)))"
  let ?s1 = "concat (map (\<lambda>g. a # g) gs) @ y # w @ t" and ?s = "body @ y # w @ t"
  have s1: "run_len c ?s1 = 0" using assms(4,5) by (cases gs) auto
  have "hits (y # w) (?F (d # z)) = []" if "cmatch c d" for d z
    using that assms(4,5)
    by (simp only: matches.simps(4), subst star_iter_stop) (auto simp: matches_lit_seq simp del: matches.simps)
  then have "hits (y # w) (matches ?r ?s) = hits (y # w) (?F ?s1)"
    unfolding body_def append_assoc matches.simps(3) [of "plus_cls c"]
    using assms(1,2) s1 by (intro hits_plus_then) auto
  also have "\<dots> = [(y # w @ t, [])]"
    unfolding matches.simps(4) using assms(3-6)
    by (intro sep_iter_hits) (auto simp: length_concat o_def sum_list_Suc)
  finally have h: "hits (y # w) (matches ?r ?s) = [(y # w @ t, [])]" .
  have "hits (y # w) (matches (Group ?r) ?s)
      = map (\<lambda>(s', cs). (s', take (length ?s - length s') ?s # cs)) (hits (y # w) (matches ?r ?s))"
    unfolding matches.simps(5) hits_def filter_map by (simp add: o_def split_beta del: matches.simps)
  also have "\<dots> = [(y # w @ t, [body])]"
    unfolding h by simp
  finally have "hits (y # w) (matches (Group ?r) ?s) = [(y # w @ t, [body])]" .
  then show ?thesis
    unfolding matches.simps(3) [of "Group ?r"] then_parse_lit
    by (simp del: matches.simps)
qed

text \<open>
  \<open>(c+ac+)b\<close> on runs joined by \<open>a\<close>: it parses exactly when there are two runs, for a \<open>b\<close> that
  starts with neither a character of the runs nor the separator.
\<close>

lemma plus_lit_none:
  assumes "\<forall>x\<in>set ds. cmatch c x" and "\<not> cmatch c a" and "\<not> cmatch c y" and "y \<noteq> a"
  shows "matches (Seq (plus_cls c) (Seq (Lit (a # w)) r)) (ds @ y # rest) = []"
proof -
  let ?s = "ds @ y # rest"
  have n: "run_len c ?s = length ds" using assms(1,3) by (simp add: run_len_append)
  have miss: "matches (Seq (Lit (a # w)) r) (drop k ?s) = []" if "k \<le> length ds" for k
  proof (cases "k = length ds")
    case True
    then show ?thesis using assms(4) by (simp add: matches_lit_seq del: matches.simps)
  next
    case False
    then have "k < length ds" using that by simp
    then have "drop k ?s = ds ! k # drop (Suc k) ?s"
      by (metis Cons_nth_drop_Suc length_append nth_append trans_less_add1)
    moreover have "ds ! k \<noteq> a" using \<open>k < length ds\<close> assms(1,2) nth_mem by metis
    ultimately show ?thesis by (simp add: matches_lit_seq del: matches.simps)
  qed
  show ?thesis
    unfolding matches.simps(3) [of "plus_cls c"] plus_cls_matches n
  proof (rule then_parse_Nil, rule ballI)
    fix p :: "string \<times> string list"
    assume "p \<in> set (map (\<lambda>k. (drop k ?s, [])) (rev [1..<Suc (length ds)]))"
    then have "\<exists>k\<in>{1..length ds}. p = (drop k ?s, [])"
      unfolding set_map set_rev set_upt image_iff by (simp only: atLeastLessThanSuc_atLeastAtMost)
    then obtain k where "k \<le> length ds" and "p = (drop k ?s, [])" by (auto simp del: drop_append)
    with miss show "matches (Seq (Lit (a # w)) r) (fst p) = []" by (simp only: fst_conv)
  qed
qed

lemma group_pair_groups:
  assumes "g \<noteq> []" and "\<forall>x\<in>set g. cmatch c x"
    and "\<forall>g\<in>set gs. g \<noteq> [] \<and> (\<forall>x\<in>set g. cmatch c x)"
    and "\<not> cmatch c a" and "\<not> cmatch c y" and "y \<noteq> a"
    and b: "\<And>d s. cmatch c d \<or> d = a \<Longrightarrow> matches b (d # s) = []"
  defines "body \<equiv> g @ concat (map (\<lambda>g. a # g) gs)"
  shows "matches (Seq (Group (Seq (plus_cls c) (Seq (Lit [a]) (plus_cls c)))) b) (body @ y # rest) =
    (if length gs = 1 then map (\<lambda>(t, cs). (t, body # cs)) (matches b (y # rest)) else [])"
proof (cases gs)
  case Nil
  then have "matches (Seq (plus_cls c) (Seq (Lit [a]) (plus_cls c))) (body @ y # rest) = []"
    unfolding body_def using plus_lit_none [OF assms(2,4-6), of "[]" "plus_cls c" rest]
    by (simp del: matches.simps)
  then show ?thesis using Nil by (simp only: matches.simps(3) [of "Group _"] matches.simps(5)) simp
next
  case (Cons e es)
  define rst where "rst = concat (map (\<lambda>g. a # g) es) @ y # rest"
  let ?s = "body @ y # rest" and ?u = "e @ rst"
  let ?g = "\<lambda>k. [take (Suc (length g + k)) ?s]"
  have s: "?s = g @ a # ?u" unfolding body_def Cons rst_def by simp
  have e: "e \<noteq> []" "\<forall>x\<in>set e. cmatch c x" using assms(3) Cons by auto
  have r: "run_len c rst = 0" unfolding rst_def using assms(4,5) by (cases es) auto
  then have n: "run_len c ?u = length e" using e(2) by (simp add: run_len_append)
  have "matches (Seq (plus_cls c) (Seq (Lit [a]) (plus_cls c))) ?s
      = map (\<lambda>k. (drop k ?u, [])) (rev [1..<Suc (length e)])"
    unfolding s using plus_lit_unique [OF assms(1,2,4), of "[]" "plus_cls c" ?u]
    by (simp only: plus_cls_matches n append_Nil append_Cons)
  then have m: "matches (Group (Seq (plus_cls c) (Seq (Lit [a]) (plus_cls c)))) ?s
      = map (\<lambda>k. (drop k ?u, ?g k)) (rev [1..<Suc (length e)])"
    unfolding s by (simp only: matches.simps(5)) (auto simp: rev_map [symmetric])
  have inner: "matches b (drop k ?u) = []" if k: "k < length e" for k
  proof -
    have "drop k ?u = e ! k # drop (Suc k) ?u"
      using k by (metis Cons_nth_drop_Suc length_append nth_append trans_less_add1)
    then show ?thesis using b e(2) k by simp
  qed
  have "then_parse (map (\<lambda>k. (drop k ?u, ?g k)) (rev [1..<length e])) (matches b) = []"
    using inner by (intro then_parse_Nil) auto
  moreover have "rev [1..<Suc (length e)] = length e # rev [1..<length e]"
    using e(1) by (cases e) auto
  ultimately have "matches (Seq (Group (Seq (plus_cls c) (Seq (Lit [a]) (plus_cls c)))) b) ?s
      = map (\<lambda>(t, cs). (t, ?g (length e) @ cs)) (matches b rst)"
    unfolding matches.simps(3) [of "Group _"] m by (simp del: upt_Suc)
  moreover have "matches b rst = (if es = [] then matches b (y # rest) else [])"
    unfolding rst_def using b by (cases es) auto
  moreover have "es = [] \<Longrightarrow> take (Suc (length g + length e)) ?s = body"
    unfolding body_def Cons by simp
  ultimately show ?thesis using Cons by auto
qed

section \<open>Scanning a text made of segments\<close>

text \<open>
  A log is a concatenation of segments. For a pattern that starts with the literal \<open>w\<close>, a segment
  is a hit (\<open>Some (x, caps)\<close>: \<open>x\<close> is matched at its front and the rest is skipped), or a miss: the
  literal does not start in it, or it does at its front and the pattern fails there.
\<close>

fun seg_ok :: "string \<Rightarrow> regex \<Rightarrow> string \<Rightarrow> (string \<times> string list) option \<Rightarrow> bool" where
  "seg_ok w r s None = (no_start w s \<or>
     (s \<noteq> [] \<and> (\<forall>t. matches (Seq (Lit w) r) (s @ t) = []) \<and> no_start w (tl s)))"
| "seg_ok w r s (Some (x, caps)) = (x \<noteq> [] \<and> (\<exists>y. s = x @ y \<and> no_start w y \<and>
     (\<forall>t. \<exists>more. matches (Seq (Lit w) r) (s @ t) = (y @ t, caps) # more)))"

definition seg_hit :: "(string \<times> string list) option \<Rightarrow> string list list" where
  "seg_hit h = (case h of None \<Rightarrow> [] | Some (x, caps) \<Rightarrow> [x # caps])"

lemma find_all_seg:
  assumes "seg_ok w r s h"
  shows "find_all (Seq (Lit w) r) (s @ t) = seg_hit h @ find_all (Seq (Lit w) r) t"
proof (cases h)
  case None
  show ?thesis
  proof (cases "no_start w s")
    case True
    then show ?thesis using None by (simp add: seg_hit_def find_all_skip)
  next
    case False
    then have m: "s \<noteq> []" "matches (Seq (Lit w) r) (s @ t) = []" "no_start w (tl s)"
      using assms None by auto
    then obtain c u where s: "s = c # u" by (cases s) auto
    have "find_all (Seq (Lit w) r) (s @ t) = find_all (Seq (Lit w) r) (u @ t)"
      using m(2) unfolding s append_Cons find_all.simps by (simp only: list.case)
    also have "\<dots> = find_all (Seq (Lit w) r) t" using m(3) s by (intro find_all_skip) simp
    finally show ?thesis using None by (simp add: seg_hit_def)
  qed
next
  case (Some p)
  obtain x caps where p: "p = (x, caps)" by (cases p)
  from assms obtain y where y: "x \<noteq> []" "s = x @ y" "no_start w y"
      "\<forall>t. \<exists>more. matches (Seq (Lit w) r) (s @ t) = (y @ t, caps) # more"
    unfolding Some p seg_ok.simps by blast
  from y(4) obtain more where "matches (Seq (Lit w) r) (x @ (y @ t)) = (y @ t, caps) # more"
    unfolding y(2) append_assoc by blast
  from find_all_hit [OF this y(1)] find_all_skip [OF y(3), of r t]
  show ?thesis unfolding Some p y(2) seg_hit_def by simp
qed

lemma find_all_segs:
  "\<forall>a\<in>set as. seg_ok w r (txt a) (h a) \<Longrightarrow>
     find_all (Seq (Lit w) r) (concat (map txt as)) = concat (map (\<lambda>a. seg_hit (h a)) as)"
proof (induction as)
  case (Cons a as)
  then have "seg_ok w r (txt a) (h a)" by simp
  from find_all_seg [OF this, of "concat (map txt as)"] Cons show ?case by simp
qed simp

end
