(* ===== verification/GoStrings.thy ===== *)
theory GoStrings
  imports GoRegex
begin

text \<open>
  The string conversions of the Go standard library that the parsers use: \<open>strconv.ParseUint\<close>
  (base 10, 64 bits), \<open>strconv.ParseBool\<close>, \<open>strconv.Atoi\<close> with its error dropped,
  \<open>encoding/hex\<close>'s \<open>DecodeString\<close> and \<open>strings.Replace\<close> of a character by nothing. Decimal
  printing \<open>dec\<close> is the inverse the round trips need.
\<close>

section \<open>Digits and numbers\<close>

definition digit_val :: "char \<Rightarrow> nat" where
  "digit_val c = length (takeWhile (\<lambda>d. d \<noteq> c) ''0123456789'')"

text \<open>The value of a digit string, most significant digit first.\<close>

fun num_val :: "nat \<Rightarrow> string \<Rightarrow> nat" where
  "num_val n [] = n"
| "num_val n (c # s) = num_val (10 * n + digit_val c) s"

text \<open>
  \<open>strconv.ParseUint(s, 10, 64)\<close>: an empty string or a character that is not a digit is a syntax
  error, a value past \<open>2^64 - 1\<close> a range error, found at the digit that exceeds it.
\<close>

fun parse_uint_loop :: "nat \<Rightarrow> string \<Rightarrow> u64 res" where
  "parse_uint_loop n [] = Ok (of_nat n)"
| "parse_uint_loop n (c # s) =
     (if \<not> is_digit c then Err (ErrExt ''invalid syntax'')
      else if 18446744073709551616 \<le> 10 * n + digit_val c then Err (ErrExt ''value out of range'')
      else parse_uint_loop (10 * n + digit_val c) s)"

definition parse_uint :: "string \<Rightarrow> u64 res" where
  "parse_uint s = (if s = [] then Err (ErrExt ''invalid syntax'') else parse_uint_loop 0 s)"

definition parse_bool :: "string \<Rightarrow> bool res" where
  "parse_bool s =
     (if s \<in> set [''1'', ''t'', ''T'', ''true'', ''TRUE'', ''True''] then Ok True
      else if s \<in> set [''0'', ''f'', ''F'', ''false'', ''FALSE'', ''False''] then Ok False
      else Err (ErrExt ''invalid syntax''))"

text \<open>
  The value of \<open>strconv.Atoi\<close> on a digit string when its error is ignored: out of range it is
  the largest 64-bit signed integer.
\<close>

definition atoi_val :: "string \<Rightarrow> nat" where
  "atoi_val s = min (num_val 0 s) 9223372036854775807"

text \<open>\<open>strings.Replace(s, "_", "", -1)\<close>\<close>

definition drop_underscores :: "string \<Rightarrow> string" where
  "drop_underscores s = filter (\<lambda>c. c \<noteq> CHR ''_'') s"

section \<open>Hexadecimal\<close>

definition hex_val :: "char \<Rightarrow> nat" where
  "hex_val c = (let n = length (takeWhile (\<lambda>d. d \<noteq> c) ''0123456789abcdefABCDEF'')
     in if n < 16 then n else n - 6)"

text \<open>\<open>hex.DecodeString\<close>: pairs of digits; a bad character or an odd length is an error.\<close>

fun hex_decode :: "string \<Rightarrow> bytes res" where
  "hex_decode [] = Ok []"
| "hex_decode [a] = (if is_hex a then Err (ErrExt ''odd length hex string'')
     else Err (ErrExt ''invalid byte''))"
| "hex_decode (a # b # s) =
     (if \<not> is_hex a \<or> \<not> is_hex b then Err (ErrExt ''invalid byte'')
      else res_bind (hex_decode s) (\<lambda>bs. Ok (of_nat (16 * hex_val a + hex_val b) # bs)))"

section \<open>Facts\<close>

lemma is_digit_word: "is_digit c \<Longrightarrow> is_word c"
  by (auto simp: is_digit_def is_word_def)

lemma is_digit_hex: "is_digit c \<Longrightarrow> is_hex c"
  by (auto simp: is_digit_def is_hex_def)

lemma num_val_lower: "10 ^ length s * n \<le> num_val n s"
proof (induction s arbitrary: n)
  case Nil
  then show ?case by simp
next
  case (Cons c s)
  have "10 ^ length (c # s) * n \<le> 10 ^ length s * (10 * n + digit_val c)"
    by (simp add: algebra_simps)
  also have "\<dots> \<le> num_val (10 * n + digit_val c) s" by (rule Cons)
  finally show ?case by simp
qed

lemma num_val_ge: "n \<le> num_val n s"
  by (rule order_trans [OF _ num_val_lower [of s n]]) simp

text \<open>\<open>ParseUint\<close> on a digit string: the value when it fits, an error otherwise.\<close>

lemma parse_uint_loop_digits:
  "\<forall>c\<in>set s. is_digit c \<Longrightarrow> n < 18446744073709551616 \<Longrightarrow>
     parse_uint_loop n s =
       (if num_val n s < 18446744073709551616 then Ok (of_nat (num_val n s))
        else Err (ErrExt ''value out of range''))"
proof (induction s arbitrary: n)
  case Nil
  then show ?case by simp
next
  case (Cons c s)
  show ?case
  proof (cases "18446744073709551616 \<le> 10 * n + digit_val c")
    case True
    then show ?thesis
      using Cons.prems num_val_ge [of "10 * n + digit_val c" s] by simp
  next
    case False
    then show ?thesis using Cons by simp
  qed
qed

lemma parse_uint_digits:
  "s \<noteq> [] \<Longrightarrow> \<forall>c\<in>set s. is_digit c \<Longrightarrow>
     parse_uint s = (if num_val 0 s < 18446744073709551616 then Ok (of_nat (num_val 0 s))
       else Err (ErrExt ''value out of range''))"
  by (simp add: parse_uint_def parse_uint_loop_digits)

lemma parse_uint_Ok_digits: "parse_uint s = Ok v \<Longrightarrow> s \<noteq> [] \<and> (\<forall>c\<in>set s. is_digit c)"
proof -
  have "parse_uint_loop n s = Ok v \<Longrightarrow> \<forall>c\<in>set s. is_digit c" for n
    by (induction n s rule: parse_uint_loop.induct) (auto split: if_splits)
  then show "parse_uint s = Ok v \<Longrightarrow> ?thesis" by (auto simp: parse_uint_def split: if_splits)
qed

section \<open>Decimal printing\<close>

definition digit_char :: "nat \<Rightarrow> char" where
  "digit_char n = ''0123456789'' ! n"

fun dec :: "nat \<Rightarrow> string" where
  "dec n = (if n < 10 then [digit_char n] else dec (n div 10) @ [digit_char (n mod 10)])"

declare dec.simps [simp del]

lemma less_10_cases:
  "(n::nat) < 10 \<Longrightarrow> n = 0 \<or> n = 1 \<or> n = 2 \<or> n = 3 \<or> n = 4 \<or> n = 5 \<or> n = 6 \<or> n = 7 \<or> n = 8 \<or> n = 9"
  by arith

lemma digit_char_simps [simp]:
  assumes "n < 10"
  shows "is_digit (digit_char n)" and "digit_val (digit_char n) = n"
  using less_10_cases [OF assms]
  by (auto simp: digit_char_def is_digit_def digit_val_def)

lemma num_val_append: "num_val n (s @ t) = num_val (num_val n s) t"
  by (induction s arbitrary: n) auto

lemma num_val_dec [simp]: "num_val 0 (dec n) = n"
proof (induction n rule: dec.induct)
  case (1 n)
  show ?case
  proof (cases "n < 10")
    case True
    then show ?thesis by (simp add: dec.simps)
  next
    case False
    then show ?thesis using 1 by (subst dec.simps) (simp add: num_val_append)
  qed
qed

lemma dec_digits [simp]: "c \<in> set (dec n) \<Longrightarrow> is_digit c"
proof (induction n rule: dec.induct)
  case (1 n)
  show ?case
  proof (cases "n < 10")
    case True
    with 1 show ?thesis by (simp add: dec.simps)
  next
    case False
    with 1 show ?thesis by (auto simp: dec.simps [of n])
  qed
qed

lemma dec_nonempty [simp]: "dec n \<noteq> []"
  by (subst dec.simps) simp

lemma parse_uint_dec [simp]: "parse_uint (dec (unat w)) = Ok w"
  using unat_u64_less [of w] by (subst parse_uint_digits) auto

section \<open>Hexadecimal printing\<close>

definition hex_char :: "nat \<Rightarrow> char" where
  "hex_char n = ''0123456789abcdef'' ! n"

definition hex_byte :: "byte \<Rightarrow> string" where
  "hex_byte b = [hex_char (unat b div 16), hex_char (unat b mod 16)]"

definition hex_encode :: "bytes \<Rightarrow> string" where
  "hex_encode bs = concat (map hex_byte bs)"

lemma hex_chars_check: "list_all (\<lambda>n. is_hex (hex_char n) \<and> hex_val (hex_char n) = n) [0..<16]"
  by code_simp

lemma hex_char_simps [simp]:
  assumes "n < 16"
  shows "is_hex (hex_char n)" and "hex_val (hex_char n) = n"
  using hex_chars_check assms unfolding list_all_iff by simp_all

lemma byte_nibble: "unat (b :: byte) div 16 < 16"
  using unat_byte_less [of b] by (simp add: div_less_iff_less_mult)

lemma hex_byte_hex:
  assumes "c \<in> set (hex_byte b)"
  shows "is_hex c"
proof -
  have "is_hex (hex_char (unat b div 16))" by (rule hex_char_simps(1) [OF byte_nibble])
  moreover have "is_hex (hex_char (unat b mod 16))" by (rule hex_char_simps(1)) simp
  moreover have "c = hex_char (unat b div 16) \<or> c = hex_char (unat b mod 16)"
    using assms by (simp add: hex_byte_def)
  ultimately show ?thesis by (elim disjE) (simp_all only:)
qed

lemma hex_encode_hex [simp]: "c \<in> set (hex_encode bs) \<Longrightarrow> is_hex c"
  unfolding hex_encode_def by (auto intro: hex_byte_hex)

lemma hex_decode_encode [simp]: "hex_decode (hex_encode bs) = Ok bs"
proof (induction bs)
  case Nil
  then show ?case by (simp add: hex_encode_def)
next
  case (Cons b bs)
  have "unat b div 16 < 16" by (rule byte_nibble)
  moreover have "16 * (unat b div 16) + unat b mod 16 = unat b" by simp
  ultimately show ?case using Cons by (simp add: hex_encode_def hex_byte_def)
qed

lemma hex_encode_nonempty [simp]: "hex_encode bs = [] \<longleftrightarrow> bs = []"
  by (cases bs) (auto simp: hex_encode_def hex_byte_def)

end
