(* ===== verification/WalletAddress.thy ===== *)
theory WalletAddress
  imports GoStrings
begin

text \<open>
  Identities and signatures: \<open>wallet/address.go\<close>, \<open>wallet/account.go\<close>, \<open>wallet/backend.go\<close> and
  the wire wrapper \<open>wire/address.go\<close>. An address is an ed25519 public key, an account an ed25519
  private key. The curve library is not part of the repository: its operations are the fields of
  the record \<open>ed25519\<close>, an argument of every definition that uses them.
\<close>

section \<open>Addresses\<close>

datatype address = Address bytes

primrec addr_bytes :: "address \<Rightarrow> bytes" where
  "addr_bytes (Address bs) = bs"

text \<open>
  A value of go-perun's interface \<open>wallet.Address\<close>: this package's \<open>*Address\<close>, or some other
  implementation, of which the code only ever sees what its \<open>MarshalBinary\<close> returns.
\<close>

datatype paddr = WalletAddr address | OtherAddr "bytes res"

definition PublicKeySize :: nat where "PublicKeySize = 32"
definition SignatureSize :: nat where "SignatureSize = 64"

definition Address_MarshalBinary :: "address \<Rightarrow> bytes res" where
  "Address_MarshalBinary a = Ok (addr_bytes a)"

text \<open>\<open>MarshalBinary\<close> called through the interface.\<close>

primrec MarshalBinary :: "paddr \<Rightarrow> bytes res" where
  "MarshalBinary (WalletAddr a) = Address_MarshalBinary a"
| "MarshalBinary (OtherAddr r) = r"

definition Address_UnmarshalBinary :: "bytes \<Rightarrow> address res" where
  "Address_UnmarshalBinary data =
     (if length data \<noteq> PublicKeySize then Err (ErrNew (''invalid PK length: '' @ dec (length data) @ ''/'' @ dec PublicKeySize))
      else Ok (Address (copy_into PublicKeySize data)))"

text \<open>Unpadded base64 with the alphabet of the package.\<close>

definition addrEncoding :: string where
  "addrEncoding = ''ABCDEFGHIJKLMNOPQRSTUVWXYZabcdefghijklmnopqrstuvwxyz0123456789_$''"

definition enc_char :: "nat \<Rightarrow> char" where
  "enc_char n = addrEncoding ! n"

fun EncodeToString :: "bytes \<Rightarrow> string" where
  "EncodeToString (a # b # c # r) =
     (let v = unat a * 65536 + unat b * 256 + unat c
      in [enc_char (v div 262144 mod 64), enc_char (v div 4096 mod 64), enc_char (v div 64 mod 64),
          enc_char (v mod 64)] @ EncodeToString r)"
| "EncodeToString [a, b] =
     (let v = unat a * 65536 + unat b * 256
      in [enc_char (v div 262144 mod 64), enc_char (v div 4096 mod 64), enc_char (v div 64 mod 64)])"
| "EncodeToString [a] =
     (let v = unat a * 65536 in [enc_char (v div 262144 mod 64), enc_char (v div 4096 mod 64)])"
| "EncodeToString [] = []"

definition Address_String :: "address \<Rightarrow> string" where
  "Address_String a = EncodeToString (addr_bytes a)"

text \<open>\<open>Equal\<close> is false for another implementation; \<open>Cmp\<close> and \<open>AsAddr\<close> panic there.\<close>

primrec Address_Equal :: "address \<Rightarrow> paddr \<Rightarrow> bool" where
  "Address_Equal a (WalletAddr b) = (addr_bytes a = addr_bytes b)"
| "Address_Equal a (OtherAddr r) = False"

text \<open>\<open>bytes.Compare\<close>\<close>

fun bytes_compare :: "bytes \<Rightarrow> bytes \<Rightarrow> int" where
  "bytes_compare [] [] = 0"
| "bytes_compare [] (b # bs) = - 1"
| "bytes_compare (a # as) [] = 1"
| "bytes_compare (a # as) (b # bs) =
     (if a < b then - 1 else if b < a then 1 else bytes_compare as bs)"

primrec Address_Cmp :: "address \<Rightarrow> paddr \<Rightarrow> int res" where
  "Address_Cmp a (WalletAddr b) = Ok (bytes_compare (addr_bytes a) (addr_bytes b))"
| "Address_Cmp a (OtherAddr r) = Panic ''interface conversion''"

primrec AsAddr :: "paddr \<Rightarrow> address res" where
  "AsAddr (WalletAddr a) = Ok a"
| "AsAddr (OtherAddr r) = Panic ''interface conversion''"

section \<open>Interface: three-way comparison\<close>

text \<open>
  What a caller may rely on from a \<open>Cmp\<close> method: it is 0 exactly on equal values, changes sign
  when the arguments swap, and is transitive.
\<close>

locale three_way =
  fixes cmp :: "'a \<Rightarrow> 'a \<Rightarrow> int"
  assumes cmp_range: "cmp a b = - 1 \<or> cmp a b = 0 \<or> cmp a b = 1"
    and cmp_zero: "cmp a b = 0 \<longleftrightarrow> a = b"
    and cmp_swap: "cmp b a = - cmp a b"
    and cmp_le_trans: "cmp a b \<le> 0 \<Longrightarrow> cmp b c \<le> 0 \<Longrightarrow> cmp a c \<le> 0"
begin

lemma cmp_total: "cmp a b \<le> 0 \<or> cmp b a \<le> 0"
  using cmp_swap [of a b] by linarith

lemma cmp_antisym: "cmp a b \<le> 0 \<Longrightarrow> cmp b a \<le> 0 \<Longrightarrow> a = b"
  using cmp_swap [of a b] cmp_zero by fastforce

lemma cmp_refl: "cmp a a \<le> 0"
  using cmp_zero [of a a] by simp

lemma cmp_less_trans: "cmp a b < 0 \<Longrightarrow> cmp b c \<le> 0 \<Longrightarrow> cmp a c < 0"
  using cmp_le_trans [of a b c] cmp_zero [of a c] cmp_swap [of a b] by fastforce

end

lemma bytes_compare_range: "bytes_compare a b = - 1 \<or> bytes_compare a b = 0 \<or> bytes_compare a b = 1"
  by (induction a b rule: bytes_compare.induct) auto

lemma bytes_compare_zero: "bytes_compare a b = 0 \<longleftrightarrow> a = b"
  by (induction a b rule: bytes_compare.induct) auto

lemma bytes_compare_swap: "bytes_compare b a = - bytes_compare a b"
  by (induction a b rule: bytes_compare.induct) auto

lemma bytes_compare_trans: "bytes_compare a b \<le> 0 \<Longrightarrow> bytes_compare b c \<le> 0 \<Longrightarrow> bytes_compare a c \<le> 0"
proof (induction a b arbitrary: c rule: bytes_compare.induct)
  case 1
  then show ?case by simp
next
  case (2 b bs)
  then show ?case by (cases c) auto
next
  case (3 a as)
  then show ?case by simp
next
  case (4 a as b bs)
  then show ?case by (cases c) (auto split: if_splits)
qed

interpretation byte_cmp: three_way bytes_compare
  by unfold_locales
    (rule bytes_compare_range bytes_compare_zero bytes_compare_swap bytes_compare_trans; assumption?)+

text \<open>The comparison of two addresses of this package.\<close>

definition addr_cmp :: "address \<Rightarrow> address \<Rightarrow> int" where
  "addr_cmp a b = bytes_compare (addr_bytes a) (addr_bytes b)"

lemma Address_Cmp_addr_cmp: "Address_Cmp a (WalletAddr b) = Ok (addr_cmp a b)"
  by (simp add: addr_cmp_def)

lemma addr_bytes_inject [simp]: "addr_bytes a = addr_bytes b \<longleftrightarrow> a = b"
  by (cases a; cases b) simp

interpretation addr_order: three_way addr_cmp
proof
  fix a b c :: address
  show "addr_cmp a b = - 1 \<or> addr_cmp a b = 0 \<or> addr_cmp a b = 1"
    unfolding addr_cmp_def by (rule bytes_compare_range)
  show "addr_cmp a b = 0 \<longleftrightarrow> a = b"
    by (simp add: addr_cmp_def bytes_compare_zero)
  show "addr_cmp b a = - addr_cmp a b"
    unfolding addr_cmp_def by (rule bytes_compare_swap)
  show "addr_cmp a b \<le> 0 \<Longrightarrow> addr_cmp b c \<le> 0 \<Longrightarrow> addr_cmp a c \<le> 0"
    unfolding addr_cmp_def by (rule bytes_compare_trans)
qed

instantiation address :: linorder
begin

definition less_eq_address :: "address \<Rightarrow> address \<Rightarrow> bool" where
  "less_eq_address a b \<longleftrightarrow> addr_cmp a b \<le> 0"

definition less_address :: "address \<Rightarrow> address \<Rightarrow> bool" where
  "less_address a b \<longleftrightarrow> addr_cmp a b < 0"

instance
proof
  fix a b c :: address
  show "a < b \<longleftrightarrow> a \<le> b \<and> \<not> b \<le> a"
    using addr_order.cmp_swap [of a b] by (auto simp: less_eq_address_def less_address_def)
  show "a \<le> a" by (simp add: less_eq_address_def addr_order.cmp_refl)
  show "a \<le> b \<Longrightarrow> b \<le> c \<Longrightarrow> a \<le> c"
    unfolding less_eq_address_def by (rule addr_order.cmp_le_trans)
  show "a \<le> b \<Longrightarrow> b \<le> a \<Longrightarrow> a = b"
    unfolding less_eq_address_def by (rule addr_order.cmp_antisym)
  show "a \<le> b \<or> b \<le> a"
    unfolding less_eq_address_def by (rule addr_order.cmp_total)
qed

end

section \<open>Wire addresses\<close>

text \<open>
  \<open>wire.Address\<close> embeds a pointer to a wallet address, which is nil in a fresh one
  (\<open>NewAddress\<close>); comparing through a nil pointer panics, and so does another implementation.
\<close>

datatype waddr = WireAddr "address option" | OtherWire

definition wire_NewAddress :: "address option" where
  "wire_NewAddress = None"

definition wire_Equal :: "address option \<Rightarrow> waddr \<Rightarrow> bool res" where
  "wire_Equal a b =
     (case b of OtherWire \<Rightarrow> Panic ''wrong type''
      | WireAddr q \<Rightarrow> (case (a, q) of
          (Some x, Some y) \<Rightarrow> Ok (Address_Equal x (WalletAddr y))
        | _ \<Rightarrow> Panic ''nil pointer dereference''))"

definition wire_Cmp :: "address option \<Rightarrow> waddr \<Rightarrow> int res" where
  "wire_Cmp a b =
     (case b of OtherWire \<Rightarrow> Panic ''wrong type''
      | WireAddr q \<Rightarrow> (case (a, q) of
          (Some x, Some y) \<Rightarrow> Address_Cmp x (WalletAddr y)
        | _ \<Rightarrow> Panic ''nil pointer dereference''))"

section \<open>Accounts and the wallet backend\<close>

text \<open>The operations of the curve library the code calls, as they are documented there.\<close>

record ed25519 =
  ed_public :: "bytes \<Rightarrow> bytes"
  ed_sign :: "bytes \<Rightarrow> bytes \<Rightarrow> bytes res"
  ed_verify :: "bytes \<Rightarrow> bytes \<Rightarrow> bytes \<Rightarrow> bool res"
  ed_generate :: "bytes \<Rightarrow> bytes res"

definition Account_Address :: "ed25519 \<Rightarrow> bytes \<Rightarrow> paddr" where
  "Account_Address ed acc = WalletAddr (Address (ed_public ed acc))"

definition Account_L2Address :: "ed25519 \<Rightarrow> bytes \<Rightarrow> address" where
  "Account_L2Address ed acc = Address (ed_public ed acc)"

definition Account_SignData :: "ed25519 \<Rightarrow> bytes \<Rightarrow> bytes \<Rightarrow> bytes res" where
  "Account_SignData ed acc data = ed_sign ed acc data"

definition Backend_NewAddress :: address where
  "Backend_NewAddress = Address []"

text \<open>\<open>io.ReadFull\<close> of \<open>n\<close> bytes from what a reader still holds.\<close>

definition read_full :: "nat \<Rightarrow> bytes \<Rightarrow> (bytes \<times> bytes) res" where
  "read_full n r =
     (if n \<le> length r then Ok (take n r, drop n r)
      else if r = [] then Err (ErrExt ''EOF'') else Err (ErrExt ''unexpected EOF''))"

definition DecodeSig :: "bytes \<Rightarrow> (bytes \<times> bytes) res" where
  "DecodeSig r = read_full SignatureSize r"

text \<open>
  \<open>VerifySignature\<close> recovers from every panic in its body (the type assertion, the library's
  check of the key length) and turns it into an error; \<open>ok\<close> is then still false.
\<close>

definition VerifySignature :: "ed25519 \<Rightarrow> bytes \<Rightarrow> bytes \<Rightarrow> paddr \<Rightarrow> bool res" where
  "VerifySignature ed msg sig a =
     (case res_bind (AsAddr a) (\<lambda>pk. ed_verify ed (addr_bytes pk) msg sig) of
        Panic m \<Rightarrow> Err (ErrNew m)
      | r \<Rightarrow> r)"

section \<open>Facts\<close>

lemma unmarshal_marshal:
  "length (addr_bytes a) = PublicKeySize \<Longrightarrow>
     res_bind (Address_MarshalBinary a) Address_UnmarshalBinary = Ok a"
  by (cases a) (simp add: Address_MarshalBinary_def Address_UnmarshalBinary_def)

lemma unmarshal_Ok_iff:
  "Address_UnmarshalBinary data = Ok a \<longleftrightarrow> length data = PublicKeySize \<and> a = Address data"
  by (auto simp: Address_UnmarshalBinary_def)

text \<open>The alphabet has 64 different characters, so a character gives its index back.\<close>

definition enc_index :: "char \<Rightarrow> nat" where
  "enc_index c = length (takeWhile (\<lambda>d. d \<noteq> c) addrEncoding)"

lemma enc_index_check: "list_all (\<lambda>n. enc_index (enc_char n) = n) [0..<64]"
  by code_simp

lemma enc_index_char [simp]: "n < 64 \<Longrightarrow> enc_index (enc_char n) = n"
  using enc_index_check unfolding list_all_iff by simp

lemma enc_char_inject [simp]: "m < 64 \<Longrightarrow> n < 64 \<Longrightarrow> enc_char m = enc_char n \<longleftrightarrow> m = n"
  by (metis enc_index_char)

lemma length_EncodeToString: "length (EncodeToString bs) = (4 * length bs + 2) div 3"
proof (induction bs rule: EncodeToString.induct)
  case (1 a b c r)
  then show ?case by (simp add: Let_def)
qed (simp_all add: Let_def)

lemma sextets3:
  fixes v w :: nat
  assumes "v div 262144 mod 64 = w div 262144 mod 64" and "v div 4096 mod 64 = w div 4096 mod 64"
    and "v div 64 mod 64 = w div 64 mod 64" and "v mod 64 = w mod 64"
    and "v < 16777216" and "w < 16777216"
  shows "v = w"
proof -
  have "x = 262144 * (x div 262144 mod 64) + 4096 * (x div 4096 mod 64) + 64 * (x div 64 mod 64)
      + x mod 64" if "x < 16777216" for x :: nat
  proof -
    have "x div 262144 < 64" using that by (simp add: div_less_iff_less_mult)
    then have "x div 262144 mod 64 = x div 262144" by simp
    moreover have "x div 4096 = 64 * (x div 262144) + x div 4096 mod 64"
      using div_mult_mod_eq [of "x div 4096" 64] by (simp add: div_mult2_eq [symmetric] mult.commute)
    moreover have "x div 64 = 64 * (x div 4096) + x div 64 mod 64"
      using div_mult_mod_eq [of "x div 64" 64] by (simp add: div_mult2_eq [symmetric] mult.commute)
    moreover have "x = 64 * (x div 64) + x mod 64" by simp
    ultimately show ?thesis by linarith
  qed
  from this [OF assms(5)] this [OF assms(6)] show ?thesis using assms(1-4) by simp
qed

lemma bytes3_inject:
  fixes a b c d e f :: byte
  assumes "unat a * 65536 + unat b * 256 + unat c = unat d * 65536 + unat e * 256 + unat f"
  shows "a = d \<and> b = e \<and> c = f"
  using le_dec_inject [of "[c, b, a]" "[f, e, d]"] assms by simp

text \<open>The text form determines the bytes.\<close>

lemma sextet_bound: "unat (a :: byte) * 65536 + unat (b :: byte) * 256 + unat (c :: byte) < 16777216"
  using unat_byte_less [of a] unat_byte_less [of b] unat_byte_less [of c] by linarith

lemma EncodeToString_inject: "EncodeToString as = EncodeToString bs \<Longrightarrow> as = bs"
proof (induction as arbitrary: bs rule: EncodeToString.induct)
  case (1 a b c r)
  have "length bs \<ge> 3"
    using arg_cong [OF "1.prems", of length] unfolding length_EncodeToString by simp
  then obtain a' b' c' r' where bs: "bs = a' # b' # c' # r'"
    by (auto simp: numeral_3_eq_3 Suc_le_length_iff)
  have "unat a * 65536 + unat b * 256 + unat c = unat a' * 65536 + unat b' * 256 + unat c'"
    by (rule sextets3) (use "1.prems" sextet_bound [of a b c] sextet_bound [of a' b' c'] in \<open>simp_all add: bs Let_def\<close>)
  moreover have "EncodeToString r = EncodeToString r'"
    using "1.prems" unfolding bs by (simp add: Let_def)
  ultimately show ?case using bytes3_inject "1.IH" bs by blast
next
  case (2 a b)
  have "length bs = 2"
    using arg_cong [OF "2.prems", of length] unfolding length_EncodeToString by simp
  then obtain a' b' where bs: "bs = [a', b']"
    by (auto simp: numeral_2_eq_2 length_Suc_conv)
  have "unat a * 65536 + unat b * 256 + unat (0 :: byte)
      = unat a' * 65536 + unat b' * 256 + unat (0 :: byte)"
    by (rule sextets3) (use "2.prems" sextet_bound [of a b 0] sextet_bound [of a' b' 0] in \<open>simp_all add: bs Let_def\<close>)
  then show ?case using bytes3_inject bs by blast
next
  case (3 a)
  have "length bs = 1"
    using arg_cong [OF "3.prems", of length] unfolding length_EncodeToString by simp
  then obtain a' where bs: "bs = [a']"
    by (auto simp: length_Suc_conv)
  have "unat a * 65536 + unat (0 :: byte) * 256 + unat (0 :: byte)
      = unat a' * 65536 + unat (0 :: byte) * 256 + unat (0 :: byte)"
    by (rule sextets3) (use "3.prems" sextet_bound [of a 0 0] sextet_bound [of a' 0 0] in \<open>simp_all add: bs Let_def\<close>)
  then show ?case using bytes3_inject bs by blast
next
  case 4
  then show ?case by (cases bs rule: EncodeToString.cases) (auto simp: Let_def)
qed

section \<open>Properties\<close>

text \<open>
  Property (address_roundtrip): unmarshalling accepts exactly the byte strings that have the
  length of a public key, and then marshalling gives the same bytes back; any other length is an
  error.
\<close>

theorem address_roundtrip:
  "Address_UnmarshalBinary data =
     (if length data = 32 then Ok (Address data) else Err (ErrNew (''invalid PK length: '' @ dec (length data) @ ''/'' @ dec PublicKeySize))) \<and>
   MarshalBinary (WalletAddr (Address data)) = Ok data"
  by (simp add: Address_UnmarshalBinary_def Address_MarshalBinary_def PublicKeySize_def)

text \<open>
  Property (address_string_injective): the text form of an address determines it; two addresses
  print the same only if they are equal, and a 32-byte key prints as 43 characters.
\<close>

theorem address_string_injective:
  "(Address_String a = Address_String b) = (a = b) \<and>
   length (Address_String a) = (4 * length (addr_bytes a) + 2) div 3"
  using EncodeToString_inject [of "addr_bytes a" "addr_bytes b"]
  by (auto simp: Address_String_def length_EncodeToString)

text \<open>
  Property (cmp_is_order): \<open>Cmp\<close> of wallet addresses is a total order that agrees with
  \<open>Equal\<close>, and the wire wrapper's \<open>Cmp\<close> and \<open>Equal\<close> are those of the wrapped addresses.
\<close>

theorem cmp_is_order:
  "\<exists>cmp. (\<forall>x y. Address_Cmp x (WalletAddr y) = Ok (cmp x y) \<and>
            wire_Cmp (Some x) (WireAddr (Some y)) = Ok (cmp x y) \<and>
            Address_Equal x (WalletAddr y) = (cmp x y = 0) \<and>
            wire_Equal (Some x) (WireAddr (Some y)) = Ok (cmp x y = 0)) \<and>
     three_way cmp"
proof (intro exI conjI allI)
  show "three_way addr_cmp" by (rule addr_order.three_way_axioms)
qed (simp_all add: addr_cmp_def wire_Cmp_def wire_Equal_def bytes_compare_zero)

text \<open>
  Property (verify_never_panics): whatever address implementation it is given and however the
  curve library behaves, \<open>VerifySignature\<close> does not panic: a foreign address or a panic of the
  library comes back as an error.
\<close>

theorem verify_never_panics:
  "\<not> is_panic (VerifySignature ed msg sig a) \<and>
   VerifySignature ed msg sig (OtherAddr r) = Err (ErrNew ''interface conversion'')"
  by (auto simp: VerifySignature_def split: res.splits)

end
