(* ===== verification/FsWallet.thy ===== *)
theory FsWallet
  imports WalletAddress
begin

text \<open>
  The key store of \<open>wallet/wallet.go\<close>. Private keys are Go slices: the wallet and the callers it
  handed an account to share one array, and \<open>clear\<close> overwrites that array. So an account is a
  location in a heap of arrays. Files are a map from paths to contents. Go ranges over a map in
  an unspecified order, and a write may fail: both are in the environment \<open>wenv\<close>, an argument of
  the operations that depend on them. The operations take the wallet's mutex for their whole
  body, so each is one atomic step.
\<close>

section \<open>State\<close>

record openAcc =
  nonce :: u64
  useCount :: u32
  acc :: "nat option"

record wallet =
  wfile :: string
  seed :: bytes
  latestAcc :: u64
  openAccs :: "bytes \<rightharpoonup> openAcc"
  heap :: "nat \<rightharpoonup> bytes"
  next_loc :: nat
  disk :: "string \<rightharpoonup> bytes"

text \<open>
  \<open>map_order\<close> gives the order in which \<open>range\<close> visits the keys; \<open>write_res\<close> the error of a
  failed write, with what it left in the file.
\<close>

record wenv =
  map_order :: "(bytes \<rightharpoonup> openAcc) \<Rightarrow> bytes list"
  write_res :: "string \<Rightarrow> bytes \<Rightarrow> (err \<times> bytes) option"

definition valid_order :: "wenv \<Rightarrow> (bytes \<rightharpoonup> openAcc) \<Rightarrow> bool" where
  "valid_order env m \<longleftrightarrow> distinct (map_order env m) \<and> set (map_order env m) = dom m"

section \<open>Creating, saving and loading\<close>

definition new_wallet :: "string \<Rightarrow> bytes \<Rightarrow> (string \<rightharpoonup> bytes) \<Rightarrow> wallet" where
  "new_wallet path sd dsk = \<lparr>wfile = path, seed = sd, latestAcc = 0, openAccs = Map.empty,
     heap = Map.empty, next_loc = 0, disk = dsk\<rparr>"

text \<open>A failed read of the seed panics in \<open>NewRAMWallet\<close>.\<close>

definition NewRAMWallet :: "bytes \<Rightarrow> (string \<rightharpoonup> bytes) \<Rightarrow> wallet res" where
  "NewRAMWallet gen dsk =
     (case read_full 24 gen of
        Ok (sd, _) \<Rightarrow> Ok (new_wallet '''' sd dsk)
      | Err e \<Rightarrow> Panic ''error reading random seed''
      | Panic m \<Rightarrow> Panic m
      | Hang \<Rightarrow> Hang)"

definition entry_bytes :: "bytes \<times> u64 \<times> u32 \<Rightarrow> bytes" where
  "entry_bytes e = (case e of (pk, n, c) \<Rightarrow> pk @ put_u64 n @ put_u32 c)"

definition wallet_bytes :: "wenv \<Rightarrow> wallet \<Rightarrow> bytes" where
  "wallet_bytes env w =
     (let ks = map_order env (openAccs w)
      in seed w @ put_u64 (latestAcc w) @ put_u32 (of_nat (length ks)) @
         concat (map (\<lambda>k. case openAccs w k of None \<Rightarrow> []
                        | Some e \<Rightarrow> entry_bytes (k, nonce e, useCount e)) ks))"

definition save :: "wenv \<Rightarrow> wallet \<Rightarrow> unit res \<times> wallet" where
  "save env w =
     (if wfile w = '''' then (Ok (), w)
      else let content = wallet_bytes env w
           in case write_res env (wfile w) content of
                None \<Rightarrow> (Ok (), w\<lparr>disk := (disk w)(wfile w \<mapsto> content)\<rparr>)
              | Some (e, left) \<Rightarrow> (Err e, w\<lparr>disk := (disk w)(wfile w \<mapsto> left)\<rparr>))"

text \<open>Loading: every read can fail; a loaded account has no key in memory yet.\<close>

fun load_entries :: "nat \<Rightarrow> bytes \<Rightarrow> (bytes \<rightharpoonup> openAcc) \<Rightarrow> (bytes \<rightharpoonup> openAcc) res" where
  "load_entries 0 r m = Ok m"
| "load_entries (Suc n) r m =
     res_bind (read_full PublicKeySize r) (\<lambda>(pk, r1).
     res_bind (read_full 8 r1) (\<lambda>(nb, r2).
     res_bind (read_full 4 r2) (\<lambda>(cb, r3).
       load_entries n r3 (m(pk \<mapsto> \<lparr>nonce = get_u64 nb, useCount = get_u32 cb, acc = None\<rparr>)))))"

definition load :: "bytes \<Rightarrow> wallet \<Rightarrow> wallet res" where
  "load r w =
     res_bind (read_full 24 r) (\<lambda>(sd, r1).
     res_bind (read_full 8 r1) (\<lambda>(lb, r2).
     res_bind (read_full 4 r2) (\<lambda>(cb, r3).
     res_bind (load_entries (unat (get_u32 cb)) r3 Map.empty) (\<lambda>m.
       Ok (w\<lparr>seed := sd, latestAcc := get_u64 lb, openAccs := m\<rparr>)))))"

definition CreateOrLoadFsWallet :: "wenv \<Rightarrow> string \<Rightarrow> bytes \<Rightarrow> (string \<rightharpoonup> bytes) \<Rightarrow> wallet res" where
  "CreateOrLoadFsWallet env path gen dsk =
     (case dsk path of
        Some content \<Rightarrow> load content (new_wallet path [] dsk)
      | None \<Rightarrow> res_bind (read_full 24 gen) (\<lambda>(sd, _).
          (case save env (new_wallet path sd dsk) of
             (Ok _, w) \<Rightarrow> Ok w | (Err e, w) \<Rightarrow> Err e | (Panic m, w) \<Rightarrow> Panic m | (Hang, w) \<Rightarrow> Hang)))"

section \<open>Accounts\<close>

text \<open>The key of a nonce: generated from the wallet's seed and the nonce's eight bytes.\<close>

definition genAcc :: "ed25519 \<Rightarrow> wallet \<Rightarrow> u64 \<Rightarrow> bytes res" where
  "genAcc ed w i =
     (case ed_generate ed (seed w @ put_u64 i) of
        Ok sk \<Rightarrow> Ok sk
      | Err e \<Rightarrow> Panic ''logic error: generating key should not have failed''
      | Panic m \<Rightarrow> Panic m
      | Hang \<Rightarrow> Hang)"

definition alloc_key :: "bytes \<Rightarrow> wallet \<Rightarrow> nat \<times> wallet" where
  "alloc_key sk w =
     (next_loc w, w\<lparr>heap := (heap w)(next_loc w \<mapsto> sk), next_loc := Suc (next_loc w)\<rparr>)"

definition NewAccount :: "ed25519 \<Rightarrow> wallet \<Rightarrow> nat res \<times> wallet" where
  "NewAccount ed w =
     (case genAcc ed w (latestAcc w) of
        Ok sk \<Rightarrow>
          (let (l, w1) = alloc_key sk w;
               k = addr_bytes (Account_L2Address ed sk)
           in (Ok l, w1\<lparr>openAccs := (openAccs w1)(k \<mapsto> \<lparr>nonce = latestAcc w, useCount = 0, acc = Some l\<rparr>),
                        latestAcc := latestAcc w + 1\<rparr>))
      | Err e \<Rightarrow> (Err e, w) | Panic m \<Rightarrow> (Panic m, w) | Hang \<Rightarrow> (Hang, w))"

text \<open>\<open>NewRandomAccount\<close> ignores its random source and has the same body.\<close>

definition NewRandomAccount :: "ed25519 \<Rightarrow> 'rng \<Rightarrow> wallet \<Rightarrow> nat res \<times> wallet" where
  "NewRandomAccount ed rng w =
     (case genAcc ed w (latestAcc w) of
        Ok sk \<Rightarrow>
          (let (l, w1) = alloc_key sk w;
               k = addr_bytes (Account_L2Address ed sk)
           in (Ok l, w1\<lparr>openAccs := (openAccs w1)(k \<mapsto> \<lparr>nonce = latestAcc w, useCount = 0, acc = Some l\<rparr>),
                        latestAcc := latestAcc w + 1\<rparr>))
      | Err e \<Rightarrow> (Err e, w) | Panic m \<Rightarrow> (Panic m, w) | Hang \<Rightarrow> (Hang, w))"

definition Unlock :: "ed25519 \<Rightarrow> paddr \<Rightarrow> wallet \<Rightarrow> nat res \<times> wallet" where
  "Unlock ed a w =
     (case AsAddr a of
        Ok addr \<Rightarrow>
          (case openAccs w (addr_bytes addr) of
             None \<Rightarrow> (Err (ErrNew ''no such account''), w)
           | Some e \<Rightarrow>
               (case acc e of
                  Some l \<Rightarrow> (Ok l, w)
                | None \<Rightarrow>
                    (case genAcc ed w (nonce e) of
                       Ok sk \<Rightarrow>
                         (let (l, w1) = alloc_key sk w
                          in (Ok l, w1\<lparr>openAccs := (openAccs w1)(addr_bytes addr \<mapsto> e\<lparr>acc := Some l\<rparr>)\<rparr>))
                     | Err x \<Rightarrow> (Err x, w) | Panic m \<Rightarrow> (Panic m, w) | Hang \<Rightarrow> (Hang, w))))
      | Err x \<Rightarrow> (Err x, w) | Panic m \<Rightarrow> (Panic m, w) | Hang \<Rightarrow> (Hang, w))"

text \<open>\<open>clear\<close> zeroes the shared array; on a nil account it does nothing.\<close>

definition clear_acc :: "nat option \<Rightarrow> (nat \<rightharpoonup> bytes) \<Rightarrow> (nat \<rightharpoonup> bytes)" where
  "clear_acc a h =
     (case a of None \<Rightarrow> h
      | Some l \<Rightarrow> h(l := map_option (\<lambda>bs. replicate (length bs) 0) (h l)))"

definition lock_key :: "bytes \<Rightarrow> wallet \<Rightarrow> wallet" where
  "lock_key k w =
     (case openAccs w k of None \<Rightarrow> w
      | Some e \<Rightarrow> w\<lparr>heap := clear_acc (acc e) (heap w), openAccs := (openAccs w)(k \<mapsto> e\<lparr>acc := None\<rparr>)\<rparr>)"

definition LockAll :: "wenv \<Rightarrow> wallet \<Rightarrow> wallet" where
  "LockAll env w = fold lock_key (map_order env (openAccs w)) w"

definition IncrementUsage :: "wenv \<Rightarrow> paddr \<Rightarrow> wallet \<Rightarrow> unit res \<times> wallet" where
  "IncrementUsage env a w =
     (case AsAddr a of
        Ok addr \<Rightarrow>
          (case openAccs w (addr_bytes addr) of
             None \<Rightarrow> (Panic ''IncrementUsage: account not found'', w)
           | Some e \<Rightarrow>
               (case save env (w\<lparr>openAccs := (openAccs w)(addr_bytes addr \<mapsto> e\<lparr>useCount := useCount e + 1\<rparr>)\<rparr>) of
                  (Err x, w') \<Rightarrow> (Panic ''Error in IncrementUsage during save'', w')
                | (r, w') \<Rightarrow> (r, w')))
      | Err x \<Rightarrow> (Err x, w) | Panic m \<Rightarrow> (Panic m, w) | Hang \<Rightarrow> (Hang, w))"

definition DecrementUsage :: "wenv \<Rightarrow> paddr \<Rightarrow> wallet \<Rightarrow> unit res \<times> wallet" where
  "DecrementUsage env a w =
     (case AsAddr a of
        Ok addr \<Rightarrow>
          (case openAccs w (addr_bytes addr) of
             None \<Rightarrow> (Panic ''IncrementUsage: account not found!'', w)
           | Some e \<Rightarrow>
               (if useCount e = 0 then (Panic ''DecrementUsage: unused account!'', w)
                else
                  let e' = e\<lparr>useCount := useCount e - 1\<rparr>;
                      w1 = (if useCount e' = 0
                            then w\<lparr>heap := clear_acc (acc e') (heap w),
                                   openAccs := (openAccs w)(addr_bytes addr := None)\<rparr>
                            else w\<lparr>openAccs := (openAccs w)(addr_bytes addr \<mapsto> e')\<rparr>)
                  in case save env w1 of
                       (Err x, w') \<Rightarrow> (Panic ''Error in DecrementUsage during save'', w')
                     | (r, w') \<Rightarrow> (r, w')))
      | Err x \<Rightarrow> (Err x, w) | Panic m \<Rightarrow> (Panic m, w) | Hang \<Rightarrow> (Hang, w))"


section \<open>Saving and loading are inverse\<close>

definition dec_entry :: "bytes \<Rightarrow> ((bytes \<times> u64 \<times> u32) \<times> bytes) option" where
  "dec_entry r =
     (if length r < 44 then None
      else Some ((take 32 r, get_u64 (drop 32 r), get_u32 (drop 40 r)), drop 44 r))"

definition entry_ok :: "bytes \<times> u64 \<times> u32 \<Rightarrow> bool" where
  "entry_ok e \<longleftrightarrow> length (fst e) = PublicKeySize"

text \<open>A stored account is a prefix codec: what is behind it in the file does not matter.\<close>

interpretation entry_codec: prefix_codec entry_bytes dec_entry entry_ok
proof
  fix e :: "bytes \<times> u64 \<times> u32" and rest
  assume ok: "entry_ok e"
  obtain pk n c where e: "e = (pk, n, c)" by (cases e) auto
  from ok have pk: "length pk = 32" by (simp add: e entry_ok_def PublicKeySize_def)
  have d: "drop 40 (pk @ put_u64 n @ put_u32 c @ rest) = put_u32 c @ rest"
    using drop_append [of 40 pk] pk by simp
  show "dec_entry (entry_bytes e @ rest) = Some (e, rest)"
    using pk d by (simp add: dec_entry_def e entry_bytes_def)
qed

definition loaded :: "u64 \<Rightarrow> u32 \<Rightarrow> openAcc" where
  "loaded n c = \<lparr>nonce = n, useCount = c, acc = None\<rparr>"

definition add_entries :: "(bytes \<times> u64 \<times> u32) list \<Rightarrow> (bytes \<rightharpoonup> openAcc) \<Rightarrow> (bytes \<rightharpoonup> openAcc)" where
  "add_entries xs m = fold (\<lambda>(pk, n, c) m. m(pk \<mapsto> loaded n c)) xs m"

lemma read_full_Ok [simp]: "n \<le> length r \<Longrightarrow> read_full n r = Ok (take n r, drop n r)"
  by (simp add: read_full_def)

lemma read_full_append [simp]: "length a = n \<Longrightarrow> read_full n (a @ b) = Ok (a, b)"
  by (simp add: read_full_def)

lemma get_u64_take [simp]: "get_u64 (take 8 r) = get_u64 r"
  by (simp add: get_u64_def)

lemma get_u32_take [simp]: "get_u32 (take 4 r) = get_u32 r"
  by (simp add: get_u32_def)

lemma load_entries_dec:
  "entry_codec.dec_many n r = Some (xs, rest) \<Longrightarrow> load_entries n r m = Ok (add_entries xs m)"
proof (induction n arbitrary: r m xs)
  case 0
  then show ?case by (simp add: add_entries_def)
next
  case (Suc n)
  from Suc.prems obtain e r' ys where e: "dec_entry r = Some (e, r')"
    and ys: "entry_codec.dec_many n r' = Some (ys, rest)" and xs: "xs = e # ys"
    by (auto split: option.splits)
  from e have len: "44 \<le> length r" and r': "r' = drop 44 r"
    and e': "e = (take 32 r, get_u64 (drop 32 r), get_u32 (drop 40 r))"
    by (auto simp: dec_entry_def split: if_splits)
  have "load_entries (Suc n) r m = load_entries n r' (m(take 32 r \<mapsto> loaded (get_u64 (drop 32 r)) (get_u32 (drop 40 r))))"
    using len by (simp add: r' PublicKeySize_def loaded_def)
  also have "\<dots> = Ok (add_entries xs m)"
    using Suc.IH [OF ys] by (simp add: xs e' add_entries_def)
  finally show ?case .
qed

text \<open>What a load leaves of the accounts: nonces and counts, no key in memory.\<close>

definition locked :: "(bytes \<rightharpoonup> openAcc) \<Rightarrow> (bytes \<rightharpoonup> openAcc)" where
  "locked m = (\<lambda>k. map_option (\<lambda>e. loaded (nonce e) (useCount e)) (m k))"

definition entries_of :: "(bytes \<rightharpoonup> openAcc) \<Rightarrow> bytes list \<Rightarrow> (bytes \<times> u64 \<times> u32) list" where
  "entries_of m ks = map (\<lambda>k. (k, nonce (the (m k)), useCount (the (m k)))) ks"

lemma add_entries_of:
  "set ks \<subseteq> dom m \<Longrightarrow> add_entries (entries_of m ks) m0 k = (if k \<in> set ks then locked m k else m0 k)"
proof (induction ks arbitrary: m0)
  case Nil
  then show ?case by (simp add: add_entries_def entries_of_def)
next
  case (Cons a ks)
  from Cons.prems obtain e where e: "m a = Some e" by auto
  have "add_entries (entries_of m (a # ks)) m0 k
      = add_entries (entries_of m ks) (m0(a \<mapsto> loaded (nonce e) (useCount e))) k"
    by (simp add: add_entries_def entries_of_def e)
  also have "\<dots> = (if k \<in> set ks then locked m k else (m0(a \<mapsto> loaded (nonce e) (useCount e))) k)"
    using Cons.prems by (intro Cons.IH) simp
  finally show ?case by (auto simp: locked_def e)
qed

lemma saved_entries:
  "set ks \<subseteq> dom m \<Longrightarrow>
     concat (map (\<lambda>k. case m k of None \<Rightarrow> [] | Some e \<Rightarrow> entry_bytes (k, nonce e, useCount e)) ks)
       = concat (map entry_bytes (entries_of m ks))"
  by (induction ks) (auto simp: entries_of_def split: option.splits)

definition storable :: "wenv \<Rightarrow> wallet \<Rightarrow> bool" where
  "storable env w \<longleftrightarrow> length (seed w) = 24 \<and> valid_order env (openAccs w) \<and>
     (\<forall>k\<in>dom (openAccs w). length k = PublicKeySize) \<and> length (map_order env (openAccs w)) < 4294967296"

lemma load_wallet_bytes:
  assumes "storable env w"
  shows "load (wallet_bytes env w) v =
    Ok (v\<lparr>seed := seed w, latestAcc := latestAcc w, openAccs := locked (openAccs w)\<rparr>)"
proof -
  let ?ks = "map_order env (openAccs w)" and ?m = "openAccs w"
  from assms have sd: "length (seed w) = 24" and ks: "set ?ks = dom ?m"
    and kl: "\<forall>k\<in>dom ?m. length k = PublicKeySize" and n: "length ?ks < 4294967296"
    by (auto simp: storable_def valid_order_def)
  have "unat (of_nat (length ?ks) :: u32) = length (entries_of ?m ?ks)"
    using n by (simp add: unat_of_nat entries_of_def)
  moreover have "\<forall>e\<in>set (entries_of ?m ?ks). entry_ok e"
    using kl ks by (auto simp: entries_of_def entry_ok_def)
  then have "entry_codec.dec_many (length (entries_of ?m ?ks)) (concat (map entry_bytes (entries_of ?m ?ks)) @ [])
      = Some (entries_of ?m ?ks, [])"
    by (rule entry_codec.dec_many_enc)
  ultimately have ld: "load_entries (unat (of_nat (length ?ks) :: u32)) (concat (map entry_bytes (entries_of ?m ?ks))) Map.empty
      = Ok (add_entries (entries_of ?m ?ks) Map.empty)"
    using load_entries_dec by simp
  have "add_entries (entries_of ?m ?ks) Map.empty = locked ?m"
    using ks by (intro ext) (auto simp: add_entries_of locked_def)
  then show ?thesis
    using ld sd get_put_u64 [of "latestAcc w" "[]"] get_put_u32 [of "of_nat (length ?ks)" "[]"]
    unfolding load_def wallet_bytes_def Let_def saved_entries [OF eq_refl [OF ks]] by simp
qed


section \<open>The invariant\<close>

text \<open>
  Every open account belongs to a nonce already handed out, its address is the public key of the
  key generated from that nonce, its key in memory (if any) is that key, and no two accounts
  share an array.
\<close>

definition entry_inv :: "ed25519 \<Rightarrow> wallet \<Rightarrow> bytes \<Rightarrow> openAcc \<Rightarrow> bool" where
  "entry_inv ed w k e \<longleftrightarrow> nonce e < latestAcc w \<and>
     (\<exists>sk. ed_generate ed (seed w @ put_u64 (nonce e)) = Ok sk \<and> ed_public ed sk = k \<and>
        (\<forall>l. acc e = Some l \<longrightarrow> heap w l = Some sk))"

definition wallet_inv :: "ed25519 \<Rightarrow> wallet \<Rightarrow> bool" where
  "wallet_inv ed w \<longleftrightarrow> (\<forall>l. next_loc w \<le> l \<longrightarrow> heap w l = None) \<and>
     (\<forall>k e. openAccs w k = Some e \<longrightarrow> entry_inv ed w k e) \<and>
     (\<forall>k e k' e' l. openAccs w k = Some e \<longrightarrow> openAccs w k' = Some e' \<longrightarrow>
        acc e = Some l \<longrightarrow> acc e' = Some l \<longrightarrow> k = k')"

lemma wallet_invD:
  assumes "wallet_inv ed w"
  shows "next_loc w \<le> l \<Longrightarrow> heap w l = None"
    and "openAccs w k = Some e \<Longrightarrow> entry_inv ed w k e"
    and "openAccs w k = Some e \<Longrightarrow> openAccs w k' = Some e' \<Longrightarrow> acc e = Some l \<Longrightarrow> acc e' = Some l \<Longrightarrow> k = k'"
  using assms unfolding wallet_inv_def by blast+

lemma acc_below:
  "wallet_inv ed w \<Longrightarrow> openAccs w k = Some e \<Longrightarrow> acc e = Some l \<Longrightarrow> l < next_loc w"
  using wallet_invD(1) [of ed w l] wallet_invD(2) [of ed w k e]
  by (force simp: entry_inv_def not_less [symmetric])

lemma new_wallet_inv: "wallet_inv ed (new_wallet path sd dsk)"
  by (simp add: wallet_inv_def new_wallet_def)

text \<open>The invariant reads neither the path nor the disk.\<close>

lemma wallet_inv_disk [simp]: "wallet_inv ed (w\<lparr>disk := d\<rparr>) = wallet_inv ed w"
  by (simp add: wallet_inv_def entry_inv_def)

lemma save_cases:
  "save env w = (r, w') \<Longrightarrow> (r = Ok () \<or> (\<exists>e. r = Err e)) \<and> (\<exists>d. w' = w\<lparr>disk := d\<rparr>)"
  by (auto simp: save_def Let_def split: if_splits option.splits)
    (metis wallet.surjective wallet.update_convs(7))

lemma wallet_inv_put:
  assumes "wallet_inv ed w" and "nonce e < latestAcc w"
    and "ed_generate ed (seed w @ put_u64 (nonce e)) = Ok sk" and "ed_public ed sk = k"
  shows "wallet_inv ed (w\<lparr>heap := (heap w)(next_loc w \<mapsto> sk), next_loc := Suc (next_loc w),
    openAccs := (openAccs w)(k \<mapsto> e\<lparr>acc := Some (next_loc w)\<rparr>)\<rparr>)"
proof -
  have old: "l < next_loc w" if "openAccs w k' = Some e'" "acc e' = Some l" for k' e' l
    using acc_below [OF assms(1)] that by blast
  have "entry_inv ed w k' e'" if "openAccs w k' = Some e'" for k' e'
    using assms(1) that by (rule wallet_invD)
  then show ?thesis
    using assms old unfolding wallet_inv_def entry_inv_def
    by (auto split: if_splits) (use less_irrefl_nat in blast)+
qed


lemma wallet_inv_latest:
  "wallet_inv ed w \<Longrightarrow> latestAcc w \<le> n \<Longrightarrow> wallet_inv ed (w\<lparr>latestAcc := n\<rparr>)"
  unfolding wallet_inv_def entry_inv_def by (auto intro: less_le_trans)

lemma word_less_inc: "(x :: u64) \<noteq> - 1 \<Longrightarrow> x < x + 1"
  using inc_less_eq_self_iff_eq [of x] by (meson not_le)

lemma genAcc_Ok: "genAcc ed w n = Ok sk \<longleftrightarrow> ed_generate ed (seed w @ put_u64 n) = Ok sk"
  by (simp add: genAcc_def split: res.splits)

lemma NewAccount_inv:
  assumes "wallet_inv ed w" and "latestAcc w \<noteq> - 1"
  shows "wallet_inv ed (snd (NewAccount ed w))"
proof (cases "genAcc ed w (latestAcc w)")
  case (Ok sk)
  let ?e = "\<lparr>nonce = latestAcc w, useCount = 0, acc = None\<rparr>" and ?w = "w\<lparr>latestAcc := latestAcc w + 1\<rparr>"
  have less: "latestAcc w < latestAcc w + 1" using assms(2) by (rule word_less_inc)
  then have "wallet_inv ed ?w" using assms(1) by (intro wallet_inv_latest) auto
  then have "wallet_inv ed (?w\<lparr>heap := (heap ?w)(next_loc ?w \<mapsto> sk), next_loc := Suc (next_loc ?w),
      openAccs := (openAccs ?w)(ed_public ed sk \<mapsto> ?e\<lparr>acc := Some (next_loc ?w)\<rparr>)\<rparr>)"
    using less Ok by (intro wallet_inv_put) (auto simp: genAcc_Ok)
  then show ?thesis
    using Ok by (cases w) (simp add: NewAccount_def alloc_key_def Account_L2Address_def Let_def)
qed (simp_all add: NewAccount_def assms(1))

lemma Unlock_inv:
  assumes "wallet_inv ed w"
  shows "wallet_inv ed (snd (Unlock ed a w))"
proof (cases a)
  case (WalletAddr addr)
  show ?thesis
  proof (cases "openAccs w (addr_bytes addr)")
    case None
    with WalletAddr assms show ?thesis by (simp add: Unlock_def)
  next
    case (Some e)
    then have inv: "entry_inv ed w (addr_bytes addr) e" using assms by (rule wallet_invD(2) [rotated])
    show ?thesis
    proof (cases "acc e")
      case None
      from inv obtain sk where sk: "ed_generate ed (seed w @ put_u64 (nonce e)) = Ok sk"
        and pk: "ed_public ed sk = addr_bytes addr" and "nonce e < latestAcc w"
        by (auto simp: entry_inv_def)
      then have "wallet_inv ed (w\<lparr>heap := (heap w)(next_loc w \<mapsto> sk), next_loc := Suc (next_loc w),
        openAccs := (openAccs w)(addr_bytes addr \<mapsto> e\<lparr>acc := Some (next_loc w)\<rparr>)\<rparr>)"
        using assms by (intro wallet_inv_put)
      moreover have "genAcc ed w (nonce e) = Ok sk" using sk by (simp add: genAcc_Ok)
      ultimately show ?thesis
        using WalletAddr Some None by (simp add: Unlock_def alloc_key_def Let_def)
    next
      case (Some l)
      with WalletAddr \<open>openAccs w (addr_bytes addr) = Some e\<close> assms show ?thesis
        by (simp add: Unlock_def)
    qed
  qed
qed (simp add: Unlock_def assms)

text \<open>
  Clearing an account's array and dropping the account, or its key, keeps the invariant, because
  no other account uses that array.
\<close>

lemma clear_acc_other:
  "a \<noteq> Some j \<Longrightarrow> clear_acc a h j = h j"
  by (cases a) (auto simp: clear_acc_def)

lemma clear_acc_None: "h l = None \<Longrightarrow> clear_acc a h l = None"
  by (cases a) (auto simp: clear_acc_def)

lemma wallet_inv_clear:
  assumes "wallet_inv ed w" and "openAccs w k = Some e"
    and "new = None \<or> new = Some (e\<lparr>acc := None\<rparr>)"
  shows "wallet_inv ed (w\<lparr>heap := clear_acc (acc e) (heap w), openAccs := (openAccs w)(k := new)\<rparr>)"
proof -
  have keep: "clear_acc (acc e) (heap w) l = heap w l"
    if "openAccs w k' = Some e'" "acc e' = Some l" "k' \<noteq> k" for k' e' l
    using wallet_invD(3) [OF assms(1) assms(2) that(1)] that by (intro clear_acc_other) auto
  have ent: "entry_inv ed w k' e'" if "openAccs w k' = Some e'" for k' e'
    using assms(1) that by (rule wallet_invD)
  show ?thesis
    unfolding wallet_inv_def
  proof (intro conjI allI impI)
    fix l assume "next_loc (w\<lparr>heap := clear_acc (acc e) (heap w), openAccs := (openAccs w)(k := new)\<rparr>) \<le> l"
    then show "heap (w\<lparr>heap := clear_acc (acc e) (heap w), openAccs := (openAccs w)(k := new)\<rparr>) l = None"
      using wallet_invD(1) [OF assms(1)] by (simp add: clear_acc_None)
  next
    fix k' e'
    assume a: "openAccs (w\<lparr>heap := clear_acc (acc e) (heap w), openAccs := (openAccs w)(k := new)\<rparr>) k' = Some e'"
    show "entry_inv ed (w\<lparr>heap := clear_acc (acc e) (heap w), openAccs := (openAccs w)(k := new)\<rparr>) k' e'"
    proof (cases "k' = k")
      case True
      then have "e' = e\<lparr>acc := None\<rparr>" using a assms(3) by auto
      then show ?thesis using ent [OF assms(2)] True by (auto simp: entry_inv_def)
    next
      case False
      then have "openAccs w k' = Some e'" using a by simp
      then show ?thesis using ent keep False by (fastforce simp: entry_inv_def)
    qed
  next
    fix k1 e1 k2 e2 l
    assume "openAccs (w\<lparr>heap := clear_acc (acc e) (heap w), openAccs := (openAccs w)(k := new)\<rparr>) k1 = Some e1"
      "openAccs (w\<lparr>heap := clear_acc (acc e) (heap w), openAccs := (openAccs w)(k := new)\<rparr>) k2 = Some e2"
      "acc e1 = Some l" "acc e2 = Some l"
    then show "k1 = k2"
      using wallet_invD(3) [OF assms(1)] assms(3) by (auto split: if_splits)
  qed
qed

lemma lock_key_inv: "wallet_inv ed w \<Longrightarrow> wallet_inv ed (lock_key k w)"
  by (auto simp: lock_key_def intro: wallet_inv_clear split: option.splits)

lemma fold_lock_inv: "wallet_inv ed w \<Longrightarrow> wallet_inv ed (fold lock_key ks w)"
  by (induction ks arbitrary: w) (auto intro: lock_key_inv)

lemma LockAll_inv: "wallet_inv ed w \<Longrightarrow> wallet_inv ed (LockAll env w)"
  by (simp add: LockAll_def fold_lock_inv)

lemma wallet_inv_count:
  "wallet_inv ed w \<Longrightarrow> openAccs w k = Some e \<Longrightarrow>
     wallet_inv ed (w\<lparr>openAccs := (openAccs w)(k \<mapsto> e\<lparr>useCount := c\<rparr>)\<rparr>)"
  unfolding wallet_inv_def entry_inv_def by (auto split: if_splits)

lemma save_inv: "wallet_inv ed w \<Longrightarrow> wallet_inv ed (snd (save env w))"
  using save_cases [of env w "fst (save env w)" "snd (save env w)"] by auto

lemma snd_save_case:
  "snd (case save env w of (Err x, w') \<Rightarrow> (Panic m, w') | (r, w') \<Rightarrow> (r, w')) = snd (save env w)"
  by (auto split: prod.splits res.splits)

lemma IncrementUsage_inv: "wallet_inv ed w \<Longrightarrow> wallet_inv ed (snd (IncrementUsage env a w))"
  by (cases a)
    (auto simp: IncrementUsage_def snd_save_case split: option.splits intro: save_inv wallet_inv_count)

lemma DecrementUsage_inv: "wallet_inv ed w \<Longrightarrow> wallet_inv ed (snd (DecrementUsage env a w))"
  by (cases a)
    (auto simp: DecrementUsage_def snd_save_case Let_def split: option.splits
      intro!: save_inv intro: wallet_inv_count wallet_inv_clear)

section \<open>Unlocking and locking\<close>

text \<open>Unlocking an open account always succeeds and hands out its private key.\<close>

lemma Unlock_open:
  assumes "wallet_inv ed w" and "openAccs w k = Some e"
  shows "\<exists>l sk w'. Unlock ed (WalletAddr (Address k)) w = (Ok l, w') \<and> heap w' l = Some sk \<and>
    ed_generate ed (seed w @ put_u64 (nonce e)) = Ok sk \<and> ed_public ed sk = k"
proof -
  from assms have inv: "entry_inv ed w k e" by (rule wallet_invD)
  then obtain sk where sk: "ed_generate ed (seed w @ put_u64 (nonce e)) = Ok sk" "ed_public ed sk = k"
    and mem: "\<forall>l. acc e = Some l \<longrightarrow> heap w l = Some sk"
    by (auto simp: entry_inv_def)
  show ?thesis
  proof (cases "acc e")
    case None
    with sk assms(2) show ?thesis by (simp add: Unlock_def genAcc_def alloc_key_def Let_def)
  next
    case (Some l)
    with sk mem assms(2) show ?thesis by (simp add: Unlock_def)
  qed
qed

lemma Unlock_missing: "openAccs w k = None \<Longrightarrow>
    Unlock ed (WalletAddr (Address k)) w = (Err (ErrNew ''no such account''), w)"
  by (simp add: Unlock_def)

definition holds :: "wallet \<Rightarrow> bytes \<Rightarrow> nat \<Rightarrow> bool" where
  "holds w k l \<longleftrightarrow> (case openAccs w k of None \<Rightarrow> False | Some e \<Rightarrow> acc e = Some l)"

definition zeroed :: "bytes option \<Rightarrow> bytes option" where
  "zeroed = map_option (\<lambda>bs. replicate (length bs) 0)"

lemma zeroed_idem [simp]: "zeroed (zeroed b) = zeroed b"
  by (cases b) (simp_all add: zeroed_def)

lemma lock_key_openAccs:
  "openAccs (lock_key k w) k' =
     (if k' = k then map_option (\<lambda>e. e\<lparr>acc := None\<rparr>) (openAccs w k) else openAccs w k')"
  by (auto simp: lock_key_def split: option.splits)

lemma lock_key_heap:
  "heap (lock_key k w) l = (if holds w k l then zeroed (heap w l) else heap w l)"
  by (auto simp: lock_key_def holds_def clear_acc_def zeroed_def split: option.splits)

lemma lock_key_holds: "holds (lock_key k w) k' l \<longleftrightarrow> k' \<noteq> k \<and> holds w k' l"
  by (auto simp: holds_def lock_key_openAccs split: option.splits)

lemma fold_lock_openAccs:
  "openAccs (fold lock_key ks w) k =
     (if k \<in> set ks then map_option (\<lambda>e. e\<lparr>acc := None\<rparr>) (openAccs w k) else openAccs w k)"
proof (induction ks arbitrary: w)
  case Nil
  then show ?case by simp
next
  case (Cons a ks)
  then show ?case
    by (simp add: lock_key_openAccs option.map_comp o_def)
qed

lemma fold_lock_heap:
  "heap (fold lock_key ks w) l = (if \<exists>k\<in>set ks. holds w k l then zeroed (heap w l) else heap w l)"
  by (induction ks arbitrary: w) (auto simp: lock_key_heap lock_key_holds)

lemma LockAll_openAccs:
  "valid_order env (openAccs w) \<Longrightarrow>
     openAccs (LockAll env w) k = map_option (\<lambda>e. e\<lparr>acc := None\<rparr>) (openAccs w k)"
  by (auto simp: LockAll_def fold_lock_openAccs valid_order_def domIff)

lemma LockAll_heap:
  "valid_order env (openAccs w) \<Longrightarrow>
     heap (LockAll env w) l = (if \<exists>k. holds w k l then zeroed (heap w l) else heap w l)"
  by (auto simp: LockAll_def fold_lock_heap valid_order_def holds_def dom_def split: option.splits)

lemma fold_lock_seed [simp]: "seed (fold lock_key ks w) = seed w"
  by (induction ks arbitrary: w) (auto simp: lock_key_def split: option.splits)

lemma LockAll_seed [simp]: "seed (LockAll env w) = seed w"
  by (simp add: LockAll_def)

section \<open>Interface: usage counting\<close>

text \<open>
  What a client of the key store relies on: a use increments an account's counter, a release
  decrements it and deletes the account at zero, and both touch no other account. The client
  lemma: any number of uses and the same number of releases end with the account deleted.
\<close>

locale usage_store =
  fixes count :: "'s \<Rightarrow> 'k \<Rightarrow> nat option"
    and use_key :: "'k \<Rightarrow> 's \<Rightarrow> 's option"
    and release :: "'k \<Rightarrow> 's \<Rightarrow> 's option"
    and cap :: nat
  assumes use_ok: "count s k = Some n \<Longrightarrow> Suc n < cap \<Longrightarrow>
      \<exists>s'. use_key k s = Some s' \<and> count s' = (count s)(k \<mapsto> Suc n)"
    and release_ok: "count s k = Some (Suc n) \<Longrightarrow>
      \<exists>s'. release k s = Some s' \<and> count s' = (count s)(k := (if n = 0 then None else Some n))"
    and release_unused: "count s k = None \<or> count s k = Some 0 \<Longrightarrow> release k s = None"
begin

fun iter_op :: "('s \<Rightarrow> 's option) \<Rightarrow> nat \<Rightarrow> 's \<Rightarrow> 's option" where
  "iter_op f 0 s = Some s"
| "iter_op f (Suc n) s = (case f s of None \<Rightarrow> None | Some s' \<Rightarrow> iter_op f n s')"

lemma use_many:
  "count s k = Some n \<Longrightarrow> n + m < cap \<Longrightarrow>
     \<exists>s'. iter_op (use_key k) m s = Some s' \<and> count s' = (count s)(k \<mapsto> n + m)"
proof (induction m arbitrary: s n)
  case 0
  then show ?case by (auto simp: fun_upd_idem)
next
  case (Suc m)
  then obtain s1 where s1: "use_key k s = Some s1" "count s1 = (count s)(k \<mapsto> Suc n)"
    using use_ok [of s k n] by auto
  have "count s1 k = Some (Suc n)" by (simp add: s1(2))
  moreover have "Suc n + m < cap" using Suc.prems(2) by simp
  ultimately obtain s' where "iter_op (use_key k) m s1 = Some s'" "count s' = (count s1)(k \<mapsto> Suc n + m)"
    using Suc.IH by blast
  moreover from this have "count s' = (count s)(k \<mapsto> n + Suc m)" by (simp add: s1(2))
  moreover have "iter_op (use_key k) (Suc m) s = iter_op (use_key k) m s1" by (simp add: s1(1))
  ultimately show ?case by metis
qed

lemma release_many:
  "count s k = Some (Suc m) \<Longrightarrow>
     \<exists>s'. iter_op (release k) (Suc m) s = Some s' \<and> count s' = (count s)(k := None)"
proof (induction m arbitrary: s)
  case 0
  then show ?case using release_ok [of s k 0] by auto
next
  case (Suc m)
  then obtain s1 where s1: "release k s = Some s1" "count s1 = (count s)(k \<mapsto> Suc m)"
    using release_ok [of s k "Suc m"] by auto
  have "count s1 k = Some (Suc m)" by (simp add: s1(2))
  then obtain s' where "iter_op (release k) (Suc m) s1 = Some s'" "count s' = (count s1)(k := None)"
    using Suc.IH by blast
  moreover from this have "count s' = (count s)(k := None)" by (simp add: s1(2))
  moreover have "iter_op (release k) (Suc (Suc m)) s = iter_op (release k) (Suc m) s1" by (simp add: s1(1))
  ultimately show ?case by metis
qed

lemma balanced_use:
  assumes "count s k = Some 0" "Suc m < cap"
  shows "\<exists>s1 s2. iter_op (use_key k) (Suc m) s = Some s1 \<and> iter_op (release k) (Suc m) s1 = Some s2 \<and>
    count s2 = (count s)(k := None)"
proof -
  obtain s1 where s1: "iter_op (use_key k) (Suc m) s = Some s1" "count s1 = (count s)(k \<mapsto> Suc m)"
    using use_many [OF assms(1), of "Suc m"] assms(2) by auto
  moreover obtain s2 where "iter_op (release k) (Suc m) s1 = Some s2" "count s2 = (count s1)(k := None)"
    using release_many [of s1 k m] s1(2) by auto
  moreover from this have "count s2 = (count s)(k := None)" by (simp add: s1(2))
  ultimately show ?thesis by blast
qed

end

text \<open>The wallet's own counters, as seen through this interface, with writes that succeed.\<close>

definition usage :: "wallet \<Rightarrow> bytes \<Rightarrow> nat option" where
  "usage w k = map_option (\<lambda>e. unat (useCount e)) (openAccs w k)"

definition done_state :: "unit res \<times> wallet \<Rightarrow> wallet option" where
  "done_state r = (case r of (Ok _, w) \<Rightarrow> Some w | _ \<Rightarrow> None)"

definition reliable :: "((bytes \<rightharpoonup> openAcc) \<Rightarrow> bytes list) \<Rightarrow> wenv" where
  "reliable ord = \<lparr>map_order = ord, write_res = (\<lambda>_ _. None)\<rparr>"

definition use_account :: "((bytes \<rightharpoonup> openAcc) \<Rightarrow> bytes list) \<Rightarrow> bytes \<Rightarrow> wallet \<Rightarrow> wallet option" where
  "use_account ord k w = done_state (IncrementUsage (reliable ord) (WalletAddr (Address k)) w)"

definition release_account :: "((bytes \<rightharpoonup> openAcc) \<Rightarrow> bytes list) \<Rightarrow> bytes \<Rightarrow> wallet \<Rightarrow> wallet option" where
  "release_account ord k w = done_state (DecrementUsage (reliable ord) (WalletAddr (Address k)) w)"

lemma save_reliable: "\<exists>d. save (reliable ord) w = (Ok (), w\<lparr>disk := d\<rparr>)"
proof (cases "wfile w = ''''")
  case True
  have "w = w\<lparr>disk := disk w\<rparr>" by (cases w) simp
  with True show ?thesis by (metis save_def)
next
  case False
  then show ?thesis by (auto simp: save_def reliable_def Let_def)
qed

lemma unat_Suc_u32: "Suc (unat (c :: u32)) < 4294967296 \<Longrightarrow> unat (c + 1) = Suc (unat c)"
  by (simp add: unat_word_ariths)

lemma unat_pred_u32: "unat (c :: u32) = Suc n \<Longrightarrow> unat (c - 1) = n"
  using unat_minus_one [of c] by (cases "c = 0") auto

lemma use_account_ok:
  assumes "usage w k = Some n" and "Suc n < 4294967296"
  shows "\<exists>w'. use_account ord k w = Some w' \<and> usage w' = (usage w)(k \<mapsto> Suc n)"
proof -
  from assms(1) obtain e where e: "openAccs w k = Some e" "unat (useCount e) = n"
    by (auto simp: usage_def)
  let ?w = "w\<lparr>openAccs := (openAccs w)(k \<mapsto> e\<lparr>useCount := useCount e + 1\<rparr>)\<rparr>"
  obtain d where "save (reliable ord) ?w = (Ok (), ?w\<lparr>disk := d\<rparr>)"
    using save_reliable by blast
  then have "use_account ord k w = Some (?w\<lparr>disk := d\<rparr>)"
    using e by (simp add: use_account_def IncrementUsage_def done_state_def)
  then show ?thesis
    using e assms(2) unat_Suc_u32 [of "useCount e"] by (auto simp: usage_def)
qed

lemma release_account_ok:
  assumes "usage w k = Some (Suc n)"
  shows "\<exists>w'. release_account ord k w = Some w' \<and>
    usage w' = (usage w)(k := (if n = 0 then None else Some n))"
proof -
  from assms obtain e where e: "openAccs w k = Some e" "unat (useCount e) = Suc n"
    by (auto simp: usage_def)
  then have pos: "useCount e \<noteq> 0" and n: "unat (useCount e - 1) = n"
    using unat_pred_u32 by auto
  then have z: "useCount e - 1 = 0 \<longleftrightarrow> n = 0"
    by (metis unat_0 unat_eq_zero)
  show ?thesis
  proof (cases "n = 0")
    case True
    let ?w = "w\<lparr>heap := clear_acc (acc e) (heap w), openAccs := (openAccs w)(k := None)\<rparr>"
    obtain d where "save (reliable ord) ?w = (Ok (), ?w\<lparr>disk := d\<rparr>)"
      using save_reliable by blast
    then have "release_account ord k w = Some (?w\<lparr>disk := d\<rparr>)"
      using e pos z True by (simp add: release_account_def DecrementUsage_def done_state_def Let_def)
    then show ?thesis using True by (auto simp: usage_def)
  next
    case False
    let ?w = "w\<lparr>openAccs := (openAccs w)(k \<mapsto> e\<lparr>useCount := useCount e - 1\<rparr>)\<rparr>"
    obtain d where "save (reliable ord) ?w = (Ok (), ?w\<lparr>disk := d\<rparr>)"
      using save_reliable by blast
    then have "release_account ord k w = Some (?w\<lparr>disk := d\<rparr>)"
      using e pos z False by (simp add: release_account_def DecrementUsage_def done_state_def Let_def)
    then show ?thesis using n False by (auto simp: usage_def)
  qed
qed

lemma release_account_unused:
  "usage w k = None \<or> usage w k = Some 0 \<Longrightarrow> release_account ord k w = None"
  by (auto simp: usage_def release_account_def DecrementUsage_def done_state_def unat_eq_zero)

interpretation wallet_usage: usage_store usage "use_account ord" "release_account ord" 4294967296
  for ord
  by unfold_locales (rule use_account_ok release_account_ok release_account_unused; assumption)+

section \<open>Reachable wallets\<close>

text \<open>
  The states a wallet can be in: created, in memory or for a file that does not exist yet; after
  any of its operations; or opened again from what was saved.
\<close>

inductive wallet_reach :: "ed25519 \<Rightarrow> wenv \<Rightarrow> wallet \<Rightarrow> bool" for ed env where
  ram: "NewRAMWallet gen dsk = Ok w \<Longrightarrow> wallet_reach ed env w"
| create: "dsk path = None \<Longrightarrow> CreateOrLoadFsWallet env path gen dsk = Ok w \<Longrightarrow> wallet_reach ed env w"
| new_account: "wallet_reach ed env w \<Longrightarrow> latestAcc w \<noteq> - 1 \<Longrightarrow>
    wallet_reach ed env (snd (NewAccount ed w))"
| unlock: "wallet_reach ed env w \<Longrightarrow> wallet_reach ed env (snd (Unlock ed a w))"
| lock_all: "wallet_reach ed env w \<Longrightarrow> wallet_reach ed env (LockAll env w)"
| increment: "wallet_reach ed env w \<Longrightarrow> wallet_reach ed env (snd (IncrementUsage env a w))"
| decrement: "wallet_reach ed env w \<Longrightarrow> wallet_reach ed env (snd (DecrementUsage env a w))"
| reopen: "wallet_reach ed env w \<Longrightarrow> storable env w \<Longrightarrow> dsk path = Some (wallet_bytes env w) \<Longrightarrow>
    CreateOrLoadFsWallet env path gen dsk = Ok w' \<Longrightarrow> wallet_reach ed env w'"

lemma locked_inv:
  assumes "wallet_inv ed w"
  shows "wallet_inv ed ((new_wallet path (seed w) d)\<lparr>latestAcc := latestAcc w, openAccs := locked (openAccs w)\<rparr>)"
  using wallet_invD(2) [OF assms]
  by (fastforce simp: wallet_inv_def entry_inv_def new_wallet_def locked_def loaded_def)

lemma reopen_eq:
  assumes "storable env w" and "dsk path = Some (wallet_bytes env w)"
  shows "CreateOrLoadFsWallet env' path gen dsk =
    Ok ((new_wallet path (seed w) dsk)\<lparr>latestAcc := latestAcc w, openAccs := locked (openAccs w)\<rparr>)"
  using assms(2) by (simp add: CreateOrLoadFsWallet_def load_wallet_bytes [OF assms(1)]) (simp add: new_wallet_def)

lemma create_inv:
  assumes "dsk path = None" and "CreateOrLoadFsWallet env path gen dsk = Ok w"
  shows "wallet_inv ed w"
proof -
  from assms obtain x where "(case save env (new_wallet path (fst x) dsk) of
      (Ok _, w) \<Rightarrow> Ok w | (Err e, w) \<Rightarrow> Err e | (Panic m, w) \<Rightarrow> Panic m | (Hang, w) \<Rightarrow> Hang) = Ok w"
    by (auto simp: CreateOrLoadFsWallet_def)
  then obtain sd where "save env (new_wallet path sd dsk) = (Ok (), w)"
    by (cases "save env (new_wallet path (fst x) dsk)") (auto split: res.splits)
  then show ?thesis
    using save_cases [of env "new_wallet path sd dsk" "Ok ()" w] new_wallet_inv [of ed path sd dsk]
    by auto
qed

lemma wallet_reach_inv: "wallet_reach ed env w \<Longrightarrow> wallet_inv ed w"
proof (induction rule: wallet_reach.induct)
  case (ram gen dsk w)
  then show ?case by (auto simp: NewRAMWallet_def new_wallet_inv split: res.splits)
next
  case (reopen w dsk path gen w')
  then show ?case using reopen_eq locked_inv by (metis res.inject(1))
qed (auto intro: create_inv NewAccount_inv Unlock_inv LockAll_inv IncrementUsage_inv DecrementUsage_inv)

section \<open>Properties\<close>

text \<open>A curve and an environment for the examples: keys are their seeds, writes succeed.\<close>

definition demo_ed :: ed25519 where
  "demo_ed = \<lparr>ed_public = (\<lambda>sk. sk), ed_sign = (\<lambda>sk m. Ok (sk @ m)),
     ed_verify = (\<lambda>pk m s. if length pk = 32 then Ok (s = pk @ m) else Panic ''bad public key length''),
     ed_generate = (\<lambda>s. if length s = 32 then Ok s else Err (ErrExt ''short read''))\<rparr>"

definition demo_key :: "byte \<Rightarrow> bytes" where
  "demo_key b = replicate 24 9 @ b # replicate 7 0"

definition demo_env :: wenv where
  "demo_env = reliable (\<lambda>m. filter (\<lambda>k. m k \<noteq> None) [demo_key 0, demo_key 1])"

definition demo_wallet :: "string \<Rightarrow> wallet" where
  "demo_wallet path = new_wallet path (replicate 24 9) Map.empty"

definition demo_two :: "string \<Rightarrow> wallet" where
  "demo_two path = snd (NewAccount demo_ed (snd (NewAccount demo_ed (demo_wallet path))))"

lemma put_u64_demo: "put_u64 0 = 0 # replicate 7 0" "put_u64 1 = 1 # replicate 7 0"
  by code_simp+

lemma demo_two_state:
  "demo_two path = (new_wallet path (replicate 24 9) Map.empty)
     \<lparr>latestAcc := 2, next_loc := 2, heap := [0 \<mapsto> demo_key 0, 1 \<mapsto> demo_key 1],
      openAccs := [demo_key 0 \<mapsto> \<lparr>nonce = 0, useCount = 0, acc = Some 0\<rparr>,
                   demo_key 1 \<mapsto> \<lparr>nonce = 1, useCount = 0, acc = Some 1\<rparr>]\<rparr>"
  by (simp add: demo_two_def demo_wallet_def demo_ed_def NewAccount_def genAcc_def new_wallet_def
      alloc_key_def Let_def Account_L2Address_def demo_key_def put_u64_demo)

text \<open>
  Property C3 (save_load_roundtrip): opening the file a save wrote gives the wallet back: seed,
  next nonce and every account with its nonce and use count, whatever order the map was walked
  in; only the keys in memory are gone.
\<close>

theorem save_load_roundtrip:
  assumes "wfile w \<noteq> ''''" and "storable env w" and "save env w = (Ok (), w')"
  shows "CreateOrLoadFsWallet env' (wfile w) gen (disk w') =
    Ok ((new_wallet (wfile w) (seed w) (disk w'))\<lparr>latestAcc := latestAcc w, openAccs := locked (openAccs w)\<rparr>)"
proof (rule reopen_eq [OF assms(2)])
  show "disk w' (wfile w) = Some (wallet_bytes env w)"
    using assms(1,3) by (auto simp: save_def Let_def split: option.splits prod.splits)
qed

theorem save_load_roundtrip_witness:
  "CreateOrLoadFsWallet demo_env ''w'' [] (disk (snd (save demo_env (demo_two ''w'')))) =
    Ok ((new_wallet ''w'' (replicate 24 9) (disk (snd (save demo_env (demo_two ''w'')))))
      \<lparr>latestAcc := 2, openAccs := locked (openAccs (demo_two ''w''))\<rparr>)"
proof -
  have st: "storable demo_env (demo_two ''w'')"
    unfolding storable_def valid_order_def demo_two_state
    by (auto simp: demo_env_def reliable_def demo_key_def PublicKeySize_def new_wallet_def)
  have sv: "save demo_env (demo_two ''w'') = (Ok (), snd (save demo_env (demo_two ''w'')))"
    by (simp add: save_def demo_two_state new_wallet_def demo_env_def reliable_def Let_def)
  show ?thesis
    using save_load_roundtrip [OF _ st sv, of demo_env "[]"] by (simp add: demo_two_state new_wallet_def)
qed

text \<open>
  Property C4 (unlock_yields_key): in every reachable wallet, unlocking an open account succeeds
  and hands out a private key whose public key is that account's address; unlocking an address
  that is not open is an error and changes nothing.
\<close>

theorem unlock_yields_key:
  assumes "wallet_reach ed env w"
  shows "case openAccs w k of
      None \<Rightarrow> Unlock ed (WalletAddr (Address k)) w = (Err (ErrNew ''no such account''), w)
    | Some e \<Rightarrow> (\<exists>l sk w'. Unlock ed (WalletAddr (Address k)) w = (Ok l, w') \<and>
        heap w' l = Some sk \<and> ed_public ed sk = k)"
proof (cases "openAccs w k")
  case None
  then show ?thesis by (simp add: Unlock_missing)
next
  case (Some e)
  then show ?thesis using Unlock_open [OF wallet_reach_inv [OF assms]] by fastforce
qed

lemma demo_two_reach: "wallet_reach demo_ed demo_env (demo_two '''')"
proof -
  have "NewRAMWallet (replicate 24 9) Map.empty = Ok (demo_wallet '''')"
    by (simp add: NewRAMWallet_def demo_wallet_def)
  then have "wallet_reach demo_ed demo_env (demo_wallet '''')" by (rule wallet_reach.ram)
  then have "wallet_reach demo_ed demo_env (snd (NewAccount demo_ed (demo_wallet '''')))"
    by (rule wallet_reach.new_account) (simp add: demo_wallet_def new_wallet_def)
  then show ?thesis unfolding demo_two_def
    by (rule wallet_reach.new_account)
      (simp add: demo_wallet_def new_wallet_def demo_ed_def NewAccount_def genAcc_def alloc_key_def Let_def)
qed

lemma demo_order: "valid_order demo_env (openAccs (demo_two path))"
  by (auto simp: valid_order_def demo_two_state demo_env_def reliable_def demo_key_def new_wallet_def)

theorem unlock_yields_key_witness:
  "\<exists>l sk w'. Unlock demo_ed (WalletAddr (Address (demo_key 1))) (LockAll demo_env (demo_two '''')) = (Ok l, w') \<and>
     heap w' l = Some sk \<and> ed_public demo_ed sk = demo_key 1"
proof -
  have "openAccs (LockAll demo_env (demo_two '''')) (demo_key 1) =
      Some \<lparr>nonce = 1, useCount = 0, acc = None\<rparr>"
    by (simp add: LockAll_openAccs [OF demo_order]) (simp add: demo_two_state new_wallet_def)
  then show ?thesis
    using unlock_yields_key [OF wallet_reach.lock_all [OF demo_two_reach], of "demo_key 1"] by simp
qed

text \<open>
  Property C26 (lock_all_zeroes): in every reachable wallet, \<open>LockAll\<close> overwrites the key of every
  unlocked account with zeros in the array the callers share, leaves all other arrays alone, and
  a later unlock hands out the original key in another array.
\<close>

theorem lock_all_zeroes:
  assumes "wallet_reach ed env w" and "valid_order env (openAccs w)" and "holds w k l"
  shows "\<exists>sk l' w'. heap w l = Some sk \<and>
      heap (LockAll env w) l = Some (replicate (length sk) 0) \<and>
      (\<forall>j. (\<exists>k'. holds w k' j) \<or> heap (LockAll env w) j = heap w j) \<and>
      Unlock ed (WalletAddr (Address k)) (LockAll env w) = (Ok l', w') \<and> l' \<noteq> l \<and> heap w' l' = Some sk"
proof -
  let ?w = "LockAll env w"
  from assms(3) obtain e where e: "openAccs w k = Some e" and l: "acc e = Some l"
    by (auto simp: holds_def split: option.splits)
  have inv: "wallet_inv ed w" using assms(1) by (rule wallet_reach_inv)
  then obtain sk where gen: "ed_generate ed (seed w @ put_u64 (nonce e)) = Ok sk" and sk: "heap w l = Some sk"
    using wallet_invD(2) [OF inv e] l by (auto simp: entry_inv_def)
  have e': "openAccs ?w k = Some (e\<lparr>acc := None\<rparr>)"
    using e by (simp add: LockAll_openAccs [OF assms(2)])
  then obtain w' where "Unlock ed (WalletAddr (Address k)) ?w = (Ok (next_loc ?w), w')"
    and "heap w' (next_loc ?w) = Some sk"
    using gen by (simp add: Unlock_def genAcc_def alloc_key_def Let_def)
  moreover have "heap ?w l = Some (replicate (length sk) 0)"
    using sk assms(3) by (auto simp: LockAll_heap [OF assms(2)] zeroed_def)
  moreover from this have "next_loc ?w \<noteq> l"
    using wallet_invD(1) [OF LockAll_inv [OF inv], of env l] by auto
  moreover have "(\<exists>k'. holds w k' j) \<or> heap ?w j = heap w j" for j
    by (simp add: LockAll_heap [OF assms(2)])
  ultimately show ?thesis using sk by blast
qed

theorem lock_all_zeroes_witness:
  "\<exists>l' w'. heap (LockAll demo_env (demo_two '''')) 1 = Some (replicate 32 0) \<and>
     Unlock demo_ed (WalletAddr (Address (demo_key 1))) (LockAll demo_env (demo_two '''')) = (Ok l', w') \<and>
     l' \<noteq> 1 \<and> heap w' l' = Some (demo_key 1)"
proof -
  have "holds (demo_two '''') (demo_key 1) 1" by (simp add: holds_def demo_two_state new_wallet_def)
  moreover have "heap (demo_two '''') 1 = Some (demo_key 1)" by (simp add: demo_two_state new_wallet_def)
  moreover have "length (demo_key 1) = 32" by (simp add: demo_key_def)
  ultimately show ?thesis
    using lock_all_zeroes [OF demo_two_reach demo_order, of "demo_key 1" 1] by auto
qed

text \<open>
  Property (balanced_usage_deletes): after any number of \<open>IncrementUsage\<close> calls on a fresh
  account and as many \<open>DecrementUsage\<close> calls, none of which panics, the account is deleted and
  every other account's counter is what it was.
\<close>

theorem balanced_usage_deletes:
  assumes "usage w k = Some 0" and "m < 4294967295"
  shows "\<exists>w1 w2. usage_store.iter_op (use_account ord k) (Suc m) w = Some w1 \<and>
    usage_store.iter_op (release_account ord k) (Suc m) w1 = Some w2 \<and> usage w2 = (usage w)(k := None)"
  using wallet_usage.balanced_use [OF assms(1), of m ord] assms(2) by simp

theorem balanced_usage_deletes_witness:
  "\<exists>w1 w2. usage_store.iter_op (use_account (map_order demo_env) (demo_key 1)) 3 (demo_two ''w'') = Some w1 \<and>
    usage_store.iter_op (release_account (map_order demo_env) (demo_key 1)) 3 w1 = Some w2 \<and>
    usage w2 (demo_key 1) = None \<and> usage w2 (demo_key 0) = Some 0"
proof -
  have "usage (demo_two ''w'') (demo_key 1) = Some 0" "usage (demo_two ''w'') (demo_key 0) = Some 0"
    by (simp_all add: usage_def demo_two_state new_wallet_def demo_key_def)
  moreover have "demo_key 0 \<noteq> demo_key 1" by (simp add: demo_key_def)
  ultimately show ?thesis
    using balanced_usage_deletes [of "demo_two ''w''" "demo_key 1" 2 "map_order demo_env"]
    by (auto simp: numeral_3_eq_3)
qed

text \<open>
  Property C27 (unused_accounts_persisted): a successful \<open>IncrementUsage\<close> of one account writes all
  open accounts to the file, also those never used: opening the file again brings back an
  account whose use count is zero.
\<close>

theorem unused_accounts_persisted:
  assumes "wfile w \<noteq> ''''" and "storable env (w\<lparr>openAccs := (openAccs w)(a \<mapsto> ea\<lparr>useCount := useCount ea + 1\<rparr>)\<rparr>)"
    and "openAccs w a = Some ea" and "openAccs w b = Some eb" and "useCount eb = 0" and "a \<noteq> b"
    and "IncrementUsage env (WalletAddr (Address a)) w = (Ok (), w')"
  shows "\<exists>w2. CreateOrLoadFsWallet env' (wfile w) gen (disk w') = Ok w2 \<and>
    openAccs w2 b = Some (loaded (nonce eb) 0)"
proof -
  let ?w = "w\<lparr>openAccs := (openAccs w)(a \<mapsto> ea\<lparr>useCount := useCount ea + 1\<rparr>)\<rparr>"
  have "save env ?w = (Ok (), w')"
    using assms(3,7) by (auto simp: IncrementUsage_def split: prod.splits res.splits)
  then have "disk w' (wfile w) = Some (wallet_bytes env ?w)"
    using assms(1) by (auto simp: save_def Let_def split: option.splits prod.splits)
  from reopen_eq [OF assms(2), of "disk w'" "wfile w" env' gen, OF this] show ?thesis
    using assms(4,5,6) by (simp add: locked_def)
qed

theorem unused_accounts_persisted_witness:
  "\<exists>w2. CreateOrLoadFsWallet demo_env ''w'' []
      (disk (snd (IncrementUsage demo_env (WalletAddr (Address (demo_key 0))) (demo_two ''w'')))) = Ok w2 \<and>
    openAccs w2 (demo_key 1) = Some (loaded 1 0)"
proof -
  let ?w = "demo_two ''w''" and ?e0 = "\<lparr>nonce = 0, useCount = 0, acc = Some 0\<rparr>"
  have ne: "demo_key 0 \<noteq> demo_key 1" by (simp add: demo_key_def)
  have e: "openAccs ?w (demo_key 0) = Some ?e0"
    "openAccs ?w (demo_key 1) = Some \<lparr>nonce = 1, useCount = 0, acc = Some 1\<rparr>"
    using ne by (simp_all add: demo_two_state new_wallet_def)
  have st: "storable demo_env (?w\<lparr>openAccs := (openAccs ?w)(demo_key 0 \<mapsto> ?e0\<lparr>useCount := useCount ?e0 + 1\<rparr>)\<rparr>)"
    unfolding storable_def valid_order_def demo_two_state
    by (auto simp: demo_env_def reliable_def demo_key_def PublicKeySize_def new_wallet_def)
  have "fst (IncrementUsage demo_env (WalletAddr (Address (demo_key 0))) ?w) = Ok ()"
    using e by (simp add: IncrementUsage_def save_def demo_env_def reliable_def Let_def)
  then have "IncrementUsage demo_env (WalletAddr (Address (demo_key 0))) ?w =
      (Ok (), snd (IncrementUsage demo_env (WalletAddr (Address (demo_key 0))) ?w))"
    by (metis prod.collapse)
  from unused_accounts_persisted [OF _ st e _ ne this, of demo_env "[]"] show ?thesis
    by (simp add: demo_two_state new_wallet_def)
qed

end
