(* ===== verification/Wire.thy ===== *)
theory Wire
  imports FsWallet
begin

text \<open>
  \<open>wire/account.go\<close>, \<open>NewRandomAddress\<close> of \<open>wire/address.go\<close>, \<open>NewWallet\<close> of \<open>wallet/wallet.go\<close>
  and the randomizer of \<open>wallet/test/randomizer.go\<close> that they go through. \<open>crand\<close> is what the
  system's random source gives for a seed; the pseudo-random source that callers pass is not used.
\<close>

definition NewWallet :: "bytes \<Rightarrow> (string \<rightharpoonup> bytes) \<Rightarrow> wallet res" where
  "NewWallet crand dsk = (case NewRAMWallet crand dsk of
     Ok wlt \<Rightarrow> Ok wlt
   | Err e \<Rightarrow> Panic (err_text e)
   | Panic m \<Rightarrow> Panic m
   | Hang \<Rightarrow> Hang)"

section \<open>The randomizer\<close>

record Randomizer =
  rz_wallet :: wallet

definition rz_NewWallet :: "bytes \<Rightarrow> (string \<rightharpoonup> bytes) \<Rightarrow> wallet res" where
  "rz_NewWallet crand dsk = (case NewRAMWallet crand dsk of
     Ok w \<Rightarrow> Ok w
   | Err e \<Rightarrow> Panic (''NewWallet: failed to create wallet: '' @ err_text e)
   | Panic m \<Rightarrow> Panic m
   | Hang \<Rightarrow> Hang)"

definition NewRandomizer :: "bytes \<Rightarrow> (string \<rightharpoonup> bytes) \<Rightarrow> Randomizer res" where
  "NewRandomizer crand dsk = res_bind (rz_NewWallet crand dsk) (\<lambda>w. Ok \<lparr>rz_wallet = w\<rparr>)"

definition Randomizer_NewWallet :: "Randomizer \<Rightarrow> bytes \<Rightarrow> (string \<rightharpoonup> bytes) \<Rightarrow> wallet res" where
  "Randomizer_NewWallet r crand dsk = rz_NewWallet crand dsk"

definition RandomWallet :: "Randomizer \<Rightarrow> wallet" where
  "RandomWallet r = rz_wallet r"

definition rz_NewRandomAccount :: "ed25519 \<Rightarrow> 'rng \<Rightarrow> Randomizer \<Rightarrow> nat res \<times> Randomizer" where
  "rz_NewRandomAccount ed rng r =
     (case NewRandomAccount ed rng (rz_wallet r) of (a, w) \<Rightarrow> (a, r\<lparr>rz_wallet := w\<rparr>))"

definition rz_NewRandomAddress :: "ed25519 \<Rightarrow> 'rng \<Rightarrow> Randomizer \<Rightarrow> paddr res \<times> Randomizer" where
  "rz_NewRandomAddress ed rng r =
     (case rz_NewRandomAccount ed rng r of
        (Ok l, r') \<Rightarrow> (case heap (rz_wallet r') l of
           Some sk \<Rightarrow> (Ok (Account_Address ed sk), r')
         | None \<Rightarrow> (Panic ''nil pointer dereference'', r'))
      | (Err e, r') \<Rightarrow> (Err e, r') | (Panic m, r') \<Rightarrow> (Panic m, r') | (Hang, r') \<Rightarrow> (Hang, r'))"

section \<open>Wire addresses and accounts\<close>

text \<open>A pointer to a wire address (None: nil), which holds a pointer to a wallet address.\<close>

definition wire_NewRandomAddress ::
  "ed25519 \<Rightarrow> 'rng \<Rightarrow> bytes \<Rightarrow> (string \<rightharpoonup> bytes) \<Rightarrow> address option option res" where
  "wire_NewRandomAddress ed rng crand dsk =
     res_bind (NewRandomizer crand dsk) (\<lambda>r.
     res_bind (fst (rz_NewRandomAddress ed rng r)) (\<lambda>addr.
     case addr of WalletAddr walletAddr \<Rightarrow> Ok (Some (Some walletAddr)) | OtherAddr _ \<Rightarrow> Ok None))"

record wire_account =
  wa_addr :: "address option option"

definition wire_Address :: "wire_account \<Rightarrow> address option option" where
  "wire_Address account = wa_addr account"

definition wire_NewRandomAccount ::
  "ed25519 \<Rightarrow> 'rng \<Rightarrow> bytes \<Rightarrow> (string \<rightharpoonup> bytes) \<Rightarrow> wire_account res" where
  "wire_NewRandomAccount ed rng crand dsk =
     res_bind (wire_NewRandomAddress ed rng crand dsk) (\<lambda>a. Ok \<lparr>wa_addr = a\<rparr>)"

section \<open>Lemmas\<close>

lemma NewRandomizer_Ok:
  "24 \<le> length crand \<Longrightarrow> NewRandomizer crand dsk = Ok \<lparr>rz_wallet = new_wallet '''' (take 24 crand) dsk\<rparr>"
  by (simp add: NewRandomizer_def rz_NewWallet_def NewRAMWallet_def)

lemma rz_address_Ok:
  assumes "ed_generate ed (seed (rz_wallet r) @ put_u64 (latestAcc (rz_wallet r))) = Ok sk"
  shows "fst (rz_NewRandomAddress ed rng r) = Ok (Account_Address ed sk)"
  using assms
  by (simp add: rz_NewRandomAddress_def rz_NewRandomAccount_def NewRandomAccount_def genAcc_def
      alloc_key_def Let_def)

text \<open>
  A random account has an address, never nil, that compares without a panic: it equals itself, and
  the comparison with the address of \<open>NewAddress\<close> is the one that panics.
\<close>

theorem random_wire_account:
  assumes "24 \<le> length crand" and "ed_generate ed (take 24 crand @ put_u64 0) = Ok sk"
  shows "\<exists>account a. wire_NewRandomAccount ed rng crand dsk = Ok account \<and> wire_Address account = Some (Some a) \<and>
    addr_bytes a = ed_public ed sk \<and>
    wire_Equal (Some a) (WireAddr (Some a)) = Ok True \<and> wire_Cmp (Some a) (WireAddr (Some a)) = Ok 0 \<and>
    wire_Equal (Some a) (WireAddr wire_NewAddress) = Panic ''nil pointer dereference''"
proof -
  have "fst (rz_NewRandomAddress ed rng \<lparr>rz_wallet = new_wallet '''' (take 24 crand) dsk\<rparr>) =
      Ok (Account_Address ed sk)"
    using assms(2) by (intro rz_address_Ok) (simp add: new_wallet_def)
  then have "wire_NewRandomAccount ed rng crand dsk = Ok \<lparr>wa_addr = Some (Some (Address (ed_public ed sk)))\<rparr>"
    using assms(1)
    by (simp add: wire_NewRandomAccount_def wire_NewRandomAddress_def NewRandomizer_Ok Account_Address_def
        Account_L2Address_def)
  then show ?thesis
    by (simp add: wire_Address_def wire_Equal_def wire_Cmp_def wire_NewAddress_def byte_cmp.cmp_zero)

qed

end
