(* ===== verification/Serialize.thy ===== *)
theory Serialize
  imports WalletAddress
begin

text \<open>
  Conversion of go-perun's channel types to the connector's:
  \<open>channel/connector/types.go\<close> and \<open>channel/connector/serialize.go\<close>. go-perun itself is not part
  of the repository: the operations of it that the code calls are the fields of \<open>goperun\<close>.
  A nil \<open>big.Int\<close> does not occur in the model; a slice is a list.
\<close>

section \<open>Data\<close>

definition OffIdentityLen :: nat where "OffIdentityLen = 32"
definition OnIdentityLen :: nat where "OnIdentityLen = 32"
definition NonceLen :: nat where "NonceLen = 32"
definition SigLen :: nat where "SigLen = 64"
definition FIDLen :: nat where "FIDLen = 32"
definition IDLen :: nat where "IDLen = 32"
definition ICTransferFee :: u64 where "ICTransferFee = 10000"
definition MaxBalance :: u64 where "MaxBalance = push_bit 30 1"

text \<open>The package's names for its types; an array of bytes is a list, whose length is a theorem.\<close>

type_synonym Nonce = bytes
type_synonym ChannelID = bytes
type_synonym FundingID = bytes
type_synonym OffIdentity = bytes
type_synonym OnIdentity = bytes
type_synonym Version = u64
type_synonym ChallengeDuration = u64
type_synonym Balance = u64
type_synonym AppID = OffIdentity
type_synonym Memo = u64
type_synonym BlockNum = u64

record Params =
  p_nonce :: Nonce
  p_participants :: "OffIdentity list"
  p_challenge :: ChallengeDuration
  p_app :: AppID

record State =
  st_channel :: ChannelID
  st_version :: Version
  st_balances :: "Balance list"
  st_final :: bool
  st_data :: bytes

record Withdrawal =
  wd_channel :: ChannelID
  wd_part :: OffIdentity
  wd_receiver :: OnIdentity

record Funding =
  f_channel :: ChannelID
  f_part :: OffIdentity

text \<open>go-perun's \<open>channel.Allocation\<close>, \<open>State\<close> and \<open>Params\<close>, the fields this code reads.\<close>

record pAllocation =
  al_assets :: nat
  al_balances :: "int list list"
  al_locked :: nat

record 'd pState =
  ps_id :: bytes
  ps_version :: u64
  ps_alloc :: pAllocation
  ps_final :: bool
  ps_data :: 'd

record 'a pParams =
  pp_id :: bytes
  pp_challenge :: u64
  pp_parts :: "paddr list"
  pp_app :: 'a
  pp_nonce :: int

record ('a, 'd) goperun =
  gp_valid :: "'d pState \<Rightarrow> err option"
  gp_data :: "'d \<Rightarrow> bytes res"
  gp_is_no_app :: "'a \<Rightarrow> bool"
  gp_app_def :: "'a \<Rightarrow> paddr"

section \<open>Identities and numbers\<close>

definition NewFunding :: "ChannelID \<Rightarrow> OffIdentity \<Rightarrow> Funding" where
  "NewFunding i part = \<lparr>f_channel = i, f_part = part\<rparr>"

definition MakeOffIdent :: "paddr \<Rightarrow> OffIdentity res" where
  "MakeOffIdent part = res_bind (MarshalBinary part) (\<lambda>data.
     if length data \<noteq> IDLen then Err ErrIdentLenMismatch
     else Ok (copy_into OffIdentityLen data))"

definition MakeOnIdent :: "address \<Rightarrow> OnIdentity res" where
  "MakeOnIdent addr = res_bind (Address_MarshalBinary addr) (\<lambda>data.
     if length data \<noteq> OnIdentityLen then Err ErrIdentLenMismatch
     else Ok (copy_into OnIdentityLen data))"

definition MakeChallengeDuration :: "u64 \<Rightarrow> ChallengeDuration" where
  "MakeChallengeDuration d = d"

text \<open>The bytes of the nonce are copied to the front of the array, whatever their number.\<close>

definition MakeNonce :: "int \<Rightarrow> Nonce res" where
  "MakeNonce nonce =
     (if nonce < 0 then Err ErrNonceOutOfRange
      else if bit_len (nat \<bar>nonce\<bar>) > 8 * NonceLen \<or> bit_len (nat \<bar>nonce\<bar>) = 0
      then Err ErrNonceOutOfRange
      else Ok (copy_into NonceLen (big_bytes nonce)))"

fun MakeOffIdents :: "paddr list \<Rightarrow> OffIdentity list res" where
  "MakeOffIdents [] = Ok []"
| "MakeOffIdents (part # parts) =
     res_bind (MakeOffIdent part) (\<lambda>i. res_bind (MakeOffIdents parts) (\<lambda>is. Ok (i # is)))"

section \<open>Allocations and states\<close>

definition MakeBalance :: "int \<Rightarrow> Balance res" where
  "MakeBalance bal =
     (if bal < 0 then Err (ErrNew ''invalid balance: negative value'')
      else if bal > uint MaxBalance then Err (ErrNew ''invalid balance: exceeds max balance'')
      else Ok (of_int bal))"

fun make_balances :: "int list \<Rightarrow> u64 list res" where
  "make_balances [] = Ok []"
| "make_balances (bal # bals) =
     res_bind (MakeBalance bal) (\<lambda>b. res_bind (make_balances bals) (\<lambda>bs. Ok (b # bs)))"

text \<open>The length of the first row of balances is read before the shape is checked.\<close>

definition MakeAlloc :: "pAllocation \<Rightarrow> u64 list res" where
  "MakeAlloc a = res_bind (go_nth (al_balances a) 0) (\<lambda>row.
     if al_assets a \<noteq> 1 \<or> length (al_balances a) \<noteq> 1 \<or> al_locked a \<noteq> 0
     then Err ErrAllocIncompatible
     else make_balances row)"

definition StateForChain :: "('a, 'd) goperun \<Rightarrow> 'd pState \<Rightarrow> State res" where
  "StateForChain gp s = (case gp_valid gp s of
     Some e \<Rightarrow> Err ErrStateIncompatible
   | None \<Rightarrow>
       res_bind (MakeAlloc (ps_alloc s)) (\<lambda>bals.
       res_bind (gp_data gp (ps_data s)) (\<lambda>data.
       Ok \<lparr>st_channel = ps_id s, st_version = ps_version s, st_balances = bals,
           st_final = ps_final s, st_data = data\<rparr>)))"

definition NewState :: "('a, 'd) goperun \<Rightarrow> 'd pState \<Rightarrow> State res" where
  "NewState gp s = StateForChain gp s"

definition NewParams :: "('a, 'd) goperun \<Rightarrow> 'a pParams \<Rightarrow> Params res" where
  "NewParams gp p =
     res_bind (MakeNonce (pp_nonce p)) (\<lambda>nonce.
     res_bind (MakeOffIdents (pp_parts p)) (\<lambda>parts.
     res_bind (if \<not> gp_is_no_app gp (pp_app p) then MakeOffIdent (gp_app_def gp (pp_app p))
               else Ok (replicate OffIdentityLen 0)) (\<lambda>appID.
     Ok \<lparr>p_nonce = nonce, p_participants = parts,
         p_challenge = MakeChallengeDuration (pp_challenge p), p_app = appID\<rparr>)))"

section \<open>Facts\<close>

lemma MakeOffIdent_Ok: "MakeOffIdent part = Ok i \<longleftrightarrow> MarshalBinary part = Ok i \<and> length i = 32"
  by (auto simp: MakeOffIdent_def IDLen_def OffIdentityLen_def split: if_splits)

lemma MakeOffIdent_wallet:
  "MakeOffIdent (WalletAddr a) =
     (if length (addr_bytes a) = 32 then Ok (addr_bytes a) else Err ErrIdentLenMismatch)"
  by (simp add: MakeOffIdent_def Address_MarshalBinary_def IDLen_def OffIdentityLen_def)

lemma MakeOnIdent_eq:
  "MakeOnIdent a =
     (if length (addr_bytes a) = 32 then Ok (addr_bytes a) else Err ErrIdentLenMismatch)"
  by (simp add: MakeOnIdent_def Address_MarshalBinary_def OnIdentityLen_def)

lemma MakeOffIdents_Ok:
  "MakeOffIdents parts = Ok is \<longleftrightarrow> list_all2 (\<lambda>p i. MakeOffIdent p = Ok i) parts is"
proof (induction parts arbitrary: "is")
  case Nil
  then show ?case by auto
next
  case (Cons p ps)
  then show ?case by (auto simp: list_all2_Cons1)
qed

lemma MakeOffIdents_32: "MakeOffIdents parts = Ok is \<Longrightarrow> i \<in> set is \<Longrightarrow> length i = 32"
  unfolding MakeOffIdents_Ok
  by (auto simp: MakeOffIdent_Ok in_set_conv_nth list_all2_conv_all_nth)

lemma MakeNonce_Ok:
  "MakeNonce n = Ok a \<longleftrightarrow> 0 < n \<and> n < 2 ^ 256 \<and> a = copy_into 32 (big_bytes n)"
proof -
  have b: "bit_len (nat n) \<le> 256 \<longleftrightarrow> n < 2 ^ 256" if "0 \<le> n"
    using that bit_len_le [of "nat n" 256] by (simp add: nat_less_iff)
  show ?thesis
  proof (cases "0 < n")
    case True
    then show ?thesis using b by (auto simp: MakeNonce_def NonceLen_def)
  qed (auto simp: MakeNonce_def)
qed

lemma MakeNonce_range: "MakeNonce n = (if 0 < n \<and> n < 2 ^ 256 then Ok (copy_into 32 (big_bytes n)) else Err ErrNonceOutOfRange)"
proof (cases "0 < n \<and> n < 2 ^ 256")
  case True
  then show ?thesis using MakeNonce_Ok by simp
next
  case False
  then have "\<nexists>a. MakeNonce n = Ok a" using MakeNonce_Ok by blast
  then show ?thesis using False by (auto simp: MakeNonce_def split: if_splits)
qed

lemma MaxBalance_eq: "uint MaxBalance = 2 ^ 30" "unat MaxBalance = 2 ^ 30"
  by (simp_all add: MaxBalance_def push_bit_eq_mult)

lemma MakeBalance_Ok: "MakeBalance b = Ok w \<longleftrightarrow> 0 \<le> b \<and> b \<le> 2 ^ 30 \<and> w = of_int b"
  by (auto simp: MakeBalance_def MaxBalance_eq)

lemma uint_of_small: "0 \<le> b \<Longrightarrow> b \<le> 2 ^ 30 \<Longrightarrow> uint (of_int b :: u64) = b"
  by (simp add: uint_word_of_int)

lemma make_balances_Ok:
  "make_balances bals = Ok ws \<longleftrightarrow> (\<forall>b\<in>set bals. 0 \<le> b \<and> b \<le> 2 ^ 30) \<and> ws = map of_int bals"
proof (induction bals arbitrary: ws)
  case Nil
  then show ?case by auto
next
  case (Cons b bs)
  then show ?case by (auto simp: MakeBalance_Ok)
qed

lemma make_balances_uint: "make_balances bals = Ok ws \<Longrightarrow> map uint ws = bals"
  unfolding make_balances_Ok by (auto simp: map_idI uint_of_small)

lemma make_balances_no_panic: "\<not> is_panic (make_balances bals)"
proof (induction bals)
  case (Cons b bs)
  then show ?case
    by (cases "MakeBalance b"; cases "make_balances bs") (auto simp: MakeBalance_def split: if_splits)
qed simp

lemma MakeAlloc_Ok:
  "MakeAlloc a = Ok ws \<longleftrightarrow> (\<exists>row. al_assets a = 1 \<and> al_balances a = [row] \<and> al_locked a = 0 \<and>
     (\<forall>b\<in>set row. 0 \<le> b \<and> b \<le> 2 ^ 30) \<and> ws = map of_int row)"
  by (cases "al_balances a") (auto simp: MakeAlloc_def go_nth_def make_balances_Ok split: if_splits)

lemma StateForChain_Ok:
  "StateForChain gp s = Ok c \<Longrightarrow>
     st_channel c = ps_id s \<and> st_version c = ps_version s \<and> st_final c = ps_final s \<and>
     [map uint (st_balances c)] = al_balances (ps_alloc s) \<and>
     (\<forall>b\<in>set (st_balances c). unat b \<le> 2 ^ 30)"
proof -
  assume "StateForChain gp s = Ok c"
  then obtain bals where b: "MakeAlloc (ps_alloc s) = Ok bals" and
    c: "st_channel c = ps_id s" "st_version c = ps_version s" "st_final c = ps_final s"
       "st_balances c = bals"
    by (auto simp: StateForChain_def split: option.splits)
  from b obtain row where row: "al_balances (ps_alloc s) = [row]"
      "\<forall>b\<in>set row. 0 \<le> b \<and> b \<le> 2 ^ 30" "bals = map of_int row"
    unfolding MakeAlloc_Ok by blast
  then have "map uint bals = row" by (auto simp: map_idI uint_of_small)
  moreover have "unat b \<le> 2 ^ 30" if "b \<in> set bals" for b
  proof -
    have "uint b \<le> 2 ^ 30" using that row by (auto simp: uint_of_small)
    then have "int (unat b) \<le> int (2 ^ 30)" by (simp only: uint_nat of_nat_power of_nat_numeral)
    then show ?thesis by (simp only: of_nat_le_iff)
  qed
  ultimately show ?thesis using c row by simp
qed

end
