(* ===== verification/Sha512.thy ===== *)
theory Sha512
  imports Prelude
begin

text \<open>
  \<open>crypto/sha512\<close> (FIPS 180-4), which \<open>channel.CalcID\<close> and \<open>connector.Memo\<close> hash with:
  padding to 128-byte blocks, the message schedule and the 80 rounds on eight 64-bit words
  with wrap-around addition.
\<close>

unbundle bit_operations_syntax

section \<open>Constants\<close>

text \<open>
  The initial state and the round constants are the first 64 bits of the fractional parts of the
  square roots of the first 8 primes and the cube roots of the first 80. \<open>root_bits\<close> finds an
  integer root bit by bit.
\<close>

primrec root_bits :: "nat \<Rightarrow> nat \<Rightarrow> nat \<Rightarrow> nat \<Rightarrow> nat" where
  "root_bits k n 0 r = r"
| "root_bits k n (Suc b) r = root_bits k n b (if (r + 2 ^ b) ^ k \<le> n then r + 2 ^ b else r)"

lemma root_bits_bounds:
  assumes "r ^ k \<le> n" and "n < (r + 2 ^ b) ^ k"
  shows "root_bits k n b r ^ k \<le> n \<and> n < Suc (root_bits k n b r) ^ k"
  using assms by (induction b arbitrary: r) (simp_all add: mult_2 add.assoc not_le)

definition fraction_bits :: "nat \<Rightarrow> nat \<Rightarrow> u64" where
  "fraction_bits k p = of_nat (root_bits k (p * 2 ^ (64 * k)) 72 0)"

definition small_primes :: "nat list" where
  "small_primes = [2, 3, 5, 7, 11, 13, 17, 19, 23, 29, 31, 37, 41, 43, 47, 53, 59, 61, 67, 71, 73, 79, 83,
     89, 97, 101, 103, 107, 109, 113, 127, 131, 137, 139, 149, 151, 157, 163, 167, 173, 179,
     181, 191, 193, 197, 199, 211, 223, 227, 229, 233, 239, 241, 251, 257, 263, 269, 271,
     277, 281, 283, 293, 307, 311, 313, 317, 331, 337, 347, 349, 353, 359, 367, 373, 379,
     383, 389, 397, 401, 409]"

definition sha_init :: "u64 list" where
  "sha_init = map (fraction_bits 2) (take 8 small_primes)"

definition sha_k :: "u64 list" where
  "sha_k = map (fraction_bits 3) small_primes"

text \<open>The root is exact below 256: its integer part fits in the eight bits above the fraction.\<close>

lemma fraction_bits_root:
  assumes "0 < k" and "p < 256 ^ k"
  obtains r where "fraction_bits k p = of_nat r" and "r ^ k \<le> p * (2 ^ 64) ^ k" and "p * (2 ^ 64) ^ k < Suc r ^ k"
proof -
  let ?n = "p * 2 ^ (64 * k)"
  have "(0::nat) ^ k \<le> ?n" using assms(1) by (simp add: power_0_left)
  moreover have "?n < (0 + 2 ^ 72) ^ k"
  proof -
    have "?n < 256 ^ k * 2 ^ (64 * k)" using assms(2) by simp
    also have "\<dots> = (256 * 2 ^ 64 :: nat) ^ k" by (simp only: power_mult power_mult_distrib)
    finally show ?thesis by simp
  qed
  ultimately show thesis
    using root_bits_bounds [of 0 k ?n 72] that by (simp add: fraction_bits_def power_mult)
qed

section \<open>The round function\<close>

definition rotr :: "nat \<Rightarrow> u64 \<Rightarrow> u64" where
  "rotr n x = drop_bit n x OR push_bit (64 - n) x"

definition sha_round :: "u64 list \<Rightarrow> u64 \<Rightarrow> u64 \<Rightarrow> u64 list" where
  "sha_round st k w =
     (let a = st ! 0; b = st ! 1; c = st ! 2; d = st ! 3;
          e = st ! 4; f = st ! 5; g = st ! 6; h = st ! 7;
          s1 = rotr 14 e XOR rotr 18 e XOR rotr 41 e;
          ch = (e AND f) XOR ((NOT e) AND g);
          t1 = h + s1 + ch + k + w;
          s0 = rotr 28 a XOR rotr 34 a XOR rotr 39 a;
          maj = (a AND b) XOR (a AND c) XOR (b AND c);
          t2 = s0 + maj
      in [t1 + t2, a, b, c, d + t1, e, f, g])"

text \<open>The schedule: the last 16 words slide; each round consumes the oldest and appends one.\<close>

definition sha_next_w :: "u64 list \<Rightarrow> u64" where
  "sha_next_w w = (let x = w ! 1; y = w ! 14 in
     w ! 0 + (rotr 1 x XOR rotr 8 x XOR drop_bit 7 x) + w ! 9
       + (rotr 19 y XOR rotr 61 y XOR drop_bit 6 y))"

fun sha_rounds :: "u64 list \<Rightarrow> u64 list \<Rightarrow> u64 list \<Rightarrow> u64 list" where
  "sha_rounds [] w st = st"
| "sha_rounds (k # ks) w st =
     sha_rounds ks (tl w @ [sha_next_w w]) (sha_round st k (hd w))"

section \<open>Blocks and padding\<close>

definition be_word :: "bytes \<Rightarrow> u64" where
  "be_word bs = of_nat (le_dec (rev bs))"

fun sha_words :: "nat \<Rightarrow> bytes \<Rightarrow> u64 list" where
  "sha_words 0 bs = []"
| "sha_words (Suc n) bs = be_word (take 8 bs) # sha_words n (drop 8 bs)"

definition sha_block :: "u64 list \<Rightarrow> bytes \<Rightarrow> u64 list" where
  "sha_block h blk = map2 (+) h (sha_rounds sha_k (sha_words 16 blk) h)"

fun sha_blocks :: "nat \<Rightarrow> u64 list \<Rightarrow> bytes \<Rightarrow> u64 list" where
  "sha_blocks 0 h bs = h"
| "sha_blocks (Suc n) h bs = sha_blocks n (sha_block h (take 128 bs)) (drop 128 bs)"

definition sha_pad :: "bytes \<Rightarrow> bytes" where
  "sha_pad m = m @ [0x80] @ replicate ((239 - length m mod 128) mod 128) 0
     @ rev (le_enc 16 (8 * length m))"

definition sha512 :: "bytes \<Rightarrow> bytes" where
  "sha512 m = concat (map (\<lambda>w. rev (put_u64 w))
     (sha_blocks (length (sha_pad m) div 128) sha_init (sha_pad m)))"

section \<open>Shape of the digest\<close>

lemma sha_pad_blocks: "length (sha_pad m) mod 128 = 0"
proof -
  define q r where "q = length m div 128" and "r = length m mod 128"
  have m: "length m = 128 * q + r" and r: "r < 128"
    by (simp_all add: q_def r_def)
  have pad: "(239 - r) mod 128 = (if r \<le> 111 then 111 - r else 239 - r)"
  proof (cases "r \<le> 111")
    case True
    then have "239 - r = 128 + (111 - r)" by simp
    with True show ?thesis by (simp only: mod_add_self1 if_True mod_less)
  next
    case False
    with r show ?thesis by simp
  qed
  have "length (sha_pad m) = length m + 17 + (239 - r) mod 128"
    by (simp add: sha_pad_def r_def)
  also have "\<dots> = 128 * (q + (if r \<le> 111 then 1 else 2))"
    unfolding pad m using r by simp
  finally show ?thesis by simp
qed

lemma length_Let: "(\<And>x. length (f x) = n) \<Longrightarrow> length (Let s f) = n"
  by (simp add: Let_def)

lemma length_sha_round [simp]: "length (sha_round st k w) = 8"
  unfolding sha_round_def by (intro length_Let) simp

lemma length_sha_rounds: "length st = 8 \<Longrightarrow> length (sha_rounds ks w st) = 8"
  by (induction ks w st rule: sha_rounds.induct) simp_all

lemma length_sha_block: "length h = 8 \<Longrightarrow> length (sha_block h blk) = 8"
  by (simp add: sha_block_def length_sha_rounds)

lemma length_sha_blocks: "length h = 8 \<Longrightarrow> length (sha_blocks n h bs) = 8"
  by (induction n h bs rule: sha_blocks.induct) (simp_all add: length_sha_block)

lemma length_concat_words: "length (concat (map (\<lambda>w. rev (put_u64 w)) ws)) = 8 * length ws"
  by (induction ws) simp_all

lemma length_sha512 [simp, codec_simps]: "length (sha512 m) = 64"
  by (simp add: sha512_def length_concat_words length_sha_blocks sha_init_def small_primes_def)


end
