(* ===== verification/ChannelBackend.thy ===== *)
theory ChannelBackend
  imports Serialize Sha512
begin

text \<open>
  The channel backend: \<open>channel/utils.go\<close>, \<open>channel/backend.go\<close>, \<open>channel/asset.go\<close> and the
  funding memo of \<open>channel/connector/connection.go\<close>. These are the byte encodings the canister
  must agree with: the signed form of a state, the channel id and the memo of a deposit.
\<close>

section \<open>Encodings\<close>

definition Uint64ToBytes :: "u64 \<Rightarrow> bytes" where
  "Uint64ToBytes i = copy_into 8 (put_u64 i)"

definition BoolToBytes :: "bool \<Rightarrow> bytes" where
  "BoolToBytes b = (if b then [1] else [0])"

text \<open>The loop that swaps the two ends of the slice and moves inwards.\<close>

function swap_ends :: "bytes \<Rightarrow> nat \<Rightarrow> nat \<Rightarrow> bytes" where
  "swap_ends bs i j =
     (if i < j then swap_ends (bs[i := bs ! j, j := bs ! i]) (i + 1) (j - 1) else bs)"
  by pat_completeness auto
termination by (relation "measure (\<lambda>(bs, i, j). j - i)") auto

declare swap_ends.simps [simp del]

definition BigToLittleEndianBytes :: "int \<Rightarrow> bytes" where
  "BigToLittleEndianBytes big =
     (let bigEndianBytes = big_bytes big
      in swap_ends bigEndianBytes 0 (length bigEndianBytes - 1))"

fun balance_bytes :: "u64 list \<Rightarrow> bytes" where
  "balance_bytes [] = []"
| "balance_bytes (a # as) = BigToLittleEndianBytes (uint a) @ balance_bytes as"

text \<open>The same lines of \<open>Sign\<close> and \<open>Verify\<close> build the bytes that are signed.\<close>

definition state_bytes :: "State \<Rightarrow> bytes" where
  "state_bytes stateCan =
     st_channel stateCan @ Uint64ToBytes (st_version stateCan) @
     balance_bytes (st_balances stateCan) @ BoolToBytes (st_final stateCan)"

text \<open>\<open>signData\<close> is the account's method of that name.\<close>

definition Sign ::
  "('a, 'd) goperun \<Rightarrow> (bytes \<Rightarrow> bytes res) \<Rightarrow> 'd pState \<Rightarrow> bytes res" where
  "Sign gp signData state =
     res_bind (StateForChain gp state) (\<lambda>stateCan. signData (state_bytes stateCan))"

text \<open>
  \<open>vs\<close> is go-perun's \<open>wallet.VerifySignature\<close>, which hands the call to the registered wallet
  backend.
\<close>

definition Verify ::
  "('a, 'd) goperun \<Rightarrow> (bytes \<Rightarrow> bytes \<Rightarrow> paddr \<Rightarrow> bool res) \<Rightarrow> paddr \<Rightarrow> 'd pState \<Rightarrow> bytes
     \<Rightarrow> bool res" where
  "Verify gp vs addr state sig =
     res_bind (StateForChain gp state) (\<lambda>stateCan. vs (state_bytes stateCan) sig addr)"

section \<open>Channel identifiers\<close>

text \<open>
  \<open>CalcID\<close> hashes nonce, the first two participants and the challenge duration. An error of
  \<open>NewParams\<close> and a missing participant panic.
\<close>

definition CalcID :: "('a, 'd) goperun \<Rightarrow> 'a pParams \<Rightarrow> bytes res" where
  "CalcID gp params = (case NewParams gp params of
     Ok paramsICP \<Rightarrow>
       (let partsSlices = map (\<lambda>part. copy_into (length part) part) (p_participants paramsICP)
        in res_bind (go_nth partsSlices 0) (\<lambda>part1Bytes.
           res_bind (go_nth partsSlices 1) (\<lambda>part2Bytes.
           let challDurBytes = copy_into 8 (put_u64 (p_challenge paramsICP));
               paramsEnc = p_nonce paramsICP @ part1Bytes @ part2Bytes @ challDurBytes;
               hashSum = sha512 paramsEnc
           in if length hashSum < IDLen then Panic ''nil''
              else Ok (copy_into IDLen (take IDLen hashSum)))))
   | Err e \<Rightarrow> Panic ''NewParams''
   | Panic m \<Rightarrow> Panic m
   | Hang \<Rightarrow> Hang)"

text \<open>The backend's method turns an error of \<open>CalcID\<close> into the zero id.\<close>

definition backend_CalcID :: "('a, 'd) goperun \<Rightarrow> 'a pParams \<Rightarrow> bytes res" where
  "backend_CalcID gp params = (case CalcID gp params of
     Err e \<Rightarrow> Ok (replicate IDLen 0)
   | r \<Rightarrow> r)"

section \<open>The funding memo\<close>

definition Funding_Memo :: "Funding \<Rightarrow> Memo \<times> err option" where
  "Funding_Memo f =
     (let channelAddr = f_channel f @ f_part f;
          fullHash = sha512 channelAddr;
          arr = copy_into 8 (take 8 fullHash)
      in (get_u64 arr, None))"

section \<open>The asset\<close>

text \<open>
  The asset has no fields. A value of go-perun's interface \<open>Asset\<close> is this one or a foreign one.
\<close>

datatype asset = IcAsset | OtherAsset

definition asset_Index :: nat where
  "asset_Index = 0"

definition asset_MarshalBinary :: "bytes res" where
  "asset_MarshalBinary = Ok []"

definition asset_UnmarshalBinary :: "bytes \<Rightarrow> unit res" where
  "asset_UnmarshalBinary data = Ok ()"

primrec asset_Equal :: "asset \<Rightarrow> bool" where
  "asset_Equal IcAsset = True"
| "asset_Equal OtherAsset = False"

definition backend_NewAsset :: asset where
  "backend_NewAsset = IcAsset"

section \<open>Facts\<close>

text \<open>What the swapping loop does to each position.\<close>

lemma length_swap_ends [simp]: "length (swap_ends bs i j) = length bs"
proof (induction bs i j rule: swap_ends.induct)
  case (1 bs i j)
  then show ?case by (subst swap_ends.simps) simp
qed

lemma swap_ends_nth:
  "j < length bs \<Longrightarrow> k < length bs \<Longrightarrow>
     swap_ends bs i j ! k = (if i \<le> k \<and> k \<le> j then bs ! (i + j - k) else bs ! k)"
proof (induction bs i j rule: swap_ends.induct)
  case (1 bs i j)
  show ?case
  proof (cases "i < j")
    case True
    let ?bs = "bs[i := bs ! j, j := bs ! i]"
    have "swap_ends bs i j ! k = swap_ends ?bs (i + 1) (j - 1) ! k"
      using True by (subst swap_ends.simps) simp
    also have "\<dots> = (if i + 1 \<le> k \<and> k \<le> j - 1 then ?bs ! (i + 1 + (j - 1) - k) else ?bs ! k)"
      using 1 True by simp
    also have "\<dots> = (if i \<le> k \<and> k \<le> j then bs ! (i + j - k) else bs ! k)"
      using True "1.prems" by (auto simp: nth_list_update)
    finally show ?thesis .
  next
    case False
    then have "i + j - k = k" if "i \<le> k" "k \<le> j" using that by linarith
    with False show ?thesis by (subst swap_ends.simps) auto
  qed
qed

lemma swap_ends_rev: "swap_ends bs 0 (length bs - 1) = rev bs"
proof (cases "bs = []")
  case True
  then show ?thesis by (simp add: swap_ends.simps)
next
  case False
  then show ?thesis by (intro nth_equalityI) (auto simp: swap_ends_nth rev_nth)
qed

lemma BigToLittleEndianBytes_eq [codec_simps]: "BigToLittleEndianBytes x = nat_le (nat \<bar>x\<bar>)"
  unfolding BigToLittleEndianBytes_def Let_def swap_ends_rev by (simp add: big_bytes_def)

lemma balance_bytes_eq: "balance_bytes ws = concat (map (\<lambda>w. nat_le (unat w)) ws)"
  by (induction ws) (simp_all add: BigToLittleEndianBytes_eq)

lemma Uint64ToBytes_eq [simp, codec_simps]: "Uint64ToBytes i = put_u64 i"
  by (simp add: Uint64ToBytes_def)

lemma BoolToBytes_inject [simp]: "BoolToBytes a = BoolToBytes b \<longleftrightarrow> a = b"
  by (simp add: BoolToBytes_def)

lemma length_BoolToBytes [simp, codec_simps]: "length (BoolToBytes b) = 1"
  by (simp add: BoolToBytes_def)

text \<open>Balances whose encodings have the same widths are determined by the concatenation.\<close>

lemma concat_same_widths:
  "map length xss = map length yss \<Longrightarrow> concat xss = concat yss \<Longrightarrow> xss = yss"
proof (induction xss arbitrary: yss)
  case (Cons xs xss)
  then show ?case by (cases yss) auto
qed simp

lemma concat_widths_length: "map length xss = map length yss \<Longrightarrow> length (concat xss) = length (concat yss)"
  by (simp add: length_concat)

text \<open>Nonces: big-endian bytes at the front of a zeroed array.\<close>

lemma big_bytes_256: "0 < n \<Longrightarrow> big_bytes (256 * n) = big_bytes n @ [0]"
proof -
  assume "0 < n"
  moreover from this have "nat (256 * n) = 256 * nat n" by (simp add: nat_mult_distrib)
  ultimately show ?thesis by (simp add: big_bytes_def nat_le_pos abs_mult)
qed

lemma length_big_bytes: "0 \<le> n \<Longrightarrow> length (big_bytes n) \<le> k \<longleftrightarrow> n < 256 ^ k"
  by (simp add: big_bytes_def length_nat_le nat_less_iff)

lemma big_bytes_inject: "0 \<le> m \<Longrightarrow> 0 \<le> n \<Longrightarrow> big_bytes m = big_bytes n \<longleftrightarrow> m = n"
  by (simp add: big_bytes_def eq_nat_nat_iff)

lemma copy_into_snoc_zero: "length bs < n \<Longrightarrow> copy_into n (bs @ [0]) = copy_into n bs"
  by (simp add: copy_into_def replicate_append_same Suc_diff_Suc flip: replicate_Suc)

lemma length_nonce: "MakeNonce n = Ok a \<Longrightarrow> length a = 32"
  by (simp add: MakeNonce_Ok)

lemma NewParams_Ok:
  "NewParams gp p = Ok c \<Longrightarrow>
     MakeNonce (pp_nonce p) = Ok (p_nonce c) \<and>
     MakeOffIdents (pp_parts p) = Ok (p_participants c) \<and>
     p_challenge c = pp_challenge p"
  by (auto simp: NewParams_def MakeChallengeDuration_def)

lemma take_sha_id: "copy_into IDLen (take IDLen (sha512 m)) = take 32 (sha512 m)"
  by (simp add: IDLen_def)

lemma CalcID_params:
  "NewParams gp p = Ok c \<Longrightarrow>
     CalcID gp p = (case p_participants c of
       a # b # _ \<Rightarrow> Ok (take 32 (sha512 (p_nonce c @ a @ b @ put_u64 (pp_challenge p))))
     | _ \<Rightarrow> Panic ''index out of range'')"
  using NewParams_Ok [of gp p c]
  by (auto simp: CalcID_def Let_def go_nth_def take_sha_id IDLen_def split: list.split)

text \<open>What a successful conversion of a state says, and the bytes of such a state.\<close>

definition valid_row :: "('a, 'd) goperun \<Rightarrow> 'd pState \<Rightarrow> int list \<Rightarrow> bool" where
  "valid_row gp s row \<longleftrightarrow> gp_valid gp s = None \<and> al_assets (ps_alloc s) = 1 \<and>
     al_balances (ps_alloc s) = [row] \<and> al_locked (ps_alloc s) = 0 \<and>
     (\<forall>b. b \<in> set row \<longrightarrow> 0 \<le> b \<and> b \<le> 2 ^ 30)"

definition row_bytes :: "'d pState \<Rightarrow> int list \<Rightarrow> bytes" where
  "row_bytes s row = ps_id s @ put_u64 (ps_version s) @ concat (map (\<lambda>b. nat_le (nat b)) row) @
     (if ps_final s then [1] else [0])"

definition row_state :: "'d pState \<Rightarrow> int list \<Rightarrow> bytes \<Rightarrow> State" where
  "row_state s row data = \<lparr>st_channel = ps_id s, st_version = ps_version s,
     st_balances = map of_int row, st_final = ps_final s, st_data = data\<rparr>"

lemma StateForChain_iff:
  "StateForChain gp s = Ok c \<longleftrightarrow>
     (\<exists>row data. valid_row gp s row \<and> gp_data gp (ps_data s) = Ok data \<and> c = row_state s row data)"
  by (auto simp: StateForChain_def MakeAlloc_Ok valid_row_def row_state_def split: option.splits)

lemma state_bytes_row:
  assumes "valid_row gp s row"
  shows "state_bytes (row_state s row data) = row_bytes s row"
proof -
  have "unat (of_int b :: u64) = nat b" if "b \<in> set row" for b
    using that assms uint_of_small [of b] by (auto simp: valid_row_def unat_eq_nat_uint)
  then have "map (\<lambda>b. nat_le (unat (of_int b :: u64))) row = map (\<lambda>b. nat_le (nat b)) row"
    by simp
  then show ?thesis
    by (simp add: state_bytes_def row_state_def row_bytes_def balance_bytes_eq BoolToBytes_def comp_def cong: map_cong)
qed

section \<open>Properties\<close>

text \<open>
  Property C31 (little_endian_balance): reversing the slice in place by swapping its ends gives
  the little-endian digits of the absolute value: no leading or trailing padding, they read back
  to the value, and their number is the least that can hold it.
\<close>

theorem little_endian_balance:
  "BigToLittleEndianBytes x = rev (big_bytes x) \<and>
   le_dec (BigToLittleEndianBytes x) = nat \<bar>x\<bar> \<and>
   (length (BigToLittleEndianBytes x) \<le> k) = (nat \<bar>x\<bar> < 256 ^ k)"
  unfolding BigToLittleEndianBytes_eq by (simp add: big_bytes_def length_nat_le)

text \<open>
  Property C19 (signed_bytes_injective): two states whose balances have encodings of the same
  widths sign the same bytes only if they agree on channel, version, balances and finality; the
  application data is not part of what is signed.
\<close>

theorem signed_bytes_injective:
  assumes "length (st_channel a) = 32" and "length (st_channel b) = 32"
    and widths: "map (\<lambda>w. length (nat_le (unat w))) (st_balances a) =
                 map (\<lambda>w. length (nat_le (unat w))) (st_balances b)"
  shows "state_bytes a = state_bytes b \<longleftrightarrow>
    st_channel a = st_channel b \<and> st_version a = st_version b \<and>
    st_balances a = st_balances b \<and> st_final a = st_final b"
proof
  assume eq: "state_bytes a = state_bytes b"
  let ?e = "\<lambda>s. map (\<lambda>w. nat_le (unat w)) (st_balances s)"
  have w: "map length (?e a) = map length (?e b)"
    using widths by (simp add: comp_def)
  have "st_channel a = st_channel b \<and> st_version a = st_version b \<and>
    concat (?e a) = concat (?e b) \<and> st_final a = st_final b"
    using eq assms(1,2) concat_widths_length [OF w]
    by (simp add: state_bytes_def balance_bytes_eq append_eq_append_conv)
  moreover from this have "?e a = ?e b"
    using concat_same_widths [OF w] by blast
  then have "st_balances a = st_balances b"
    by (auto dest!: map_injective simp: inj_def word_unat_eq_iff)
  ultimately show "st_channel a = st_channel b \<and> st_version a = st_version b \<and>
    st_balances a = st_balances b \<and> st_final a = st_final b" by blast
qed (simp add: state_bytes_def)

definition state_example :: "u64 list \<Rightarrow> State" where
  "state_example bals = \<lparr>st_channel = replicate 32 7, st_version = 3, st_balances = bals,
     st_final = False, st_data = []\<rparr>"

theorem signed_bytes_injective_witness:
  "state_bytes (state_example [300, 5]) \<noteq> state_bytes (state_example [301, 4])"
proof -
  have "unat (300 :: u64) = 300" "unat (301 :: u64) = 301" "unat (5 :: u64) = 5" "unat (4 :: u64) = 4"
    by simp_all
  then have "map (\<lambda>w. length (nat_le (unat w))) (st_balances (state_example [300, 5])) =
      map (\<lambda>w. length (nat_le (unat w))) (st_balances (state_example [301, 4]))"
    by (simp add: state_example_def nat_le_pos)
  then show ?thesis
    using signed_bytes_injective [of "state_example [300, 5]" "state_example [301, 4]"]
    by (simp add: state_example_def)
qed

definition with_row :: "'d pState \<Rightarrow> int list \<Rightarrow> 'd pState" where
  "with_row s row = s\<lparr>ps_alloc := \<lparr>al_assets = 1, al_balances = [row], al_locked = 0\<rparr>\<rparr>"

text \<open>Two states that convert to states with the same bytes are signed and verified alike.\<close>

lemma swap_zero:
  assumes "gp_valid gp (with_row s [0, n]) = None" and "gp_valid gp (with_row s [n, 0]) = None"
  shows "Sign gp signData (with_row s [0, n]) = Sign gp signData (with_row s [n, 0])"
    and "Verify gp vs addr (with_row s [0, n]) sig = Verify gp vs addr (with_row s [n, 0]) sig"
proof -
  have z: "MakeBalance 0 = Ok 0" by (simp add: MakeBalance_Ok)
  show "Sign gp signData (with_row s [0, n]) = Sign gp signData (with_row s [n, 0])"
    "Verify gp vs addr (with_row s [0, n]) sig = Verify gp vs addr (with_row s [n, 0]) sig"
    using assms z
    by (cases "MakeBalance n"; cases "gp_data gp (ps_data s)";
      simp add: Sign_def Verify_def StateForChain_def MakeAlloc_def with_row_def go_nth_def
        state_bytes_def balance_bytes_eq)+
qed

text \<open>
  Property (swapped_balances_same_signature): a zero balance contributes no bytes, so for two
  participants the states that give everything to the one and everything to the other are signed
  alike: a signature on the first is a signature on the second.
\<close>

theorem swapped_balances_same_signature:
  assumes "gp_valid gp (with_row s [0, n]) = None" and "gp_valid gp (with_row s [n, 0]) = None"
  shows "Sign gp signData (with_row s [0, n]) = Sign gp signData (with_row s [n, 0]) \<and>
    Verify gp vs addr (with_row s [0, n]) sig = Verify gp vs addr (with_row s [n, 0]) sig"
  using swap_zero [OF assms] by blast

definition gp_demo :: "(unit, unit) goperun" where
  "gp_demo = \<lparr>gp_valid = (\<lambda>s. None), gp_data = (\<lambda>d. Ok []), gp_is_no_app = (\<lambda>a. True),
     gp_app_def = (\<lambda>a. OtherAddr (Ok []))\<rparr>"

definition ps_demo :: "unit pState" where
  "ps_demo = \<lparr>ps_id = replicate 32 1, ps_version = 4,
     ps_alloc = \<lparr>al_assets = 1, al_balances = [[1, 514]], al_locked = 0\<rparr>, ps_final = True,
     ps_data = ()\<rparr>"

theorem swapped_balances_same_signature_witness:
  "Sign gp_demo Ok (with_row ps_demo [0, 1000]) = Sign gp_demo Ok (with_row ps_demo [1000, 0]) \<and>
   is_ok (Sign gp_demo Ok (with_row ps_demo [0, 1000]))"
proof -
  have "Sign gp_demo Ok (with_row ps_demo [0, 1000]) = Sign gp_demo Ok (with_row ps_demo [1000, 0])"
    using swapped_balances_same_signature [of gp_demo ps_demo 1000 Ok "\<lambda>m s a. Ok True"]
    by (simp add: gp_demo_def)
  moreover have "is_ok (Sign gp_demo Ok (with_row ps_demo [0, 1000]))"
    by (simp add: Sign_def StateForChain_def gp_demo_def with_row_def MakeAlloc_def go_nth_def
        MakeBalance_def MaxBalance_def)
  ultimately show ?thesis ..
qed

text \<open>
  Property (same_bytes_same_total): different allocations of the same total can also collide
  with no balance zero: 1 and 514 are encoded as 513 and 2 are.
\<close>

theorem same_bytes_same_total:
  "state_bytes (s\<lparr>st_balances := [1, 514]\<rparr>) = state_bytes (s\<lparr>st_balances := [513, 2]\<rparr>) \<and>
   sum_list (map unat [1, 514 :: u64]) = sum_list (map unat [513, 2 :: u64])"
  by (simp add: state_bytes_def balance_bytes_eq nat_le_pos)

text \<open>
  Property (sign_then_verify): a signature made by an account on a state is accepted for that
  account's address and that state, if the curve library accepts its own signatures.
\<close>

theorem sign_then_verify:
  assumes "Sign gp (Account_SignData ed acc) s = Ok sig"
    and lib: "\<And>m sg. ed_sign ed acc m = Ok sg \<Longrightarrow> ed_verify ed (ed_public ed acc) m sg = Ok True"
  shows "Verify gp (VerifySignature ed) (Account_Address ed acc) s sig = Ok True"
  using assms by (auto simp: Sign_def Verify_def Account_SignData_def Account_Address_def VerifySignature_def)

definition ed_plain :: ed25519 where
  "ed_plain = \<lparr>ed_public = (\<lambda>sk. sk), ed_sign = (\<lambda>sk m. Ok (sk @ m)),
     ed_verify = (\<lambda>pk m s. Ok (s = pk @ m)), ed_generate = Ok\<rparr>"

theorem sign_then_verify_witness:
  "\<exists>sig. Sign gp_demo (Account_SignData ed_plain [5]) ps_demo = Ok sig \<and>
     Verify gp_demo (VerifySignature ed_plain) (Account_Address ed_plain [5]) ps_demo sig = Ok True"
proof -
  obtain sig where s: "Sign gp_demo (Account_SignData ed_plain [5]) ps_demo = Ok sig"
    by (simp add: Sign_def StateForChain_def gp_demo_def ps_demo_def MakeAlloc_def go_nth_def
        MakeBalance_def MaxBalance_def Account_SignData_def ed_plain_def)
  from sign_then_verify [OF this] s show ?thesis by (auto simp: ed_plain_def)
qed

text \<open>
  Property (sign_only_valid): a state is signed only if go-perun finds it valid, it has one
  asset, one row of balances and no locked funds, and every balance is between 0 and
  \<open>MaxBalance\<close> = \<open>2 ^ 30\<close>; then what is signed is channel, version, each balance in little endian
  and the finality flag.
\<close>

theorem sign_only_valid:
  "Sign gp signData s = Ok sig \<longleftrightarrow>
    (\<exists>row data. valid_row gp s row \<and> gp_data gp (ps_data s) = Ok data \<and>
       signData (row_bytes s row) = Ok sig)"
proof -
  have "Sign gp signData s = Ok sig \<longleftrightarrow>
      (\<exists>row data. valid_row gp s row \<and> gp_data gp (ps_data s) = Ok data \<and>
         signData (state_bytes (row_state s row data)) = Ok sig)"
    unfolding Sign_def res_bind_eq_Ok StateForChain_iff by blast
  then show ?thesis by (auto simp: state_bytes_row cong: conj_cong)
qed

text \<open>
  Property C21 (calcid_preimage): with well-formed parameters the channel id is the first half of
  the SHA-512 of nonce, first and second participant and challenge duration, 104 bytes in all. It
  has 32 bytes.
\<close>

theorem calcid_preimage:
  assumes "NewParams gp p = Ok c" and "p_participants c = a # b # rest"
  shows "CalcID gp p = Ok (take 32 (sha512 (p_nonce c @ a @ b @ put_u64 (pp_challenge p)))) \<and>
    length (p_nonce c @ a @ b @ put_u64 (pp_challenge p)) = 104 \<and>
    length (take 32 (sha512 (p_nonce c @ a @ b @ put_u64 (pp_challenge p)))) = 32"
proof -
  note c = NewParams_Ok [OF assms(1)]
  have "length a = 32" "length b = 32"
    using MakeOffIdents_32 [of "pp_parts p" "p_participants c"] c assms(2) by auto
  moreover have "length (p_nonce c) = 32" using c length_nonce by blast
  ultimately show ?thesis using CalcID_params [OF assms(1)] assms(2) by simp
qed

definition pp_demo :: "byte \<Rightarrow> unit pParams" where
  "pp_demo b = \<lparr>pp_id = replicate 32 0, pp_challenge = 60,
     pp_parts = [WalletAddr (Address (replicate 32 1)), WalletAddr (Address (replicate 32 b))],
     pp_app = (), pp_nonce = 77\<rparr>"

lemma pp_demo_params:
  "NewParams gp_demo (pp_demo b) = Ok \<lparr>p_nonce = copy_into 32 (big_bytes 77),
     p_participants = [replicate 32 1, replicate 32 b], p_challenge = 60, p_app = replicate 32 0\<rparr>"
  by (simp add: NewParams_def pp_demo_def gp_demo_def MakeOffIdent_wallet MakeNonce_range
      MakeChallengeDuration_def OffIdentityLen_def)

theorem calcid_preimage_witness:
  "CalcID gp_demo (pp_demo 2) =
     Ok (take 32 (sha512 (copy_into 32 (big_bytes 77) @ replicate 32 1 @ replicate 32 2 @ put_u64 60)))"
  using calcid_preimage [OF pp_demo_params [of 2]] by (simp add: pp_demo_def)

text \<open>
  Property (calcid_never_errs): \<open>CalcID\<close> has no error result: it panics if the parameters do
  not convert or fewer than two participants are given, and returns an id otherwise. So the
  backend's method, which maps an error to the zero id, never does so.
\<close>

theorem calcid_never_errs:
  "backend_CalcID gp p = CalcID gp p \<and>
   ((\<exists>i. CalcID gp p = Ok i) = (\<exists>c. NewParams gp p = Ok c \<and> 2 \<le> length (pp_parts p))) \<and>
   ((\<exists>m. CalcID gp p = Panic m) = ((\<exists>e. NewParams gp p = Err e) \<or> is_panic (NewParams gp p) \<or>
      (\<exists>c. NewParams gp p = Ok c \<and> length (pp_parts p) < 2)))"
proof (cases "NewParams gp p")
  case (Ok c)
  then have "length (p_participants c) = length (pp_parts p)"
    using NewParams_Ok [OF Ok] MakeOffIdents_Ok list_all2_lengthD by metis
  then show ?thesis using Ok
    by (auto simp: backend_CalcID_def CalcID_params [OF Ok] split: list.split)
qed (auto simp: backend_CalcID_def CalcID_def)

text \<open>
  Property C32 (nonce_collision): the nonce bytes are put at the front of the array, not at its
  end, so multiplying a nonce by 256 does not change the id of the channel.
\<close>

theorem nonce_collision:
  assumes "0 < n" and "256 * n < 2 ^ 256"
  shows "MakeNonce (256 * n) = MakeNonce n \<and>
    CalcID gp (p\<lparr>pp_nonce := 256 * n\<rparr>) = CalcID gp (p\<lparr>pp_nonce := n\<rparr>)"
proof -
  have "n < 256 ^ 31" using assms(2) by simp
  then have "length (big_bytes n) < 32"
    using length_big_bytes [of n 31] assms(1) by simp
  then have nonce: "MakeNonce (256 * n) = MakeNonce n"
    using assms by (simp add: MakeNonce_range big_bytes_256 copy_into_snoc_zero)
  then have "NewParams gp (p\<lparr>pp_nonce := 256 * n\<rparr>) = NewParams gp (p\<lparr>pp_nonce := n\<rparr>)"
    by (simp add: NewParams_def)
  with nonce show ?thesis
    by (cases "NewParams gp (p\<lparr>pp_nonce := n\<rparr>)") (simp_all add: CalcID_def Let_def)
qed

theorem nonce_collision_witness:
  "CalcID gp_demo ((pp_demo 2)\<lparr>pp_nonce := 256\<rparr>) = CalcID gp_demo ((pp_demo 2)\<lparr>pp_nonce := 1\<rparr>)"
  using nonce_collision [of 1 gp_demo "pp_demo 2"] by simp

text \<open>
  Property (full_nonces_injective): nonces that use all 32 bytes are kept apart, and exactly
  the numbers from 1 to \<open>2 ^ 256 - 1\<close> are accepted at all.
\<close>

theorem full_nonces_injective:
  "(\<exists>a. MakeNonce n = Ok a) = (0 < n \<and> n < 2 ^ 256) \<and>
   (MakeNonce n = MakeNonce m \<and> is_ok (MakeNonce n) \<and> 2 ^ 248 \<le> n \<and> 2 ^ 248 \<le> m) =
     (n = m \<and> 2 ^ 248 \<le> n \<and> n < 2 ^ 256)"
proof -
  have full: "copy_into 32 (big_bytes k) = big_bytes k" if "2 ^ 248 \<le> k" "k < 2 ^ 256" for k
  proof (rule copy_into_id)
    have "0 \<le> k" using that by simp
    then have "\<not> length (big_bytes k) \<le> 31" "length (big_bytes k) \<le> 32"
      using that by (simp_all add: length_big_bytes)
    then show "length (big_bytes k) = 32" by simp
  qed
  have "n = m" if a: "MakeNonce n = MakeNonce m" "is_ok (MakeNonce n)" "2 ^ 248 \<le> n" "2 ^ 248 \<le> m"
  proof -
    have ok: "n < 2 ^ 256" "m < 2 ^ 256"
      using a by (auto simp: MakeNonce_range split: if_splits)
    have "0 < n" "0 < m" using a(3,4) by simp_all
    with ok a(1) have "copy_into 32 (big_bytes n) = copy_into 32 (big_bytes m)"
      by (simp add: MakeNonce_range)
    with full ok a(3,4) have "big_bytes n = big_bytes m" by (simp only:)
    with \<open>0 < n\<close> \<open>0 < m\<close> show ?thesis using big_bytes_inject [of n m] by simp
  qed
  moreover have "is_ok (MakeNonce n) = (0 < n \<and> n < 2 ^ 256)"
    by (simp add: MakeNonce_range)
  moreover have "(\<exists>a. MakeNonce n = Ok a) = (0 < n \<and> n < 2 ^ 256)"
    by (simp add: MakeNonce_range)
  ultimately show ?thesis by auto
qed

text \<open>
  Property (calcid_ignores_app): the application and the participants after the second are
  converted but do not enter the id.
\<close>

theorem calcid_ignores_app:
  assumes "NewParams gp p = Ok c" and "NewParams gp q = Ok d"
    and "pp_nonce p = pp_nonce q" and "pp_challenge p = pp_challenge q"
    and "take 2 (pp_parts p) = take 2 (pp_parts q)" and "2 \<le> length (pp_parts p)"
  shows "CalcID gp p = CalcID gp q"
proof -
  note p = NewParams_Ok [OF assms(1)] and q = NewParams_Ok [OF assms(2)]
  have l: "length (p_participants c) = length (pp_parts p)" "length (p_participants d) = length (pp_parts q)"
    using p q MakeOffIdents_Ok list_all2_lengthD by metis+
  obtain x y xs where xp: "pp_parts p = x # y # xs"
    using assms(6) by (cases "pp_parts p" rule: remdups_adj.cases) auto
  obtain ys where xq: "pp_parts q = x # y # ys"
    using assms(5) xp by (cases "pp_parts q" rule: remdups_adj.cases) auto
  obtain a b cs ds where "p_participants c = a # b # cs" "p_participants d = a # b # ds"
    using p q xp xq by (auto dest!: sym [of "_ # _"])
  then show ?thesis
    using CalcID_params [OF assms(1)] CalcID_params [OF assms(2)] assms(3,4) p q by simp
qed

theorem calcid_ignores_app_witness:
  "CalcID gp_demo (pp_demo 2) =
   CalcID gp_demo ((pp_demo 2)\<lparr>pp_parts := pp_parts (pp_demo 2) @ [WalletAddr (Address (replicate 32 9))]\<rparr>)"
proof (rule calcid_ignores_app [OF pp_demo_params])
  show "NewParams gp_demo ((pp_demo 2)\<lparr>pp_parts := pp_parts (pp_demo 2) @ [WalletAddr (Address (replicate 32 9))]\<rparr>)
    = Ok \<lparr>p_nonce = copy_into 32 (big_bytes 77),
     p_participants = [replicate 32 1, replicate 32 2, replicate 32 9], p_challenge = 60, p_app = replicate 32 0\<rparr>"
    by (simp add: NewParams_def pp_demo_def gp_demo_def MakeOffIdent_wallet MakeNonce_range
      MakeChallengeDuration_def OffIdentityLen_def)
qed (simp_all add: pp_demo_def)

text \<open>
  Property (memo_first_bytes): the memo of a deposit is the first eight bytes of the hash of
  channel id and participant, read in little endian; it never fails.
\<close>

theorem memo_first_bytes:
  "put_u64 (fst (Funding_Memo f)) = take 8 (sha512 (f_channel f @ f_part f)) \<and>
   snd (Funding_Memo f) = None"
proof -
  let ?h = "take 8 (sha512 (f_channel f @ f_part f))"
  have l: "length ?h = 8" by simp
  then have "le_dec ?h mod 256 ^ 8 = le_dec ?h"
    using le_dec_enc [of 8 "le_dec ?h"] le_enc_dec [of ?h] by simp
  then have "unat (of_nat (le_dec ?h) :: u64) = le_dec ?h"
    by (simp add: unat_of_nat)
  then have "put_u64 (get_u64 ?h) = ?h"
    using le_enc_dec [of ?h] l by (simp add: get_u64_def put_u64_def)
  then show ?thesis using l by (simp add: Funding_Memo_def Let_def)
qed

end
