(* ===== verification/Registration.thy ===== *)
theory Registration
  imports Wire ChannelBackend
begin

text \<open>
  What the packages hand to go-perun when the program starts: \<open>init\<close> of \<open>channel/init.go\<close>,
  \<open>wallet/backend.go\<close> and \<open>wire/init.go\<close>. go-perun's registries are not part of the repository; the
  model is the functions that are registered, one record per registry. go-perun decodes an address
  by calling the registered constructor and then \<open>UnmarshalBinary\<close> on what it returns.
\<close>

section \<open>Methods through an embedded pointer\<close>

text \<open>
  \<open>wire.Address\<close> has the methods of the \<open>*wallet.Address\<close> it embeds. On a nil pointer (None) they
  run until they read or write what it points to.
\<close>

definition wire_MarshalBinary :: "address option \<Rightarrow> bytes res" where
  "wire_MarshalBinary a = (case a of
     None \<Rightarrow> Panic ''nil pointer dereference''
   | Some x \<Rightarrow> Address_MarshalBinary x)"

definition wire_UnmarshalBinary :: "address option \<Rightarrow> bytes \<Rightarrow> address option res" where
  "wire_UnmarshalBinary a data = (case a of
     Some x \<Rightarrow> res_bind (Address_UnmarshalBinary data) (\<lambda>y. Ok (Some y))
   | None \<Rightarrow> (case Address_UnmarshalBinary data of
       Ok _ \<Rightarrow> Panic ''nil pointer dereference''
     | Err e \<Rightarrow> Err e
     | Panic m \<Rightarrow> Panic m
     | Hang \<Rightarrow> Hang))"

section \<open>The registered functions\<close>

record ('a, 'd) channel_backend =
  cb_CalcID :: "'a pParams \<Rightarrow> bytes res"
  cb_Sign :: "(bytes \<Rightarrow> bytes res) \<Rightarrow> 'd pState \<Rightarrow> bytes res"
  cb_Verify :: "paddr \<Rightarrow> 'd pState \<Rightarrow> bytes \<Rightarrow> bool res"
  cb_NewAsset :: asset

record wallet_backend =
  wb_NewAddress :: address
  wb_DecodeSig :: "bytes \<Rightarrow> (bytes \<times> bytes) res"
  wb_VerifySignature :: "bytes \<Rightarrow> bytes \<Rightarrow> paddr \<Rightarrow> bool res"

record 'rng wire_hooks =
  wh_NewAddress :: "unit \<Rightarrow> address option"
  wh_NewRandomAddress :: "'rng \<Rightarrow> address option option res"
  wh_NewRandomAccount :: "'rng \<Rightarrow> wire_account res"

definition wallet_init :: "ed25519 \<Rightarrow> wallet_backend" where
  "wallet_init ed = \<lparr>wb_NewAddress = Backend_NewAddress, wb_DecodeSig = DecodeSig,
     wb_VerifySignature = VerifySignature ed\<rparr>"

text \<open>\<open>wb\<close> is the wallet backend that is registered when states are verified.\<close>

definition channel_init :: "('a, 'd) goperun \<Rightarrow> wallet_backend \<Rightarrow> ('a, 'd) channel_backend" where
  "channel_init gp wb = \<lparr>cb_CalcID = backend_CalcID gp, cb_Sign = Sign gp,
     cb_Verify = Verify gp (wb_VerifySignature wb), cb_NewAsset = backend_NewAsset\<rparr>"

definition wire_init :: "ed25519 \<Rightarrow> bytes \<Rightarrow> (string \<rightharpoonup> bytes) \<Rightarrow> 'rng wire_hooks" where
  "wire_init ed crand dsk = \<lparr>wh_NewAddress = (\<lambda>_. wire_NewAddress),
     wh_NewRandomAddress = (\<lambda>rng. wire_NewRandomAddress ed rng crand dsk),
     wh_NewRandomAccount = (\<lambda>rng. wire_NewRandomAccount ed rng crand dsk)\<rparr>"

section \<open>Facts\<close>

lemma unmarshal_32: "length data = 32 \<Longrightarrow> Address_UnmarshalBinary data = Ok (Address data)"
  by (simp add: Address_UnmarshalBinary_def PublicKeySize_def copy_into_def)



end
