(* ===== verification/KeyStore.thy ===== *)
theory KeyStore
  imports FsWallet
begin

text \<open>
  What the wallet of \<open>wallet/wallet.go\<close> promises, as an abstract key store: the open accounts with
  their use counts and whether they are unlocked, the number of the next account, and what a
  restart will find. There are no nonces, no heap, no file format. The refinement runs the same
  calls, restarts included, on both and compares every answer.
\<close>

section \<open>The abstract key store\<close>

record keystore =
  ks_live :: "bytes \<rightharpoonup> nat \<times> bool"
  ks_next :: nat
  ks_saved :: "bytes \<rightharpoonup> nat"
  ks_saved_next :: nat

datatype kcall = CNew | CUnlock bytes | CLock | CUse bytes | CRelease bytes | CRestart

text \<open>An answer names the account whose private key was handed out.\<close>

datatype kans = KKey bytes | KDone | KNoAccount | KPanic

definition ks_empty :: keystore where
  "ks_empty = \<lparr>ks_live = Map.empty, ks_next = 0, ks_saved = Map.empty, ks_saved_next = 0\<rparr>"

definition ks_commit :: "keystore \<Rightarrow> keystore" where
  "ks_commit s = s\<lparr>ks_saved := (\<lambda>k. map_option fst (ks_live s k)), ks_saved_next := ks_next s\<rparr>"

primrec ks_call :: "(nat \<Rightarrow> bytes) \<Rightarrow> kcall \<Rightarrow> keystore \<Rightarrow> kans \<times> keystore" where
  "ks_call key CNew s =
     (KKey (key (ks_next s)),
      s\<lparr>ks_live := (ks_live s)(key (ks_next s) \<mapsto> (0, True)), ks_next := Suc (ks_next s)\<rparr>)"
| "ks_call key (CUnlock k) s = (case ks_live s k of
     None \<Rightarrow> (KNoAccount, s)
   | Some (n, u) \<Rightarrow> (KKey k, s\<lparr>ks_live := (ks_live s)(k \<mapsto> (n, True))\<rparr>))"
| "ks_call key CLock s =
     (KDone, s\<lparr>ks_live := (\<lambda>k. map_option (\<lambda>(n, u). (n, False)) (ks_live s k))\<rparr>)"
| "ks_call key (CUse k) s = (case ks_live s k of
     None \<Rightarrow> (KPanic, s)
   | Some (n, u) \<Rightarrow> (KDone, ks_commit (s\<lparr>ks_live := (ks_live s)(k \<mapsto> (Suc n, u))\<rparr>)))"
| "ks_call key (CRelease k) s = (case ks_live s k of
     None \<Rightarrow> (KPanic, s)
   | Some (0, u) \<Rightarrow> (KPanic, s)
   | Some (Suc n, u) \<Rightarrow>
       (KDone, ks_commit (s\<lparr>ks_live := (ks_live s)(k := if n = 0 then None else Some (n, u))\<rparr>)))"
| "ks_call key CRestart s =
     (KDone, s\<lparr>ks_live := (\<lambda>k. map_option (\<lambda>n. (n, False)) (ks_saved s k)), ks_next := ks_saved_next s\<rparr>)"

fun ks_run :: "(nat \<Rightarrow> bytes) \<Rightarrow> kcall list \<Rightarrow> keystore \<Rightarrow> kans list" where
  "ks_run key [] s = []"
| "ks_run key (c # cs) s = (let (a, s') = ks_call key c s in a # ks_run key cs s')"

section \<open>The same calls on the wallet\<close>

text \<open>
  A panic is recovered by the caller and the wallet used further; a restart opens the wallet's
  file in a new process.
\<close>

definition handed_out :: "ed25519 \<Rightarrow> nat res \<times> wallet \<Rightarrow> kans" where
  "handed_out ed r = (case r of
     (Ok l, w) \<Rightarrow> (case heap w l of Some sk \<Rightarrow> KKey (ed_public ed sk) | None \<Rightarrow> KPanic)
   | (Err e, w) \<Rightarrow> KNoAccount
   | _ \<Rightarrow> KPanic)"

definition done_ans :: "unit res \<Rightarrow> kans" where
  "done_ans r = (case r of Ok _ \<Rightarrow> KDone | _ \<Rightarrow> KPanic)"

primrec wallet_call :: "ed25519 \<Rightarrow> wenv \<Rightarrow> kcall \<Rightarrow> wallet \<Rightarrow> kans \<times> wallet" where
  "wallet_call ed env CNew w = (let r = NewAccount ed w in (handed_out ed r, snd r))"
| "wallet_call ed env (CUnlock k) w =
     (let r = Unlock ed (WalletAddr (Address k)) w in (handed_out ed r, snd r))"
| "wallet_call ed env CLock w = (KDone, LockAll env w)"
| "wallet_call ed env (CUse k) w =
     (let r = IncrementUsage env (WalletAddr (Address k)) w in (done_ans (fst r), snd r))"
| "wallet_call ed env (CRelease k) w =
     (let r = DecrementUsage env (WalletAddr (Address k)) w in (done_ans (fst r), snd r))"
| "wallet_call ed env CRestart w =
     (case CreateOrLoadFsWallet env (wfile w) [] (disk w) of Ok v \<Rightarrow> (KDone, v) | _ \<Rightarrow> (KPanic, w))"

fun wallet_run :: "ed25519 \<Rightarrow> wenv \<Rightarrow> kcall list \<Rightarrow> wallet \<Rightarrow> kans list" where
  "wallet_run ed env [] w = []"
| "wallet_run ed env (c # cs) w = (let (a, w') = wallet_call ed env c w in a # wallet_run ed env cs w')"

section \<open>The simulation relation\<close>

definition view :: "wallet \<Rightarrow> bytes \<rightharpoonup> nat \<times> bool" where
  "view w k = map_option (\<lambda>e. (unat (useCount e), acc e \<noteq> None)) (openAccs w k)"

text \<open>
  The wallet's setting: its seed, its path, a curve that makes the keys \<open>key n\<close> from the seed, and
  a map order that enumerates the maps of such keys.
\<close>

record ksetting =
  st_ed :: ed25519
  st_ord :: "(bytes \<rightharpoonup> openAcc) \<Rightarrow> bytes list"
  st_seed :: bytes
  st_path :: string
  st_key :: "nat \<Rightarrow> bytes"
  st_bound :: nat

definition st_env :: "ksetting \<Rightarrow> wenv" where
  "st_env S = reliable (st_ord S)"

definition setting_ok :: "ksetting \<Rightarrow> bool" where
  "setting_ok S \<longleftrightarrow> st_bound S < 4294967295 \<and> length (st_seed S) = 24 \<and> st_path S \<noteq> '''' \<and>
     (\<forall>n. n < st_bound S \<longrightarrow> (\<exists>sk. ed_generate (st_ed S) (st_seed S @ put_u64 (of_nat n)) = Ok sk \<and>
        ed_public (st_ed S) sk = st_key S n \<and> length (st_key S n) = PublicKeySize)) \<and>
     (\<forall>m. dom m \<subseteq> st_key S ` {..<st_bound S} \<longrightarrow> valid_order (st_env S) m)"

text \<open>Live part and restart part of the relation; \<open>b\<close> bounds the counters so far.\<close>

definition live_rel :: "ksetting \<Rightarrow> nat \<Rightarrow> wallet \<Rightarrow> (bytes \<rightharpoonup> nat \<times> bool) \<Rightarrow> nat \<Rightarrow> bool" where
  "live_rel S b w m n \<longleftrightarrow> wallet_inv (st_ed S) w \<and> wfile w = st_path S \<and> seed w = st_seed S \<and>
     view w = m \<and> unat (latestAcc w) = n \<and> n \<le> b \<and> dom m \<subseteq> st_key S ` {..<n} \<and>
     (\<forall>k c u. m k = Some (c, u) \<longrightarrow> c \<le> b)"

definition sim :: "ksetting \<Rightarrow> nat \<Rightarrow> wallet \<Rightarrow> keystore \<Rightarrow> bool" where
  "sim S b w s \<longleftrightarrow> live_rel S b w (ks_live s) (ks_next s) \<and>
     (\<exists>v. CreateOrLoadFsWallet (st_env S) (st_path S) [] (disk w) = Ok v \<and> disk v = disk w \<and>
        live_rel S b v (\<lambda>k. map_option (\<lambda>c. (c, False)) (ks_saved s k)) (ks_saved_next s))"

lemma setting_key:
  "setting_ok S \<Longrightarrow> n < st_bound S \<Longrightarrow>
     \<exists>sk. ed_generate (st_ed S) (st_seed S @ put_u64 (of_nat n)) = Ok sk \<and>
       ed_public (st_ed S) sk = st_key S n \<and> length (st_key S n) = PublicKeySize"
  by (simp add: setting_ok_def)

lemma live_rel_mono: "live_rel S b w m n \<Longrightarrow> b \<le> b' \<Longrightarrow> live_rel S b' w m n"
  by (fastforce simp: live_rel_def)

lemma view_disk [simp]: "view (w\<lparr>disk := d\<rparr>) = view w"
  by (simp add: view_def fun_eq_iff)

lemma live_rel_disk [simp]: "live_rel S b (w\<lparr>disk := d\<rparr>) m n = live_rel S b w m n"
  by (simp add: live_rel_def)

lemma dom_view: "dom (view w) = dom (openAccs w)"
  by (auto simp: view_def)

lemma view_None: "view w k = None \<longleftrightarrow> openAccs w k = None"
  by (simp add: view_def)

lemma live_order:
  assumes "setting_ok S" and "live_rel S b w m n" and "b \<le> st_bound S"
  shows "valid_order (st_env S) (openAccs w)"
proof -
  have "dom (openAccs w) \<subseteq> st_key S ` {..<n}" and "n \<le> st_bound S"
    using assms(2,3) by (auto simp: live_rel_def dom_view [symmetric])
  then have "dom (openAccs w) \<subseteq> st_key S ` {..<st_bound S}" by fastforce
  with assms(1) show ?thesis by (simp add: setting_ok_def)
qed

lemma live_storable:
  assumes "setting_ok S" and "live_rel S b w m n" and "b \<le> st_bound S"
  shows "storable (st_env S) w"
proof -
  have ord: "valid_order (st_env S) (openAccs w)" using assms by (rule live_order)
  have dm: "dom (openAccs w) \<subseteq> st_key S ` {..<n}" and n: "n \<le> b" and sd: "seed w = st_seed S"
    using assms(2) by (auto simp: live_rel_def dom_view [symmetric])
  have "length (map_order (st_env S) (openAccs w)) = card (dom (openAccs w))"
    using ord by (metis valid_order_def distinct_card)
  also have "\<dots> \<le> card (st_key S ` {..<n})" using dm by (intro card_mono) auto
  also have "\<dots> \<le> n" using card_image_le [of "{..<n}" "st_key S"] by simp
  finally have "length (map_order (st_env S) (openAccs w)) < 4294967296"
    using n assms(1,3) by (simp add: setting_ok_def)
  moreover have "length k = PublicKeySize" if "k \<in> dom (openAccs w)" for k
  proof -
    from that dm obtain i where "i < n" "k = st_key S i" by auto
    with n assms(3) setting_key [OF assms(1), of i] show ?thesis by auto
  qed
  ultimately show ?thesis
    using ord sd assms(1) by (simp add: storable_def setting_ok_def)
qed

lemma sim_commit:
  assumes "setting_ok S" and "live_rel S b w (ks_live s) (ks_next s)" and "b \<le> st_bound S"
  shows "\<exists>w'. save (st_env S) w = (Ok (), w') \<and> sim S b w' (ks_commit s)"
proof -
  let ?E = "st_env S"
  let ?d = "(disk w)(st_path S \<mapsto> wallet_bytes ?E w)"
  let ?v = "(new_wallet (st_path S) (seed w) ?d)\<lparr>latestAcc := latestAcc w, openAccs := locked (openAccs w)\<rparr>"
  have st: "storable ?E w" using assms by (rule live_storable)
  have path: "wfile w = st_path S" "st_path S \<noteq> ''''"
    using assms(1,2) by (simp_all add: setting_ok_def live_rel_def)
  have "view ?v = (\<lambda>k. map_option (\<lambda>c. (c, False)) (map_option fst (view w k)))"
    by (simp add: view_def fun_eq_iff locked_def loaded_def option.map_comp o_def)
  then have "live_rel S b ?v (\<lambda>k. map_option (\<lambda>c. (c, False)) (ks_saved (ks_commit s) k)) (ks_saved_next (ks_commit s))"
    using assms(2) locked_inv [of "st_ed S" w "st_path S" ?d]
    by (fastforce simp: live_rel_def ks_commit_def new_wallet_def)
  moreover have "CreateOrLoadFsWallet ?E (st_path S) [] ?d = Ok ?v"
    using reopen_eq [OF st] by simp
  moreover have "save ?E w = (Ok (), w\<lparr>disk := ?d\<rparr>)"
    using path by (simp add: save_def st_env_def reliable_def)
  ultimately show ?thesis
    using assms(2) by (simp add: sim_def ks_commit_def new_wallet_def)
qed

text \<open>Operations that do not write leave the restart part alone.\<close>

lemma sim_live:
  "sim S b w s \<Longrightarrow> disk w' = disk w \<Longrightarrow> b \<le> b' \<Longrightarrow>
     ks_saved s' = ks_saved s \<Longrightarrow> ks_saved_next s' = ks_saved_next s \<Longrightarrow>
     live_rel S b' w' (ks_live s') (ks_next s') \<Longrightarrow> sim S b' w' s'"
  by (auto simp: sim_def intro: live_rel_mono)

lemma sim_mono: "sim S b w s \<Longrightarrow> b \<le> b' \<Longrightarrow> sim S b' w s"
  by (auto simp: sim_def intro: live_rel_mono)

section \<open>Each call\<close>

lemma new_account_eq:
  assumes "setting_ok S" and "live_rel S b w m n" and "b < st_bound S"
  obtains sk where "ed_public (st_ed S) sk = st_key S n"
    and "NewAccount (st_ed S) w = (Ok (next_loc w),
      w\<lparr>heap := (heap w)(next_loc w \<mapsto> sk), next_loc := Suc (next_loc w),
        openAccs := (openAccs w)(st_key S n \<mapsto> \<lparr>nonce = latestAcc w, useCount = 0, acc = Some (next_loc w)\<rparr>),
        latestAcc := latestAcc w + 1\<rparr>)"
proof -
  have "n < st_bound S" and n: "of_nat n = latestAcc w" and sd: "seed w = st_seed S"
    using assms(2,3) by (auto simp: live_rel_def)
  then obtain sk where "ed_generate (st_ed S) (st_seed S @ put_u64 (latestAcc w)) = Ok sk"
    and "ed_public (st_ed S) sk = st_key S n"
    using setting_key [OF assms(1)] by force
  with that show thesis
    by (simp add: NewAccount_def genAcc_def sd alloc_key_def Account_L2Address_def Let_def)
qed

lemma sim_new:
  assumes "setting_ok S" and "sim S b w s" and "b < st_bound S"
  shows "\<exists>w'. wallet_call (st_ed S) (st_env S) CNew w = (KKey (st_key S (ks_next s)), w') \<and>
    sim S (Suc b) w' (snd (ks_call (st_key S) CNew s))"
proof -
  have live: "live_rel S b w (ks_live s) (ks_next s)" using assms(2) by (simp add: sim_def)
  obtain sk where sk: "ed_public (st_ed S) sk = st_key S (ks_next s)"
    and eq: "NewAccount (st_ed S) w = (Ok (next_loc w),
      w\<lparr>heap := (heap w)(next_loc w \<mapsto> sk), next_loc := Suc (next_loc w),
        openAccs := (openAccs w)(st_key S (ks_next s) \<mapsto>
          \<lparr>nonce = latestAcc w, useCount = 0, acc = Some (next_loc w)\<rparr>),
        latestAcc := latestAcc w + 1\<rparr>)"
    using new_account_eq [OF assms(1) live assms(3)] by blast
  have small: "unat (latestAcc w) < 4294967295"
    using live assms(1,3) by (simp add: live_rel_def setting_ok_def)
  then have inc: "unat (latestAcc w + 1) = Suc (unat (latestAcc w))"
    by (simp add: unat_word_ariths)
  then have "latestAcc w \<noteq> - 1" by auto
  then have "wallet_inv (st_ed S) (snd (NewAccount (st_ed S) w))"
    using live by (intro NewAccount_inv) (simp_all add: live_rel_def)
  moreover have "view (snd (NewAccount (st_ed S) w)) = (view w)(st_key S (ks_next s) \<mapsto> (0, True))"
    by (simp add: eq view_def fun_eq_iff)
  ultimately have "live_rel S (Suc b) (snd (NewAccount (st_ed S) w))
      ((ks_live s)(st_key S (ks_next s) \<mapsto> (0, True))) (Suc (ks_next s))"
    using live inc by (fastforce simp: live_rel_def eq lessThan_Suc)
  then have "sim S (Suc b) (snd (NewAccount (st_ed S) w)) (snd (ks_call (st_key S) CNew s))"
    by (intro sim_live [OF assms(2)]) (simp_all add: eq)
  then show ?thesis by (simp add: handed_out_def eq sk Let_def)
qed

lemma Unlock_fields:
  "Unlock ed (WalletAddr (Address k)) w = (Ok l, w') \<Longrightarrow> openAccs w k = Some e \<Longrightarrow>
     view w' = (view w)(k \<mapsto> (unat (useCount e), True)) \<and> disk w' = disk w \<and> wfile w' = wfile w \<and>
     seed w' = seed w \<and> latestAcc w' = latestAcc w"
  by (auto simp: Unlock_def alloc_key_def Let_def view_def fun_eq_iff split: option.splits res.splits)

lemma sim_unlock:
  assumes "sim S b w s"
  shows "\<exists>w'. wallet_call (st_ed S) env (CUnlock k) w = (fst (ks_call (st_key S) (CUnlock k) s), w') \<and>
    sim S (Suc b) w' (snd (ks_call (st_key S) (CUnlock k) s))"
proof -
  have live: "live_rel S b w (ks_live s) (ks_next s)" using assms by (simp add: sim_def)
  then have inv: "wallet_inv (st_ed S) w" and v: "view w = ks_live s" by (simp_all add: live_rel_def)
  show ?thesis
  proof (cases "openAccs w k")
    case None
    then have "ks_live s k = None" by (simp add: v [symmetric] view_None)
    with None assms show ?thesis
      by (auto simp: Unlock_missing handed_out_def Let_def intro: sim_mono)
  next
    case (Some e)
    then obtain l sk w' where u: "Unlock (st_ed S) (WalletAddr (Address k)) w = (Ok l, w')"
      and h: "heap w' l = Some sk" "ed_public (st_ed S) sk = k"
      using Unlock_open [OF inv] by metis
    have f: "view w' = (view w)(k \<mapsto> (unat (useCount e), True))" "disk w' = disk w" "wfile w' = wfile w"
      "seed w' = seed w" "latestAcc w' = latestAcc w"
      using Unlock_fields [OF u Some] by simp_all
    have m: "ks_live s k = Some (unat (useCount e), acc e \<noteq> None)"
      using Some by (simp add: v [symmetric] view_def)
    have "wallet_inv (st_ed S) w'" using Unlock_inv [OF inv, of "WalletAddr (Address k)"] u by simp
    then have "live_rel S (Suc b) w' ((ks_live s)(k \<mapsto> (unat (useCount e), True))) (ks_next s)"
      using live f m by (fastforce simp: live_rel_def)
    then have "sim S (Suc b) w' (s\<lparr>ks_live := (ks_live s)(k \<mapsto> (unat (useCount e), True))\<rparr>)"
      using f(2) by (intro sim_live [OF assms]) simp_all
    then show ?thesis by (simp add: u h m handed_out_def Let_def)
  qed
qed

lemma fold_lock_fields:
  "disk (fold lock_key ks w) = disk w \<and> wfile (fold lock_key ks w) = wfile w \<and>
     latestAcc (fold lock_key ks w) = latestAcc w"
  by (induction ks arbitrary: w) (auto simp: lock_key_def split: option.splits)

lemma sim_lock:
  assumes "setting_ok S" and "sim S b w s" and "b < st_bound S"
  shows "sim S (Suc b) (LockAll (st_env S) w) (snd (ks_call (st_key S) CLock s))"
proof -
  have live: "live_rel S b w (ks_live s) (ks_next s)" using assms(2) by (simp add: sim_def)
  then have m: "ks_live s = view w" by (simp add: live_rel_def)
  have "valid_order (st_env S) (openAccs w)"
    using live_order [OF assms(1) live] assms(3) by simp
  then have "view (LockAll (st_env S) w) = (\<lambda>k. map_option (\<lambda>(n, u). (n, False)) (ks_live s k))"
    using m by (simp add: view_def LockAll_openAccs option.map_comp o_def fun_eq_iff)
  moreover have "wallet_inv (st_ed S) (LockAll (st_env S) w)"
    using live by (simp add: live_rel_def LockAll_inv)
  moreover have f: "disk (LockAll (st_env S) w) = disk w" "wfile (LockAll (st_env S) w) = wfile w"
    "latestAcc (LockAll (st_env S) w) = latestAcc w"
    by (simp_all add: LockAll_def fold_lock_fields)
  ultimately have "live_rel S (Suc b) (LockAll (st_env S) w)
      (\<lambda>k. map_option (\<lambda>(n, u). (n, False)) (ks_live s k)) (ks_next s)"
    using live by (fastforce simp: live_rel_def)
  then show ?thesis
    using f(1) by (intro sim_live [OF assms(2)]) simp_all
qed

text \<open>A counted write: the count of one account changes, or the account goes, and all is saved.\<close>

lemma live_put:
  assumes "live_rel S b w m n" and "m k = Some (c, u)" and "unat d \<le> Suc b" and "openAccs w k = Some e"
  shows "live_rel S (Suc b) (w\<lparr>openAccs := (openAccs w)(k \<mapsto> e\<lparr>useCount := d\<rparr>)\<rparr>) (m(k \<mapsto> (unat d, u))) n"
proof -
  have "view (w\<lparr>openAccs := (openAccs w)(k \<mapsto> e\<lparr>useCount := d\<rparr>)\<rparr>) = m(k \<mapsto> (unat d, u))"
  proof -
    have "m = view w" using assms(1) by (simp add: live_rel_def)
    then show ?thesis using assms(2,4) by (auto simp: view_def fun_eq_iff)
  qed
  with assms show ?thesis
    by (fastforce simp: live_rel_def intro: wallet_inv_count split: if_splits)
qed

lemma live_drop:
  assumes "live_rel S b w m n" and "openAccs w k = Some e"
  shows "live_rel S (Suc b) (w\<lparr>heap := clear_acc (acc e) (heap w), openAccs := (openAccs w)(k := None)\<rparr>)
    (m(k := None)) n"
proof -
  have "view (w\<lparr>heap := clear_acc (acc e) (heap w), openAccs := (openAccs w)(k := None)\<rparr>) = m(k := None)"
    using assms(1) by (auto simp: live_rel_def view_def fun_eq_iff)
  moreover have "wallet_inv (st_ed S) (w\<lparr>heap := clear_acc (acc e) (heap w), openAccs := (openAccs w)(k := None)\<rparr>)"
    using assms by (intro wallet_inv_clear) (simp_all add: live_rel_def)
  ultimately show ?thesis using assms(1) by (fastforce simp: live_rel_def split: if_splits)
qed

lemma sim_use:
  assumes "setting_ok S" and "sim S b w s" and "b < st_bound S"
  shows "\<exists>w'. wallet_call (st_ed S) (st_env S) (CUse k) w = (fst (ks_call (st_key S) (CUse k) s), w') \<and>
    sim S (Suc b) w' (snd (ks_call (st_key S) (CUse k) s))"
proof -
  have live: "live_rel S b w (ks_live s) (ks_next s)" using assms(2) by (simp add: sim_def)
  then have v: "ks_live s = view w" by (simp add: live_rel_def)
  show ?thesis
  proof (cases "openAccs w k")
    case None
    with assms(2) show ?thesis
      by (auto simp: v view_def IncrementUsage_def done_ans_def Let_def intro: sim_mono)
  next
    case (Some e)
    then have m: "ks_live s k = Some (unat (useCount e), acc e \<noteq> None)" by (simp add: v view_def)
    then have le: "unat (useCount e) \<le> b" using live by (auto simp: live_rel_def)
    then have inc: "unat (useCount e + 1) = Suc (unat (useCount e))"
      using assms(1,3) by (intro unat_Suc_u32) (simp add: setting_ok_def)
    let ?w = "w\<lparr>openAccs := (openAccs w)(k \<mapsto> e\<lparr>useCount := useCount e + 1\<rparr>)\<rparr>"
    let ?s = "s\<lparr>ks_live := (ks_live s)(k \<mapsto> (Suc (unat (useCount e)), acc e \<noteq> None))\<rparr>"
    have "live_rel S (Suc b) ?w (ks_live ?s) (ks_next ?s)"
      using live_put [OF live m _ Some, of "useCount e + 1"] le inc by simp
    then obtain w' where "save (st_env S) ?w = (Ok (), w')" "sim S (Suc b) w' (ks_commit ?s)"
      using sim_commit [OF assms(1), of "Suc b" ?w ?s] assms(3) by auto
    then show ?thesis
      using Some by (simp add: m IncrementUsage_def done_ans_def Let_def)
  qed
qed

lemma sim_release:
  assumes "setting_ok S" and "sim S b w s" and "b < st_bound S"
  shows "\<exists>w'. wallet_call (st_ed S) (st_env S) (CRelease k) w = (fst (ks_call (st_key S) (CRelease k) s), w') \<and>
    sim S (Suc b) w' (snd (ks_call (st_key S) (CRelease k) s))"
proof -
  have live: "live_rel S b w (ks_live s) (ks_next s)" using assms(2) by (simp add: sim_def)
  then have v: "ks_live s = view w" by (simp add: live_rel_def)
  show ?thesis
  proof (cases "openAccs w k")
    case None
    with assms(2) show ?thesis
      by (auto simp: v view_def DecrementUsage_def done_ans_def Let_def intro: sim_mono)
  next
    case (Some e)
    then have m: "ks_live s k = Some (unat (useCount e), acc e \<noteq> None)" by (simp add: v view_def)
    show ?thesis
    proof (cases "unat (useCount e)")
      case 0
      then have "useCount e = 0" by (simp add: unat_eq_zero)
      with Some m assms(2) show ?thesis
        by (auto simp: DecrementUsage_def done_ans_def Let_def intro: sim_mono)
    next
      case (Suc c)
      then have pos: "useCount e \<noteq> 0" and dec: "unat (useCount e - 1) = c"
        using unat_pred_u32 by auto
      have z: "useCount e - 1 = 0 \<longleftrightarrow> c = 0" using dec by (metis unat_0 unat_eq_zero)
      have le: "c \<le> Suc b" using live m Suc by (fastforce simp: live_rel_def)
      let ?w = "if c = 0 then w\<lparr>heap := clear_acc (acc e) (heap w), openAccs := (openAccs w)(k := None)\<rparr>
        else w\<lparr>openAccs := (openAccs w)(k \<mapsto> e\<lparr>useCount := useCount e - 1\<rparr>)\<rparr>"
      let ?s = "s\<lparr>ks_live := (ks_live s)(k := if c = 0 then None else Some (c, acc e \<noteq> None))\<rparr>"
      have "live_rel S (Suc b) ?w (ks_live ?s) (ks_next ?s)"
        using live_put [OF live m _ Some, of "useCount e - 1"] live_drop [OF live Some] dec le by auto
      then obtain w' where "save (st_env S) ?w = (Ok (), w')" "sim S (Suc b) w' (ks_commit ?s)"
        using sim_commit [OF assms(1), of "Suc b" ?w ?s] assms(3) by auto
      then show ?thesis
        using Some pos z by (auto simp: m Suc DecrementUsage_def done_ans_def Let_def split: if_splits)
    qed
  qed
qed

lemma sim_restart:
  assumes "sim S b w s"
  shows "\<exists>w'. wallet_call (st_ed S) (st_env S) CRestart w = (KDone, w') \<and>
    sim S (Suc b) w' (snd (ks_call (st_key S) CRestart s))"
proof -
  from assms obtain v where v: "CreateOrLoadFsWallet (st_env S) (st_path S) [] (disk w) = Ok v"
    and d: "disk v = disk w"
    and live: "live_rel S b v (\<lambda>k. map_option (\<lambda>c. (c, False)) (ks_saved s k)) (ks_saved_next s)"
    by (auto simp: sim_def)
  have "wfile w = st_path S" using assms by (simp add: sim_def live_rel_def)
  moreover have "sim S b v (snd (ks_call (st_key S) CRestart s))"
    using v d live by (simp add: sim_def)
  ultimately show ?thesis using v by (auto intro: sim_mono)
qed

lemma sim_call:
  assumes "setting_ok S" and "sim S b w s" and "b < st_bound S"
  shows "\<exists>w'. wallet_call (st_ed S) (st_env S) c w = (fst (ks_call (st_key S) c s), w') \<and>
    sim S (Suc b) w' (snd (ks_call (st_key S) c s))"
proof (cases c)
  case CNew
  then show ?thesis using sim_new [OF assms] by simp
next
  case (CUnlock k)
  then show ?thesis using sim_unlock [OF assms(2)] by simp
next
  case CLock
  then show ?thesis using sim_lock [OF assms] by simp
next
  case (CUse k)
  then show ?thesis using sim_use [OF assms] by simp
next
  case (CRelease k)
  then show ?thesis using sim_release [OF assms] by simp
next
  case CRestart
  then show ?thesis using sim_restart [OF assms(2)] by simp
qed

lemma sim_run:
  "setting_ok S \<Longrightarrow> sim S b w s \<Longrightarrow> b + length cs \<le> st_bound S \<Longrightarrow>
     wallet_run (st_ed S) (st_env S) cs w = ks_run (st_key S) cs s"
proof (induction cs arbitrary: b w s)
  case (Cons c cs)
  then obtain w' where "wallet_call (st_ed S) (st_env S) c w = (fst (ks_call (st_key S) c s), w')"
    and "sim S (Suc b) w' (snd (ks_call (st_key S) c s))"
    using sim_call [of S b w s c] by auto
  with Cons show ?case by (simp add: case_prod_beta Let_def)
qed simp

lemma sim_start:
  assumes "setting_ok S" and "dsk (st_path S) = None"
  shows "\<exists>w. CreateOrLoadFsWallet (st_env S) (st_path S) (st_seed S) dsk = Ok w \<and> sim S 0 w ks_empty"
proof -
  let ?w = "new_wallet (st_path S) (st_seed S) dsk"
  have "live_rel S 0 ?w (ks_live ks_empty) (ks_next ks_empty)"
    by (simp add: live_rel_def new_wallet_inv ks_empty_def view_def new_wallet_def fun_eq_iff)
      (metis new_wallet_def new_wallet_inv)
  then obtain w' where "save (st_env S) ?w = (Ok (), w')" "sim S 0 w' (ks_commit ks_empty)"
    using sim_commit [OF assms(1), of 0 ?w ks_empty] by auto
  moreover have "ks_commit ks_empty = ks_empty" by (simp add: ks_commit_def ks_empty_def)
  ultimately show ?thesis
    using assms by (simp add: CreateOrLoadFsWallet_def setting_ok_def)
qed

section \<open>Properties\<close>

text \<open>
  Property C5 (wallet_refines_keystore): a wallet created at a path implements the abstract key
  store: for every sequence of calls, with accounts made, unlocked, used and released and the
  wallet locked or restarted from its file anywhere in between, each call answers as the abstract
  one does, and an account that is handed out comes with the private key of its address.
\<close>

theorem wallet_refines_keystore:
  assumes "setting_ok S" and "dsk (st_path S) = None" and "length cs \<le> st_bound S"
  shows "\<exists>w. CreateOrLoadFsWallet (st_env S) (st_path S) (st_seed S) dsk = Ok w \<and>
    wallet_run (st_ed S) (st_env S) cs w = ks_run (st_key S) cs ks_empty"
proof -
  obtain w where "CreateOrLoadFsWallet (st_env S) (st_path S) (st_seed S) dsk = Ok w" "sim S 0 w ks_empty"
    using sim_start [of S dsk] assms(1,2) by blast
  with sim_run [OF assms(1), of 0 w ks_empty cs] assms(3) show ?thesis by simp
qed

definition demo_keys :: "bytes list" where
  "demo_keys = map demo_key [0, 1, 2, 3, 4, 5, 6, 7, 8, 9]"

definition demo_setting :: ksetting where
  "demo_setting = \<lparr>st_ed = demo_ed, st_ord = (\<lambda>m. filter (\<lambda>k. m k \<noteq> None) demo_keys),
     st_seed = replicate 24 9, st_path = ''keys'', st_key = (\<lambda>n. demo_key (of_nat n)), st_bound = 10\<rparr>"

definition demo_calls :: "kcall list" where
  "demo_calls = [CNew, CUse (demo_key 0), CNew, CLock, CUnlock (demo_key 0), CRestart,
     CUnlock (demo_key 1), CUnlock (demo_key 0), CRelease (demo_key 0), CUnlock (demo_key 0)]"

lemma demo_setting_fields:
  "st_ed demo_setting = demo_ed" "st_seed demo_setting = replicate 24 9" "st_path demo_setting = ''keys''"
  "st_key demo_setting = (\<lambda>n. demo_key (of_nat n))" "st_bound demo_setting = 10"
  by (simp_all add: demo_setting_def)

lemma demo_calls_length: "length demo_calls = 10"
  by (simp add: demo_calls_def)

lemma le_enc_0: "le_enc n 0 = replicate n 0"
  by (induction n) simp_all

lemma put_u64_small:
  assumes "n < 256"
  shows "put_u64 (of_nat n) = of_nat n # replicate 7 0"
proof -
  have "unat (of_nat n :: u64) = n" using assms by (simp add: unat_of_nat)
  moreover have "le_enc (Suc 7) n = of_nat n # replicate 7 0"
    unfolding le_enc.simps using assms by (simp add: le_enc_0)
  ultimately show ?thesis by (simp add: put_u64_def)
qed

lemma demo_keys_eq: "demo_keys = map (\<lambda>n. demo_key (of_nat n)) [0..<10]"
  by (simp add: demo_keys_def upt_rec)

lemma demo_keys_distinct: "distinct demo_keys"
  by (simp add: demo_keys_def demo_key_def)

lemma demo_setting_ok: "setting_ok demo_setting"
proof -
  have "set demo_keys = (\<lambda>n. demo_key (of_nat n)) ` {..<10}"
    by (simp add: demo_keys_eq atLeast0LessThan)
  then have "valid_order (st_env demo_setting) m" if "dom m \<subseteq> (\<lambda>n. demo_key (of_nat n)) ` {..<10}" for m
    using that demo_keys_distinct
    by (auto simp: valid_order_def st_env_def reliable_def demo_setting_def)
  moreover have "demo_key (of_nat n) = replicate 24 9 @ put_u64 (of_nat n)" if "n < 10" for n
    using that by (simp add: demo_key_def put_u64_small)
  ultimately show ?thesis
    by (simp add: setting_ok_def demo_setting_def demo_ed_def PublicKeySize_def demo_key_def)
qed

theorem wallet_refines_keystore_witness:
  "\<exists>w. CreateOrLoadFsWallet (st_env demo_setting) ''keys'' (replicate 24 9) Map.empty = Ok w \<and>
    wallet_run demo_ed (st_env demo_setting) demo_calls w =
      [KKey (demo_key 0), KDone, KKey (demo_key 1), KDone, KKey (demo_key 0), KDone,
       KNoAccount, KKey (demo_key 0), KDone, KNoAccount]"
proof -
  have "ks_run (\<lambda>n. demo_key (of_nat n)) demo_calls ks_empty =
      [KKey (demo_key 0), KDone, KKey (demo_key 1), KDone, KKey (demo_key 0), KDone,
       KNoAccount, KKey (demo_key 0), KDone, KNoAccount]"
    by (simp add: demo_calls_def ks_empty_def ks_commit_def demo_key_def)
  then show ?thesis
    using wallet_refines_keystore [OF demo_setting_ok, of Map.empty demo_calls]
    by (simp add: demo_setting_fields demo_calls_length)
qed

end
