(* ===== verification/Timeouts.thy ===== *)
theory Timeouts
  imports Prelude
begin

text \<open>
  \<open>channel/connector/timeout.go\<close>. A point in time is an integer number of nanoseconds; a duration
  is Go's \<open>time.Duration\<close>, a signed 64-bit number of nanoseconds. \<open>Wait\<close> is run on a schedule:
  each round either the context is done or the timer fires at some time.
\<close>

type_synonym time = int
type_synonym duration = u64

definition dur :: "duration \<Rightarrow> int" where
  "dur d = sint d"

definition Second :: duration where "Second = 1000000000"

datatype timeout = Timeout (deadline: time) (pollInterval: duration) | ExpiredTimeout

definition DefaultTimeoutPollInterval :: duration where
  "DefaultTimeoutPollInterval = 1 * Second"

definition NewExpiredTimeout :: timeout where
  "NewExpiredTimeout = ExpiredTimeout"

definition NewTimeout :: "time \<Rightarrow> duration \<Rightarrow> timeout" where
  "NewTimeout w p = Timeout w p"

text \<open>The two methods of \<open>ExpiredTimeout\<close>, which do not look at the clock or the context.\<close>

definition ExpiredTimeout_IsElapsed :: bool where
  "ExpiredTimeout_IsElapsed = True"

definition ExpiredTimeout_Wait :: "unit res" where
  "ExpiredTimeout_Wait = Ok ()"

text \<open>\<open>IsElapsed\<close> at the time \<open>now\<close>, through the interface\<close>

primrec IsElapsed :: "timeout \<Rightarrow> time \<Rightarrow> bool" where
  "IsElapsed (Timeout w p) now = (w < now \<or> w = now)"
| "IsElapsed ExpiredTimeout now = ExpiredTimeout_IsElapsed"

text \<open>One round of the \<open>select\<close>: the context is done (with its error), or the timer fired.\<close>

datatype tick = CtxDone err | Timer time

fun wait_loop :: "time \<Rightarrow> duration \<Rightarrow> tick list \<Rightarrow> unit res" where
  "wait_loop w p [] = Hang"
| "wait_loop w p (CtxDone e # xs) = Err e"
| "wait_loop w p (Timer now # xs) =
     (if IsElapsed (Timeout w p) now then Ok () else wait_loop w p xs)"

primrec Wait :: "timeout \<Rightarrow> tick list \<Rightarrow> unit res" where
  "Wait (Timeout w p) xs = wait_loop w p xs"
| "Wait ExpiredTimeout xs = ExpiredTimeout_Wait"

text \<open>\<open>MakeTime\<close> converts to a signed duration and multiplies, both modulo \<open>2 ^ 64\<close>.\<close>

definition MakeTime :: "u64 \<Rightarrow> duration" where
  "MakeTime sec = sec * Second"

definition MakeTimeout :: "u64 \<Rightarrow> time \<Rightarrow> timeout" where
  "MakeTimeout sec now = NewTimeout (now + dur (MakeTime sec)) DefaultTimeoutPollInterval"

section \<open>The loop as a polling loop\<close>

primrec wait_decide :: "time \<Rightarrow> tick \<Rightarrow> unit res option" where
  "wait_decide w (CtxDone e) = Some (Err e)"
| "wait_decide w (Timer now) = (if w \<le> now then Some (Ok ()) else None)"

interpretation wait: poll_loop "wait_loop w p" "wait_decide w" for w :: time and p :: duration
proof
  show "wait_loop w p (x # xs) = (case wait_decide w x of None \<Rightarrow> wait_loop w p xs | Some r \<Rightarrow> r)" for x xs
    by (cases x) (auto simp: le_less)
qed simp

lemma wait_decide_Ok: "wait_decide w x = Some (Ok ()) \<longleftrightarrow> (\<exists>now. x = Timer now \<and> w \<le> now)"
  by (cases x) auto

lemma wait_decide_None: "wait_decide w x = None \<longleftrightarrow> (\<exists>now. x = Timer now \<and> now < w)"
  by (cases x) auto

section \<open>Durations\<close>

lemma dur_MakeTime:
  assumes "unat sec \<le> 9223372036"
  shows "dur (MakeTime sec) = int (unat sec) * 1000000000"
proof -
  define k where "k = int (unat sec) * 1000000000"
  have "int (unat sec) \<le> 9223372036" using assms by linarith
  then have k: "k < 9223372036854775808" "0 \<le> k" unfolding k_def by linarith+
  have "sint (word_of_int k :: u64) = (k + 9223372036854775808) mod 18446744073709551616 - 9223372036854775808"
    by (simp only: int_word_sint) simp
  also have "\<dots> = k" using k by (simp add: mod_pos_pos_trivial)
  finally have "sint (word_of_int k :: u64) = k" .
  moreover have "sec * 1000000000 = word_of_int k"
    unfolding k_def by (simp only: of_int_mult of_int_numeral of_int_of_nat_eq) simp
  ultimately have "sint (sec * 1000000000) = int (unat sec) * 1000000000" by (simp only: k_def)
  then show ?thesis by (simp only: dur_def MakeTime_def Second_def)
qed

lemma dur_range: "- (2 ^ 63) \<le> dur d \<and> dur d < 2 ^ 63"
  using sint_greater_eq [of d] sint_less [of d] by (simp add: dur_def)

lemma early_iff:
  "(\<forall>x\<in>set pre. wait_decide w x = None) \<longleftrightarrow>
     (\<exists>early. pre = map Timer early \<and> list_all (\<lambda>t. t < w) early)"
proof (induction pre)
  case (Cons x pre)
  then show ?case by (cases x) (auto simp: Cons_eq_map_conv)
qed simp

section \<open>Properties\<close>

text \<open>
  Property (wait_returns): waiting for a timeout succeeds exactly when the timer fires at or
  after the deadline before the context is done, fails with the context's error when that comes
  first, and is still going only while every timer so far fired before the deadline.
\<close>

theorem wait_returns:
  "(Wait (Timeout w p) xs = Ok ()) =
     (\<exists>early now rest. xs = map Timer early @ Timer now # rest \<and> list_all (\<lambda>t. t < w) early \<and> w \<le> now) \<and>
   (Wait (Timeout w p) xs = Err e) =
     (\<exists>early rest. xs = map Timer early @ CtxDone e # rest \<and> list_all (\<lambda>t. t < w) early) \<and>
   (Wait (Timeout w p) xs = Hang) = (\<exists>early. xs = map Timer early \<and> list_all (\<lambda>t. t < w) early) \<and>
   Wait ExpiredTimeout xs = Ok ()"
proof (intro conjI)
  have decided: "wait_decide w y \<noteq> Some Hang" for y by (cases y) auto
  have err: "wait_decide w y = Some (Err e) \<longleftrightarrow> y = CtxDone e" for y by (cases y) auto
  show "(Wait (Timeout w p) xs = Ok ()) =
     (\<exists>early now rest. xs = map Timer early @ Timer now # rest \<and> list_all (\<lambda>t. t < w) early \<and> w \<le> now)"
    (is "_ = ?R")
  proof
    show "Wait (Timeout w p) xs = Ok () \<Longrightarrow> ?R"
      using wait.loop_returns [of w p xs "Ok ()"] by (auto simp: early_iff wait_decide_Ok)
    show "?R \<Longrightarrow> Wait (Timeout w p) xs = Ok ()"
      by (auto simp: wait_decide_Ok list_all_iff not_le intro!: wait.loop_first)
  qed
  show "(Wait (Timeout w p) xs = Err e) =
     (\<exists>early rest. xs = map Timer early @ CtxDone e # rest \<and> list_all (\<lambda>t. t < w) early)" (is "_ = ?R")
  proof
    show "Wait (Timeout w p) xs = Err e \<Longrightarrow> ?R"
      using wait.loop_returns [of w p xs "Err e"] by (auto simp: early_iff err)
    show "?R \<Longrightarrow> Wait (Timeout w p) xs = Err e"
      by (auto simp: list_all_iff not_le intro!: wait.loop_first)
  qed
  show "(Wait (Timeout w p) xs = Hang) = (\<exists>early. xs = map Timer early \<and> list_all (\<lambda>t. t < w) early)"
    using wait.loop_cases [of xs w p] wait.loop_waiting [of xs w p] decided
    by (auto simp: early_iff [symmetric])
qed (simp add: ExpiredTimeout_Wait_def)

text \<open>
  Property C39 (make_timeout_exact): the deadline of \<open>MakeTimeout sec\<close> is \<open>sec\<close> seconds from now
  exactly for \<open>sec \<le> 9223372036\<close>; for larger arguments the product wraps around. Every timestamp
  in nanoseconds of this century is larger than that.
\<close>

theorem make_timeout_exact:
  "(deadline (MakeTimeout sec now) = now + int (unat sec) * 1000000000) = (unat sec \<le> 9223372036) \<and>
   \<bar>deadline (MakeTimeout sec now) - now\<bar> \<le> 2 ^ 63"
proof -
  have "unat sec \<le> 9223372036" if "dur (MakeTime sec) = int (unat sec) * 1000000000"
  proof -
    have "int (unat sec) * 1000000000 < 9223372036854775808"
      using that dur_range [of "MakeTime sec"] by simp
    then show ?thesis by linarith
  qed
  moreover have "\<bar>dur (MakeTime sec)\<bar> \<le> 2 ^ 63"
    using dur_range [of "MakeTime sec"] by linarith
  ultimately show ?thesis
    using dur_MakeTime [of sec] by (auto simp: MakeTimeout_def NewTimeout_def)
qed

end
