(* ===== verification/AdjEvents.thy ===== *)
theory AdjEvents
  imports GoRegex GoStrings Timeouts Serialize
begin

text \<open>
  Adjudicator events: the event types of \<open>channel/connector/events.go\<close> and
  \<open>adjudicator_eventsub.go\<close>, the parser of the canister's event text in \<open>utils.go\<close>, and the
  evaluation of parsed events. The second half describes the text of a log and shows what the
  parser returns for it.
\<close>

section \<open>Events\<close>

text \<open>
  \<open>DisputedEvent\<close> and \<open>ConcludedEvent\<close> have the same fields; \<open>ev_flag\<close> is \<open>disputed\<close> or
  \<open>concluded\<close>. The interface \<open>AdjEvent\<close> is the sum of the two.
\<close>

record EventData =
  ev_finalized :: bool
  ev_alloc :: "u64 \<times> u64"
  ev_tout :: u64
  ev_timestamp :: u64
  ev_flag :: bool
  ev_version :: Version
  ev_id :: ChannelID

record FundedEv =
  fe_cid :: FundingID
  fe_balance :: Balance
  fe_vs :: Version

datatype adj_event = Disputed EventData | Concluded EventData

definition zeroCID :: bytes where
  "zeroCID = replicate 32 0"

definition zero_event :: EventData where
  "zero_event = \<lparr>ev_finalized = False, ev_alloc = (0, 0), ev_tout = 0, ev_timestamp = 0,
     ev_flag = False, ev_version = 0, ev_id = zeroCID\<rparr>"

primrec ev_data :: "adj_event \<Rightarrow> EventData" where
  "ev_data (Disputed d) = d"
| "ev_data (Concluded d) = d"

definition AdjEvent_ID :: "adj_event \<Rightarrow> bytes" where
  "AdjEvent_ID e = ev_id (ev_data e)"

definition AdjEvent_Version :: "adj_event \<Rightarrow> u64" where
  "AdjEvent_Version e = ev_version (ev_data e)"

definition AdjEvent_Tstamp :: "adj_event \<Rightarrow> u64" where
  "AdjEvent_Tstamp e = ev_timestamp (ev_data e)"

text \<open>Every event's timeout is ten seconds from now, whatever the event says.\<close>

definition AdjEvent_Timeout :: "adj_event \<Rightarrow> time \<Rightarrow> timeout" where
  "AdjEvent_Timeout e now = NewTimeout (now + dur (10 * Second)) (1 * Second)"

definition FundedEv_Timeout :: "FundedEv \<Rightarrow> time \<Rightarrow> timeout" where
  "FundedEv_Timeout e now = NewTimeout (now + dur (10 * Second)) (1 * Second)"

definition FundedEv_ID :: "FundedEv \<Rightarrow> bytes" where
  "FundedEv_ID e = fe_cid e"

definition FundedEv_Version :: "FundedEv \<Rightarrow> u64" where
  "FundedEv_Version e = fe_vs e"

definition SetEventData ::
  "EventData \<Rightarrow> bytes \<Rightarrow> u64 \<Rightarrow> bool \<Rightarrow> u64 \<times> u64 \<Rightarrow> u64 \<Rightarrow> u64 \<Rightarrow> EventData res" where
  "SetEventData e cid version finalized alloc tout timestamp = Ok (e\<lparr>
     ev_id := cid, ev_version := version, ev_finalized := finalized, ev_alloc := alloc,
     ev_tout := tout, ev_timestamp := timestamp, ev_flag := True\<rparr>)"

section \<open>Parsing\<close>

text \<open>
  All patterns are searched first; if one has no match the parser returns with the event
  untouched.
\<close>

fun collect_matches :: "regex list \<Rightarrow> string \<Rightarrow> string list list list option" where
  "collect_matches [] input = Some []"
| "collect_matches (p # ps) input =
     (let m = find_all p input
      in if m = [] then None
         else (case collect_matches ps input of None \<Rightarrow> None | Some ms \<Rightarrow> Some (m # ms)))"

fun max_version_loop :: "string list list \<Rightarrow> int \<Rightarrow> u64 \<Rightarrow> int \<Rightarrow> int res" where
  "max_version_loop [] i highestVersion maxVersionIdx = Ok maxVersionIdx"
| "max_version_loop (m # ms) i highestVersion maxVersionIdx =
     res_bind (go_nth m 1) (\<lambda>s.
     case parse_uint s of
       Ok vers \<Rightarrow> (if vers > highestVersion then max_version_loop ms (i + 1) vers i
                   else max_version_loop ms (i + 1) highestVersion maxVersionIdx)
     | _ \<Rightarrow> Ok (- 1))"

definition findMaxVersionIndex :: "string list list \<Rightarrow> int res" where
  "findMaxVersionIndex matchesVersion = max_version_loop matchesVersion 0 0 (- 1)"

definition parseAllocations :: "string \<Rightarrow> string \<Rightarrow> (u64 \<times> u64) res" where
  "parseAllocations allocStr1 allocStr2 =
     res_bind (parse_uint (drop_underscores allocStr1)) (\<lambda>alloc1.
     res_bind (parse_uint (drop_underscores allocStr2)) (\<lambda>alloc2. Ok (alloc1, alloc2)))"

definition parseChannelID :: "string \<Rightarrow> bytes res" where
  "parseChannelID hexString = res_bind (hex_decode hexString) (\<lambda>bs. Ok (copy_into 32 bs))"

text \<open>\<open>matches[k][idx][j]\<close>\<close>

definition capture :: "string list list list \<Rightarrow> int \<Rightarrow> int \<Rightarrow> int \<Rightarrow> string res" where
  "capture ms k idx j =
     res_bind (go_nth ms k) (\<lambda>m. res_bind (go_nth m idx) (\<lambda>c. go_nth c j))"

definition parseAdjEvents :: "string \<Rightarrow> EventData \<Rightarrow> regex list \<Rightarrow> EventData res" where
  "parseAdjEvents input event patterns = (case collect_matches patterns input of
     None \<Rightarrow> Ok event
   | Some ms \<Rightarrow>
       res_bind (go_nth ms 0) (\<lambda>cids.
       res_bind (if length cids \<noteq> 1 then res_bind (go_nth ms 1) findMaxVersionIndex else Ok 0) (\<lambda>idx.
       res_bind (res_bind (capture ms 0 idx 1) parseChannelID) (\<lambda>cid.
       res_bind (res_bind (capture ms 1 idx 1) parse_uint) (\<lambda>version.
       res_bind (res_bind (capture ms 2 idx 1) parse_bool) (\<lambda>finalized.
       res_bind (res_bind (capture ms 3 idx 1) (\<lambda>a1. res_bind (capture ms 3 idx 2) (\<lambda>a2.
                   parseAllocations a1 a2))) (\<lambda>alloc.
       res_bind (res_bind (capture ms 4 idx 1) parse_uint) (\<lambda>tout.
       res_bind (res_bind (capture ms 5 idx 1) parse_uint) (\<lambda>timestamp.
       SetEventData event cid version finalized alloc tout timestamp)))))))))"

text \<open>The six patterns; \<open>pre\<close> is \<open>Conclude\<close> or \<open>Dispute\<close>.\<close>

definition ChannelIDPattern :: "string \<Rightarrow> regex" where
  "ChannelIDPattern pre = Seq (Lit (pre @ ''_state=ChannelIDStart''))
     (Seq (Group (plus_cls HexC)) (Lit ''ChannelIDEnd''))"

definition VersionPattern :: "string \<Rightarrow> regex" where
  "VersionPattern pre = Seq (Lit (pre @ ''_state=VersionStart''))
     (Seq (Group (plus_cls DigitC)) (Lit ''VersionEnd''))"

definition FinalizedPattern :: "string \<Rightarrow> regex" where
  "FinalizedPattern pre = Seq (Lit (pre @ ''_timeout=FinalizedStart''))
     (Seq (Group (plus_cls WordC)) (Lit ''FinalizedEnd''))"

abbreviation two_groups :: regex where
  "two_groups \<equiv> Group (Seq (plus_cls DigitC) (Seq (Lit ''_'') (plus_cls DigitC)))"

definition AllocPattern :: "string \<Rightarrow> regex" where
  "AllocPattern pre = Seq (Lit (pre @ ''_alloc=AllocStart''))
     (Seq two_groups (Seq (Lit '', '') (Seq two_groups (Lit ''AllocEnd''))))"

definition TimeoutPattern :: "string \<Rightarrow> regex" where
  "TimeoutPattern pre = Seq (Lit (pre @ ''_timeout=TimeoutStart''))
     (Seq (Group (plus_cls DigitC)) (Lit ''TimeoutEnd''))"

definition TimestampPattern :: "string \<Rightarrow> regex" where
  "TimestampPattern pre = Seq (Lit (pre @ ''_timestamp=TimestampStart''))
     (Seq (Group (plus_cls DigitC)) (Lit ''TimestampEnd''))"

definition adj_patterns :: "string \<Rightarrow> regex list" where
  "adj_patterns pre = [ChannelIDPattern pre, VersionPattern pre, FinalizedPattern pre,
     AllocPattern pre, TimeoutPattern pre, TimestampPattern pre]"

definition parseEventsConcluded :: "string \<Rightarrow> EventData list res" where
  "parseEventsConcluded input =
     res_bind (parseAdjEvents input zero_event (adj_patterns ''Conclude'')) (\<lambda>event.
     if ev_id event = zeroCID then Ok [] else Ok [event])"

definition ParseEventsConcluded :: "string \<Rightarrow> EventData list res" where
  "ParseEventsConcluded input = parseEventsConcluded input"

definition parseEventsDisputed :: "string \<Rightarrow> EventData list res" where
  "parseEventsDisputed input =
     res_bind (parseAdjEvents input zero_event (adj_patterns ''Dispute'')) (\<lambda>event.
     if ev_id event = zeroCID then Ok [] else Ok [event])"

text \<open>
  \<open>parseEventsAll\<close> appends \<open>&event\<close>, the address of the loop variable. Before Go 1.22 a loop has
  one such variable, so every pointer appended by it points to the last element: \<open>alias_loop\<close>.
\<close>

definition alias_loop :: "'a list \<Rightarrow> 'a list" where
  "alias_loop xs = (if xs = [] then [] else replicate (length xs) (last xs))"

definition parseEventsAll :: "string \<Rightarrow> adj_event list res" where
  "parseEventsAll input =
     res_bind (parseEventsConcluded input) (\<lambda>concEvents.
     res_bind (parseEventsDisputed input) (\<lambda>dispEvents.
     Ok (map Concluded (alias_loop concEvents) @ map Disputed (alias_loop dispEvents))))"

text \<open>\<open>nowTime\<close> is the clock in nanoseconds.\<close>

definition EvaluateConcludedEvents :: "EventData list \<Rightarrow> u64 \<Rightarrow> bool \<times> err option" where
  "EvaluateConcludedEvents events nowTime =
     (if length events = 0 then (False, None)
      else if length events > 1 then (False, Some (ErrNew (''Expected only one Concluded event, but got '' @ dec (length events))))
      else if ev_timestamp (hd events) > nowTime
      then (False, Some (ErrNew ''Invalid timestamp: the channel conclusion is in the future''))
      else (True, None))"

section \<open>The text of a log\<close>

text \<open>
  An entry of the canister's log, as the six patterns see it. The amounts are printed as groups
  of digits joined by underscores; \<open>(g, gs)\<close> is the first group and the others.
\<close>

type_synonym grouped = "string \<times> string list"

record log_entry =
  en_conclude :: bool
  en_cid :: bytes
  en_version :: u64
  en_final :: bool
  en_alloc1 :: grouped
  en_alloc2 :: grouped
  en_tout :: u64
  en_stamp :: u64

datatype field = FCid | FVersion | FFinal | FAlloc | FTout | FStamp

definition fields :: "field list" where
  "fields = [FCid, FVersion, FFinal, FAlloc, FTout, FStamp]"

definition kind_name :: "bool \<Rightarrow> string" where
  "kind_name c = (if c then ''Conclude'' else ''Dispute'')"

primrec field_start :: "field \<Rightarrow> string" where
  "field_start FCid = ''_state=ChannelIDStart''"
| "field_start FVersion = ''_state=VersionStart''"
| "field_start FFinal = ''_timeout=FinalizedStart''"
| "field_start FAlloc = ''_alloc=AllocStart''"
| "field_start FTout = ''_timeout=TimeoutStart''"
| "field_start FStamp = ''_timestamp=TimestampStart''"

primrec field_end :: "field \<Rightarrow> string" where
  "field_end FCid = ''ChannelIDEnd''"
| "field_end FVersion = ''VersionEnd''"
| "field_end FFinal = ''FinalizedEnd''"
| "field_end FAlloc = ''AllocEnd''"
| "field_end FTout = ''TimeoutEnd''"
| "field_end FStamp = ''TimestampEnd''"

definition lit :: "bool \<Rightarrow> field \<Rightarrow> string" where
  "lit c f = kind_name c @ field_start f"

definition group_text :: "grouped \<Rightarrow> string" where
  "group_text g = fst g @ concat (map (\<lambda>x. CHR ''_'' # x) (snd g))"

definition bool_text :: "bool \<Rightarrow> string" where
  "bool_text b = (if b then ''true'' else ''false'')"

primrec field_text :: "field \<Rightarrow> log_entry \<Rightarrow> string" where
  "field_text FCid e = hex_encode (en_cid e)"
| "field_text FVersion e = dec (unat (en_version e))"
| "field_text FFinal e = bool_text (en_final e)"
| "field_text FAlloc e = group_text (en_alloc1 e) @ '', '' @ group_text (en_alloc2 e)"
| "field_text FTout e = dec (unat (en_tout e))"
| "field_text FStamp e = dec (unat (en_stamp e))"

text \<open>The log as written: the six fields of every entry, each followed by a separator.\<close>

definition seg_text :: "string \<Rightarrow> field \<times> log_entry \<Rightarrow> string" where
  "seg_text sep s = lit (en_conclude (snd s)) (fst s) @ field_text (fst s) (snd s) @
     field_end (fst s) @ sep"

definition segments :: "log_entry list \<Rightarrow> (field \<times> log_entry) list" where
  "segments log = concat (map (\<lambda>e. map (\<lambda>f. (f, e)) fields) log)"

definition render :: "string \<Rightarrow> log_entry list \<Rightarrow> string" where
  "render sep log = concat (map (seg_text sep) (segments log))"

text \<open>
  Separators start with a character that is not a word character and contain neither \<open>C\<close> nor
  \<open>D\<close>: a comma, a blank, a line break.
\<close>

definition wf_sep :: "string \<Rightarrow> bool" where
  "wf_sep sep \<longleftrightarrow> sep \<noteq> [] \<and> \<not> is_word (hd sep) \<and> CHR ''C'' \<notin> set sep \<and> CHR ''D'' \<notin> set sep"

definition wf_digits :: "string \<Rightarrow> bool" where
  "wf_digits s \<longleftrightarrow> s \<noteq> [] \<and> list_all is_digit s"

definition wf_group :: "grouped \<Rightarrow> bool" where
  "wf_group g \<longleftrightarrow> wf_digits (fst g) \<and> list_all wf_digits (snd g)"

definition wf_entry :: "log_entry \<Rightarrow> bool" where
  "wf_entry e \<longleftrightarrow> en_cid e \<noteq> [] \<and> wf_group (en_alloc1 e) \<and> wf_group (en_alloc2 e)"

text \<open>Amounts in exactly two groups: from one thousand to less than one million.\<close>

definition two_grouped :: "log_entry \<Rightarrow> bool" where
  "two_grouped e \<longleftrightarrow> length (snd (en_alloc1 e)) = 1 \<and> length (snd (en_alloc2 e)) = 1"

section \<open>The patterns on the text of a log\<close>

primrec field_tail :: "field \<Rightarrow> regex" where
  "field_tail FCid = Seq (Group (plus_cls HexC)) (Lit ''ChannelIDEnd'')"
| "field_tail FVersion = Seq (Group (plus_cls DigitC)) (Lit ''VersionEnd'')"
| "field_tail FFinal = Seq (Group (plus_cls WordC)) (Lit ''FinalizedEnd'')"
| "field_tail FAlloc = Seq two_groups (Seq (Lit '', '') (Seq two_groups (Lit ''AllocEnd'')))"
| "field_tail FTout = Seq (Group (plus_cls DigitC)) (Lit ''TimeoutEnd'')"
| "field_tail FStamp = Seq (Group (plus_cls DigitC)) (Lit ''TimestampEnd'')"

definition field_pattern :: "bool \<Rightarrow> field \<Rightarrow> regex" where
  "field_pattern c f = Seq (Lit (lit c f)) (field_tail f)"

lemma adj_patterns_fields: "adj_patterns (kind_name c) = map (field_pattern c) fields"
  by (simp add: adj_patterns_def fields_def field_pattern_def lit_def ChannelIDPattern_def
      VersionPattern_def FinalizedPattern_def AllocPattern_def TimeoutPattern_def TimestampPattern_def)

lemma fields_UNIV: "f \<in> set fields"
  by (cases f) (simp_all add: fields_def)

primrec field_caps :: "field \<Rightarrow> log_entry \<Rightarrow> string list" where
  "field_caps FCid e = [field_text FCid e]"
| "field_caps FVersion e = [field_text FVersion e]"
| "field_caps FFinal e = [field_text FFinal e]"
| "field_caps FAlloc e = [group_text (en_alloc1 e), group_text (en_alloc2 e)]"
| "field_caps FTout e = [field_text FTout e]"
| "field_caps FStamp e = [field_text FStamp e]"

text \<open>No literal starts inside another literal, an end marker, a body or a separator.\<close>

lemma no_start_lits:
  "list_all (\<lambda>c. list_all (\<lambda>f. list_all (\<lambda>d. list_all (\<lambda>g.
     c = d \<and> f = g \<or> no_start (lit c f) (lit d g)) fields) [True, False]) fields) [True, False]"
  by code_simp

lemma no_start_ends:
  "list_all (\<lambda>c. list_all (\<lambda>f. no_start (lit c f) (tl (lit c f)) \<and>
     list_all (\<lambda>g. no_start (lit c f) (field_end g)) fields) fields) [True, False]"
  by code_simp

lemma no_start_lit: "(c, f) \<noteq> (d, g) \<Longrightarrow> no_start (lit c f) (lit d g)"
  using no_start_lits fields_UNIV [of f] fields_UNIV [of g]
  by (cases c; cases d) (auto simp: list_all_iff)

lemma no_start_lit_tl: "no_start (lit c f) (tl (lit c f))"
  using no_start_ends fields_UNIV [of f] by (cases c) (auto simp: list_all_iff)

lemma no_start_end: "no_start (lit c f) (field_end g)"
  using no_start_ends fields_UNIV [of f] fields_UNIV [of g] by (cases c) (auto simp: list_all_iff)

lemma no_start_CD: "CHR ''C'' \<notin> set x \<Longrightarrow> CHR ''D'' \<notin> set x \<Longrightarrow> no_start (lit c f) x"
  by (cases c) (simp_all add: lit_def kind_name_def no_start_hd)

lemma digit_not_CD: "is_digit c \<Longrightarrow> c \<noteq> CHR ''C'' \<and> c \<noteq> CHR ''D''"
  by (auto simp: is_digit_def)

lemma hex_encode_no_CD: "CHR ''C'' \<notin> set (hex_encode bs) \<and> CHR ''D'' \<notin> set (hex_encode bs)"
proof -
  have "list_all (\<lambda>n. hex_char n \<noteq> CHR ''C'' \<and> hex_char n \<noteq> CHR ''D'') [0..<16]" by code_simp
  then have hx: "n < 16 \<Longrightarrow> hex_char n \<noteq> CHR ''C'' \<and> hex_char n \<noteq> CHR ''D''" for n
    by (simp add: list_all_iff)
  have "CHR ''C'' \<notin> set (hex_byte b) \<and> CHR ''D'' \<notin> set (hex_byte b)" for b
    using hx [OF byte_nibble [of b]] hx [of "unat b mod 16"] by (auto simp: hex_byte_def)
  then show ?thesis by (induction bs) (simp_all add: hex_encode_def)
qed

lemma group_text_chars: "wf_group g \<Longrightarrow> c \<in> set (group_text g) \<Longrightarrow> is_digit c \<or> c = CHR ''_''"
  by (auto simp: wf_group_def wf_digits_def group_text_def list_all_iff split: if_splits)

lemma group_text_no_CD:
  "wf_group g \<Longrightarrow> CHR ''C'' \<notin> set (group_text g) \<and> CHR ''D'' \<notin> set (group_text g)"
  using group_text_chars digit_not_CD by blast

lemma field_text_no_CD:
  assumes "wf_entry e"
  shows "CHR ''C'' \<notin> set (field_text f e) \<and> CHR ''D'' \<notin> set (field_text f e)"
proof (cases f)
  case FAlloc
  then show ?thesis using assms
    by (auto simp: wf_entry_def group_text_no_CD)
qed (auto simp: hex_encode_no_CD bool_text_def dest!: dec_digits dest: digit_not_CD)

lemma wf_sep_no_start: "wf_sep sep \<Longrightarrow> no_start (lit c f) sep"
  by (simp add: wf_sep_def no_start_CD)

lemma seg_rest_no_start:
  "wf_sep sep \<Longrightarrow> wf_entry e \<Longrightarrow> no_start (lit c f) (field_text g e @ field_end g @ sep)"
  using field_text_no_CD [of e g]
  by (intro no_start_append no_start_CD no_start_end wf_sep_no_start) auto

text \<open>A class run that is followed by an end marker not in the class.\<close>

lemma digits_field:
  "wf_digits ds \<Longrightarrow> m = y # w \<Longrightarrow> \<not> is_digit y \<Longrightarrow>
     \<exists>more. matches (Seq (Group (plus_cls DigitC)) (Lit m)) (ds @ m @ t) = (t, [ds]) # more"
  using group_plus_stop [of ds DigitC y "Lit m" "w @ t" t "[]" "[]"] strip_append [of m t]
  by (simp add: wf_digits_def list_all_iff del: strip_append)

lemma hex_field:
  assumes "cid \<noteq> []"
  shows "\<exists>more. matches (Seq (Group (plus_cls HexC)) (Lit ''ChannelIDEnd''))
     (hex_encode cid @ ''ChannelIDEnd'' @ t) = (t, [hex_encode cid]) # more"
proof (rule group_plus_first)
  let ?r = "''ChannelIDEnd'' @ t"
  have "run_len HexC ?r = 1" by (simp add: is_hex_def)
  then show "matches (Lit ''ChannelIDEnd'') (drop k ?r) = []" if "0 < k" "k \<le> run_len HexC ?r" for k
    using that by (cases k) auto
  show "matches (Lit ''ChannelIDEnd'') ?r = (t, []) # []"
    by (simp del: append.simps)
qed (use assms in auto)

lemma word_field:
  assumes "\<not> is_word y"
  shows "\<exists>more. matches (Seq (Group (plus_cls WordC)) (Lit ''FinalizedEnd''))
     (bool_text b @ ''FinalizedEnd'' @ y # t) = (y # t, [bool_text b]) # more"
proof (rule group_plus_first)
  let ?r = "''FinalizedEnd'' @ y # t"
  have n: "run_len WordC ?r = 12" using assms by (simp add: is_word_def)
  have "y \<noteq> CHR ''F''" using assms by (auto simp: is_word_def)
  then have "list_all (\<lambda>k. strip ''FinalizedEnd'' (drop (Suc k) ?r) = None) [0..<12]"
    by (simp add: upt_conv_Cons)
  then have miss: "k < 12 \<Longrightarrow> strip ''FinalizedEnd'' (drop (Suc k) ?r) = None" for k
    by (simp only: list_all_iff set_upt atLeastLessThan_iff Ball_def) blast
  show "matches (Lit ''FinalizedEnd'') (drop k ?r) = []" if "0 < k" "k \<le> run_len WordC ?r" for k
    using that miss [of "k - 1"] unfolding n by (cases k) (simp_all del: append.simps drop_append)
  show "matches (Lit ''FinalizedEnd'') ?r = (y # t, []) # []"
    by (simp del: append.simps)
qed (auto simp: bool_text_def is_word_def)

lemma two_groups_then:
  assumes "wf_group g" and "\<not> is_digit y" and "y \<noteq> CHR ''_''"
    and "\<And>d s. is_digit d \<or> d = CHR ''_'' \<Longrightarrow> matches b (d # s) = []"
  shows "matches (Seq two_groups b) (group_text g @ y # rest) =
    (if length (snd g) = 1 then map (\<lambda>(t, cs). (t, group_text g # cs)) (matches b (y # rest)) else [])"
  using group_pair_groups [of "fst g" DigitC "snd g" "CHR ''_''" y b rest] assms
  unfolding group_text_def by (simp add: wf_group_def wf_digits_def list_all_iff is_digit_def)

lemma alloc_field:
  assumes "wf_entry e"
  shows "matches (field_tail FAlloc) (field_text FAlloc e @ field_end FAlloc @ t) =
    (if two_grouped e then [(t, field_caps FAlloc e)] else [])"
proof -
  let ?a = "group_text (en_alloc1 e)" and ?b = "group_text (en_alloc2 e)"
  let ?inner = "Seq two_groups (Lit ''AllocEnd'')"
  have w: "wf_group (en_alloc1 e)" "wf_group (en_alloc2 e)" using assms by (simp_all add: wf_entry_def)
  have inner: "matches ?inner (?b @ CHR ''A'' # ''llocEnd'' @ t) =
      (if length (snd (en_alloc2 e)) = 1 then [(t, [?b])] else [])"
    using w(2) by (subst two_groups_then) (auto simp: is_digit_def)
  have "matches (field_tail FAlloc) (?a @ CHR '','' # '' '' @ ?b @ CHR ''A'' # ''llocEnd'' @ t) =
      (if length (snd (en_alloc1 e)) = 1
       then map (\<lambda>(t, cs). (t, ?a # cs)) (matches (Seq (Lit '', '') ?inner) ('', '' @ ?b @ CHR ''A'' # ''llocEnd'' @ t))
       else [])"
    unfolding field_tail.simps
    using w(1) by (subst two_groups_then) (auto simp: is_digit_def matches_lit_seq simp del: matches.simps)
  also have "matches (Seq (Lit '', '') ?inner) ('', '' @ ?b @ CHR ''A'' # ''llocEnd'' @ t) =
      matches ?inner (?b @ CHR ''A'' # ''llocEnd'' @ t)"
    by (simp only: matches_lit_seq strip_append option.case)
  finally show ?thesis unfolding inner by (simp add: two_grouped_def del: matches.simps field_tail.simps)
qed

definition seg_match :: "bool \<Rightarrow> field \<Rightarrow> field \<times> log_entry \<Rightarrow> (string \<times> string list) option" where
  "seg_match c f s = (if en_conclude (snd s) = c \<and> fst s = f \<and> (f = FAlloc \<longrightarrow> two_grouped (snd s))
     then Some (lit c f @ field_text f (snd s) @ field_end f, field_caps f (snd s)) else None)"

lemma wf_dec: "wf_digits (dec n)"
  by (auto simp: wf_digits_def list_all_iff)

lemma field_first:
  assumes "wf_sep sep" and "wf_entry e" and "f = FAlloc \<longrightarrow> two_grouped e"
  shows "\<exists>more. matches (field_tail f) (field_text f e @ field_end f @ sep @ t) =
    (sep @ t, field_caps f e) # more"
proof (cases f)
  case FCid
  with assms(2) show ?thesis using hex_field [of "en_cid e" "sep @ t"]
    by (simp add: wf_entry_def del: matches.simps)
next
  case FFinal
  from assms(1) obtain y u where "sep = y # u" "\<not> is_word y" by (cases sep) (auto simp: wf_sep_def)
  with FFinal show ?thesis using word_field [of y "en_final e" "u @ t"] by (simp del: matches.simps)
next
  case FAlloc
  with assms show ?thesis using alloc_field [of e "sep @ t"] by (simp del: matches.simps)
next
  case FVersion
  then show ?thesis
    using digits_field [of "dec (unat (en_version e))" "''VersionEnd''" "CHR ''V''" "''ersionEnd''" "sep @ t"]
    by (simp add: wf_dec is_digit_def del: matches.simps)
next
  case FTout
  then show ?thesis
    using digits_field [of "dec (unat (en_tout e))" "''TimeoutEnd''" "CHR ''T''" "''imeoutEnd''" "sep @ t"]
    by (simp add: wf_dec is_digit_def del: matches.simps)
next
  case FStamp
  then show ?thesis
    using digits_field [of "dec (unat (en_stamp e))" "''TimestampEnd''" "CHR ''T''" "''imestampEnd''" "sep @ t"]
    by (simp add: wf_dec is_digit_def del: matches.simps)
qed

lemma seg_match_ok:
  assumes "wf_sep sep" and "wf_entry (snd s)"
  shows "seg_ok (lit c f) (field_tail f) (seg_text sep s) (seg_match c f s)"
proof -
  obtain g e where s: "s = (g, e)" by (cases s)
  have w: "wf_entry e" using assms(2) s by simp
  show ?thesis
  proof (cases "(c, f) = (en_conclude e, g)")
    case False
    then have "no_start (lit c f) (seg_text sep s)"
      unfolding seg_text_def s fst_conv snd_conv
      by (intro no_start_append [OF no_start_lit seg_rest_no_start [OF assms(1) w]])
    then show ?thesis using False s by (auto simp: seg_match_def)
  next
    case True
    then have t: "seg_text sep s = lit c f @ field_text f e @ field_end f @ sep"
      by (simp add: seg_text_def s)
    have m: "matches (Seq (Lit (lit c f)) (field_tail f)) (seg_text sep s @ u) =
        matches (field_tail f) (field_text f e @ field_end f @ sep @ u)" for u
      unfolding t append_assoc by (simp only: matches_lit_seq strip_append option.case)
    have ne: "lit c f \<noteq> []" by (simp add: lit_def kind_name_def)
    show ?thesis
    proof (cases "f = FAlloc \<longrightarrow> two_grouped e")
      case True
      then have "seg_match c f s = Some (lit c f @ field_text f e @ field_end f, field_caps f e)"
        using \<open>(c, f) = (en_conclude e, g)\<close> s by (simp add: seg_match_def)
      then show ?thesis
        using field_first [OF assms(1) w True] wf_sep_no_start [OF assms(1)] ne
        unfolding m [symmetric] by (simp add: t del: matches.simps)
    next
      case False
      then have "seg_match c f s = None"
        using s by (simp add: seg_match_def)
      moreover have "matches (Seq (Lit (lit c f)) (field_tail f)) (seg_text sep s @ u) = []" for u
        unfolding m using False alloc_field [OF w, of "sep @ u"] by (simp del: matches.simps)
      moreover have "no_start (lit c f) (tl (seg_text sep s))"
        unfolding t using seg_rest_no_start [OF assms(1) w] no_start_lit_tl [of c f] ne
        by (simp add: no_start_append)
      ultimately show ?thesis using ne t by (simp del: matches.simps)
    qed
  qed
qed

section \<open>What the parser collects from a log\<close>

definition of_kind :: "bool \<Rightarrow> log_entry list \<Rightarrow> log_entry list" where
  "of_kind c log = filter (\<lambda>e. en_conclude e = c) log"

definition field_hits :: "bool \<Rightarrow> field \<Rightarrow> log_entry list \<Rightarrow> string list list" where
  "field_hits c f es = map (\<lambda>e. (lit c f @ field_text f e @ field_end f) # field_caps f e) es"

lemma segment_hits:
  "concat (map (\<lambda>s. seg_hit (seg_match c f s)) (map (\<lambda>f. (f, e)) fields)) =
     field_hits c f (if en_conclude e = c \<and> (f = FAlloc \<longrightarrow> two_grouped e) then [e] else [])"
  by (cases f) (simp_all add: fields_def seg_match_def seg_hit_def field_hits_def)

lemma find_field:
  assumes "wf_sep sep" and "list_all wf_entry log"
  shows "find_all (field_pattern c f) (render sep log) =
    field_hits c f (filter (\<lambda>e. f = FAlloc \<longrightarrow> two_grouped e) (of_kind c log))"
proof -
  have "\<forall>s\<in>set (segments log). seg_ok (lit c f) (field_tail f) (seg_text sep s) (seg_match c f s)"
    using assms by (auto simp: segments_def list_all_iff intro!: seg_match_ok)
  then have "find_all (field_pattern c f) (render sep log) =
      concat (map (\<lambda>s. seg_hit (seg_match c f s)) (segments log))"
    unfolding field_pattern_def render_def by (rule find_all_segs)
  also have "\<dots> = field_hits c f (filter (\<lambda>e. f = FAlloc \<longrightarrow> two_grouped e) (of_kind c log))"
  proof (induction log)
    case Nil
    then show ?case by (simp add: segments_def of_kind_def field_hits_def)
  next
    case (Cons e log)
    have "segments (e # log) = map (\<lambda>f. (f, e)) fields @ segments log"
      by (simp add: segments_def)
    then have "concat (map (\<lambda>s. seg_hit (seg_match c f s)) (segments (e # log))) =
        field_hits c f (if en_conclude e = c \<and> (f = FAlloc \<longrightarrow> two_grouped e) then [e] else []) @
        field_hits c f (filter (\<lambda>e. f = FAlloc \<longrightarrow> two_grouped e) (of_kind c log))"
      using Cons segment_hits [of c f e] by (simp del: map_map)
    then show ?case by (auto simp: of_kind_def field_hits_def)
  qed
  finally show ?thesis .
qed

lemma collect_Some:
  "list_all (\<lambda>p. find_all p input \<noteq> []) ps \<Longrightarrow>
     collect_matches ps input = Some (map (\<lambda>p. find_all p input) ps)"
  by (induction ps) (simp_all add: Let_def)

lemma collect_None:
  "\<not> list_all (\<lambda>p. find_all p input \<noteq> []) ps \<Longrightarrow> collect_matches ps input = None"
  by (induction ps) (auto simp: Let_def split: option.splits)

text \<open>The index of the highest version: the first one that has it; \<open>- 1\<close> if all are 0.\<close>

definition first_max :: "u64 list \<Rightarrow> nat" where
  "first_max vs = length (takeWhile (\<lambda>v. v < Max (set vs)) vs)"

lemma max_version_loop_eq:
  "max_version_loop (map (\<lambda>v. [x v, dec (unat v)]) vs) i h idx =
     Ok (if list_all (\<lambda>v. v \<le> h) vs then idx else i + int (first_max vs))"
proof (induction vs arbitrary: i h idx)
  case (Cons v vs)
  have go: "go_nth [x v, dec (unat v)] 1 = Ok (dec (unat v))" by (simp add: go_nth_def)
  show ?case
  proof (cases "v > h")
    case True
    have "first_max (v # vs) = (if list_all (\<lambda>u. u \<le> v) vs then 0 else Suc (first_max vs))"
    proof (cases "list_all (\<lambda>u. u \<le> v) vs")
      case le: True
      then have "Max (set (v # vs)) = v" by (intro Max_eqI) (auto simp: list_all_iff)
      then show ?thesis using le by (simp add: first_max_def del: set_simps)
    next
      case False
      then obtain u where u: "u \<in> set vs" "v < u" by (auto simp: list_all_iff not_le)
      then have "v < Max (set vs)" using Max_ge [of "set vs" u] by (auto intro: less_le_trans)
      moreover from this have "Max (set (v # vs)) = Max (set vs)"
        using u by (subst list.set, subst Max_insert) (auto simp: max_def)
      ultimately show ?thesis using False by (simp add: first_max_def del: set_simps)
    qed
    with True show ?thesis using Cons.IH [of "i + 1" v i] go by (auto simp: not_le)
  next
    case False
    have "first_max (v # vs) = Suc (first_max vs)" if "\<not> list_all (\<lambda>u. u \<le> h) vs"
    proof -
      from that obtain u where u: "u \<in> set vs" "h < u" by (auto simp: list_all_iff not_le)
      have "v < u" using False u(2) by (meson le_less_trans not_less)
      also have "u \<le> Max (set vs)" using u(1) by simp
      finally have "v < Max (set vs)" .
      moreover from this have "Max (set (v # vs)) = Max (set vs)"
        using u by (subst list.set, subst Max_insert) (auto simp: max_def)
      ultimately show ?thesis by (simp add: first_max_def del: set_simps)
    qed
    with False show ?thesis using Cons.IH [of "i + 1" h idx] go by auto
  qed
qed simp

lemma findMax_hits:
  "findMaxVersionIndex (field_hits c FVersion es) =
     Ok (if list_all (\<lambda>e. en_version e = 0) es then - 1 else int (first_max (map en_version es)))"
proof -
  have "field_hits c FVersion es = map (\<lambda>v. [lit c FVersion @ dec (unat v) @ field_end FVersion, dec (unat v)])
      (map en_version es)"
    by (simp add: field_hits_def)
  then show ?thesis
    unfolding findMaxVersionIndex_def by (simp only: max_version_loop_eq) (simp add: list_all_iff)
qed

lemma first_max_less: "vs \<noteq> [] \<Longrightarrow> first_max vs < length vs"
proof -
  assume "vs \<noteq> []"
  then have "Max (set vs) \<in> set vs" by simp
  then have "\<exists>v\<in>set vs. \<not> v < Max (set vs)" by blast
  then have "takeWhile (\<lambda>v. v < Max (set vs)) vs \<noteq> vs"
    by (metis (mono_tags, lifting) takeWhile_eq_all_conv)
  then show ?thesis unfolding first_max_def
    by (metis length_takeWhile_le le_neq_implies_less takeWhile_eq_take take_all_iff order_refl)
qed

text \<open>The value of a printed amount, and the event that an entry stands for.\<close>

definition group_value :: "grouped \<Rightarrow> nat" where
  "group_value g = num_val 0 (concat (fst g # snd g))"

definition fits :: "log_entry \<Rightarrow> bool" where
  "fits e \<longleftrightarrow> group_value (en_alloc1 e) < 2 ^ 64 \<and> group_value (en_alloc2 e) < 2 ^ 64"

definition entry_event :: "log_entry \<Rightarrow> EventData" where
  "entry_event e = \<lparr>ev_finalized = en_final e,
     ev_alloc = (of_nat (group_value (en_alloc1 e)), of_nat (group_value (en_alloc2 e))),
     ev_tout = en_tout e, ev_timestamp = en_stamp e, ev_flag = True, ev_version = en_version e,
     ev_id = copy_into 32 (en_cid e)\<rparr>"

lemma drop_underscores_group: "wf_group g \<Longrightarrow> drop_underscores (group_text g) = concat (fst g # snd g)"
proof -
  have d: "list_all is_digit s \<Longrightarrow> filter (\<lambda>c. c \<noteq> CHR ''_'') s = s" for s
    by (auto simp: filter_id_conv list_all_iff is_digit_def)
  have "list_all wf_digits gs \<Longrightarrow> filter (\<lambda>c. c \<noteq> CHR ''_'') (concat (map (\<lambda>x. CHR ''_'' # x) gs)) = concat gs" for gs
    by (induction gs) (auto simp: d wf_digits_def)
  then show "wf_group g \<Longrightarrow> ?thesis"
    by (simp add: wf_group_def wf_digits_def drop_underscores_def group_text_def d)
qed

lemma parse_group:
  assumes "wf_group g" and "group_value g < 2 ^ 64"
  shows "parse_uint (drop_underscores (group_text g)) = Ok (of_nat (group_value g))"
proof -
  have "concat (fst g # snd g) \<noteq> []" "\<forall>c\<in>set (concat (fst g # snd g)). is_digit c"
    using assms(1) by (auto simp: wf_group_def wf_digits_def list_all_iff)
  then show ?thesis
    using assms(2) unfolding drop_underscores_group [OF assms(1)] group_value_def
    by (subst parse_uint_digits) simp_all
qed

lemma parse_bool_text [simp]: "parse_bool (bool_text b) = Ok b"
  by (simp add: parse_bool_def bool_text_def)

lemma parse_cid: "parseChannelID (hex_encode cid) = Ok (copy_into 32 cid)"
  by (simp add: parseChannelID_def)

lemma capture_hit:
  assumes "k < length ms" and "ms ! k = field_hits c f es" and "i < length es"
    and "j < length (field_caps f (es ! i))"
  shows "capture ms (int k) (int i) (int (Suc j)) = Ok (field_caps f (es ! i) ! j)"
proof -
  have "go_nth (field_hits c f es) (int i) = Ok (field_hits c f es ! i)"
    using assms(3) by (intro go_nth_ok) (simp add: field_hits_def)
  moreover have "field_hits c f es ! i = (lit c f @ field_text f (es ! i) @ field_end f) # field_caps f (es ! i)"
    using assms(3) by (simp add: field_hits_def)
  ultimately show ?thesis
    using assms(1,2,4) go_nth_ok [of "Suc j" "_ # field_caps f (es ! i)"]
    by (simp add: capture_def del: of_nat_Suc)
qed

text \<open>The parser on a text whose six patterns have found the fields of the entries \<open>es\<close>.\<close>

lemma parse_hits:
  assumes "collect_matches ps input = Some (map (\<lambda>f. field_hits c f es) fields)"
    and "i < length es" and "wf_entry (es ! i)" and "fits (es ! i)"
    and idx: "(if length es \<noteq> 1 then findMaxVersionIndex (field_hits c FVersion es) else Ok 0) = Ok (int i)"
  shows "parseAdjEvents input zero_event ps = Ok (entry_event (es ! i))"
proof -
  let ?ms = "map (\<lambda>f. field_hits c f es) fields" and ?e = "es ! i"
  have ms: "length ?ms = 6" "?ms ! 0 = field_hits c FCid es" "?ms ! 1 = field_hits c FVersion es"
    "?ms ! 2 = field_hits c FFinal es" "?ms ! 3 = field_hits c FAlloc es"
    "?ms ! 4 = field_hits c FTout es" "?ms ! 5 = field_hits c FStamp es"
    by (simp_all add: fields_def)
  have ne: "fields \<noteq> []" by (simp add: fields_def)
  note cap = capture_hit [of _ ?ms c _ es i, OF _ _ assms(2)]
  have caps: "capture ?ms 0 (int i) 1 = Ok (hex_encode (en_cid ?e))"
    "capture ?ms 1 (int i) 1 = Ok (dec (unat (en_version ?e)))"
    "capture ?ms 2 (int i) 1 = Ok (bool_text (en_final ?e))"
    "capture ?ms 3 (int i) 1 = Ok (group_text (en_alloc1 ?e))"
    "capture ?ms 3 (int i) 2 = Ok (group_text (en_alloc2 ?e))"
    "capture ?ms 4 (int i) 1 = Ok (dec (unat (en_tout ?e)))"
    "capture ?ms 5 (int i) 1 = Ok (dec (unat (en_stamp ?e)))"
    using cap [of 0 FCid 0] cap [of 1 FVersion 0] cap [of 2 FFinal 0] cap [of 3 FAlloc 0]
      cap [of 3 FAlloc 1] cap [of 4 FTout 0] cap [of 5 FStamp 0] ms ne
    by simp_all
  have go: "go_nth ?ms 0 = Ok (field_hits c FCid es)" "go_nth ?ms 1 = Ok (field_hits c FVersion es)"
    using ms by (simp_all add: go_nth_def del: map_map nth_map)
  have len: "length (field_hits c FCid es) = length es" by (simp add: field_hits_def)
  have w: "wf_group (en_alloc1 ?e)" "wf_group (en_alloc2 ?e)" using assms(3) by (simp_all add: wf_entry_def)
  have alloc: "parseAllocations (group_text (en_alloc1 ?e)) (group_text (en_alloc2 ?e)) =
      Ok (of_nat (group_value (en_alloc1 ?e)), of_nat (group_value (en_alloc2 ?e)))"
    using assms(4) w by (simp add: parseAllocations_def parse_group fits_def)
  show ?thesis
    unfolding parseAdjEvents_def assms(1) option.case go res_bind.simps len idx caps
    by (simp add: parse_cid alloc SetEventData_def entry_event_def zero_event_def)
qed

lemma collect_log:
  assumes "wf_sep sep" and "list_all wf_entry log"
  shows "collect_matches (adj_patterns (kind_name c)) (render sep log) =
    (if filter two_grouped (of_kind c log) = [] then None
     else Some (map (\<lambda>f. field_hits c f (filter (\<lambda>e. f = FAlloc \<longrightarrow> two_grouped e) (of_kind c log))) fields))"
proof (cases "filter two_grouped (of_kind c log) = []")
  case True
  then have "find_all (field_pattern c FAlloc) (render sep log) = []"
    using find_field [OF assms, of c FAlloc] by (simp add: field_hits_def)
  then show ?thesis
    using True by (subst collect_None) (simp_all add: adj_patterns_fields fields_def)
next
  case False
  have "filter (\<lambda>e. f = FAlloc \<longrightarrow> two_grouped e) (of_kind c log) \<noteq> []" for f
    using False by (cases f) (auto simp: filter_empty_conv)
  then have "find_all (field_pattern c f) (render sep log) \<noteq> []" for f
    using find_field [OF assms, of c f] by (simp add: field_hits_def)
  then show ?thesis
    using False unfolding adj_patterns_fields
    by (subst collect_Some) (simp_all add: list_all_iff find_field [OF assms])
qed

lemma all_two_grouped: "list_all two_grouped es \<Longrightarrow> filter (\<lambda>e. f = FAlloc \<longrightarrow> two_grouped e) es = es"
  by (auto simp: filter_id_conv list_all_iff)

lemma list_all_nth: "list_all P xs \<Longrightarrow> i < length xs \<Longrightarrow> P (xs ! i)"
  by (simp add: list_all_length)

definition all_zero :: "log_entry list \<Rightarrow> bool" where
  "all_zero es = list_all (\<lambda>e. en_version e = 0) es"

definition newest :: "log_entry list \<Rightarrow> log_entry" where
  "newest es = es ! first_max (map en_version es)"

lemma parse_log_kind:
  assumes "wf_sep sep" and "list_all wf_entry log"
    and g: "list_all two_grouped (of_kind c log)" and f: "list_all fits (of_kind c log)"
  shows "parseAdjEvents (render sep log) zero_event (adj_patterns (kind_name c)) =
    (if of_kind c log = [] then Ok zero_event
     else if length (of_kind c log) \<noteq> 1 \<and> all_zero (of_kind c log) then Panic ''index out of range''
     else Ok (entry_event (newest (of_kind c log))))"
proof (cases "of_kind c log = []")
  case True
  then show ?thesis by (simp add: parseAdjEvents_def collect_log [OF assms(1,2)])
next
  case False
  let ?es = "of_kind c log" and ?i = "first_max (map en_version (of_kind c log))"
  have "filter two_grouped ?es = ?es" using g by (simp add: filter_id_conv list_all_iff)
  then have coll: "collect_matches (adj_patterns (kind_name c)) (render sep log) =
      Some (map (\<lambda>f. field_hits c f ?es) fields)"
    using False collect_log [OF assms(1,2), of c] all_two_grouped [OF g] by simp
  have wf: "list_all wf_entry ?es" using assms(2) by (auto simp: of_kind_def list_all_iff)
  show ?thesis
  proof (cases "length ?es \<noteq> 1 \<and> all_zero ?es")
    case True
    let ?ms = "map (\<lambda>f. field_hits c f ?es) fields"
    have go: "go_nth ?ms 0 = Ok (field_hits c FCid ?es)" "go_nth ?ms 1 = Ok (field_hits c FVersion ?es)"
      by (simp_all add: fields_def go_nth_def)
    have len: "length (field_hits c FCid ?es) \<noteq> 1" using True by (simp add: field_hits_def)
    have idx: "findMaxVersionIndex (field_hits c FVersion ?es) = Ok (- 1)"
      using True by (simp add: findMax_hits all_zero_def)
    have "capture ?ms 0 (- 1) 1 = Panic ''index out of range''"
      unfolding capture_def go res_bind.simps go_nth_neg ..
    then have "parseAdjEvents (render sep log) zero_event (adj_patterns (kind_name c)) =
        Panic ''index out of range''"
      unfolding parseAdjEvents_def coll option.case go res_bind.simps if_P [OF len] idx
      by (simp only: res_bind.simps)
    with True False show ?thesis by simp
  next
    case nz: False
    have i: "?i < length ?es" using first_max_less [of "map en_version ?es"] False by simp
    have "(if length ?es \<noteq> 1 then findMaxVersionIndex (field_hits c FVersion ?es) else Ok 0) = Ok (int ?i)"
      using nz i by (auto simp: findMax_hits all_zero_def)
    from parse_hits [OF coll i list_all_nth [OF wf i] list_all_nth [OF f i] this]
    show ?thesis using nz False by (auto simp: newest_def)
  qed
qed

text \<open>What the parsers return for the entries of their kind.\<close>

definition log_result :: "log_entry list \<Rightarrow> EventData list res" where
  "log_result es =
     (if es = [] then Ok []
      else if length es \<noteq> 1 \<and> all_zero es then Panic ''index out of range''
      else if copy_into 32 (en_cid (newest es)) = zeroCID then Ok []
      else Ok [entry_event (newest es)])"

lemma parse_result_kind:
  assumes "wf_sep sep" and "list_all wf_entry log"
    and "list_all two_grouped (of_kind c log)" and "list_all fits (of_kind c log)"
  shows "res_bind (parseAdjEvents (render sep log) zero_event (adj_patterns (kind_name c)))
    (\<lambda>event. if ev_id event = zeroCID then Ok [] else Ok [event]) = log_result (of_kind c log)"
proof -
  have "ev_id zero_event = zeroCID" "ev_id (entry_event e) = copy_into 32 (en_cid e)" for e
    by (simp_all add: zero_event_def entry_event_def)
  then show ?thesis
    unfolding parse_log_kind [OF assms] log_result_def by (simp split: if_split)
qed

lemma concluded_kind: "parseEventsConcluded input =
    res_bind (parseAdjEvents input zero_event (adj_patterns (kind_name True)))
      (\<lambda>event. if ev_id event = zeroCID then Ok [] else Ok [event])"
  by (simp add: parseEventsConcluded_def kind_name_def)

lemma disputed_kind: "parseEventsDisputed input =
    res_bind (parseAdjEvents input zero_event (adj_patterns (kind_name False)))
      (\<lambda>event. if ev_id event = zeroCID then Ok [] else Ok [event])"
  by (simp add: parseEventsDisputed_def kind_name_def)

lemma parse_at_most_one:
  "parseEventsConcluded input = Ok es \<Longrightarrow> length es \<le> 1"
  "parseEventsDisputed input = Ok ds \<Longrightarrow> length ds \<le> 1"
  by (auto simp: parseEventsConcluded_def parseEventsDisputed_def split: if_splits)

lemma alias_loop_single: "length xs \<le> 1 \<Longrightarrow> alias_loop xs = xs"
  by (cases xs) (auto simp: alias_loop_def)

text \<open>The newest entry is one of them, and none has a higher version.\<close>

lemma first_max_Max: "vs \<noteq> [] \<Longrightarrow> vs ! first_max vs = Max (set vs)"
proof -
  assume ne: "vs \<noteq> []"
  then have "\<not> vs ! first_max vs < Max (set vs)"
    using nth_length_takeWhile [of "\<lambda>v. v < Max (set vs)" vs] first_max_less [OF ne]
    by (simp add: first_max_def)
  moreover have "vs ! first_max vs \<le> Max (set vs)" using first_max_less [OF ne] by simp
  ultimately show ?thesis by simp
qed

lemma newest_max:
  assumes "es \<noteq> []"
  shows "newest es \<in> set es" and "e \<in> set es \<Longrightarrow> en_version e \<le> en_version (newest es)"
proof -
  have i: "first_max (map en_version es) < length es"
    using first_max_less [of "map en_version es"] assms by simp
  then show "newest es \<in> set es" by (simp add: newest_def)
  have "en_version (newest es) = Max (set (map en_version es))"
    using first_max_Max [of "map en_version es"] i assms by (simp add: newest_def)
  then show "e \<in> set es \<Longrightarrow> en_version e \<le> en_version (newest es)" by simp
qed

lemma log_result_event:
  "log_result es = Ok ds \<Longrightarrow> d \<in> set ds \<Longrightarrow> es \<noteq> [] \<and> d = entry_event (newest es)"
  by (auto simp: log_result_def split: if_splits)

section \<open>Properties\<close>

text \<open>
  Property C1 (parse_adjudicator_log): on a log whose amounts are all printed in two groups and
  fit 64 bits, each parser returns the event of the first entry of its kind with the highest
  version, with every field as it was written; nothing if there is no such entry or its channel
  id is zero; and it panics if there are several entries of the kind, all of version 0.
\<close>

theorem parse_adjudicator_log:
  assumes "wf_sep sep" and "list_all wf_entry log" and "list_all two_grouped log" and "list_all fits log"
  shows "ParseEventsConcluded (render sep log) = log_result (of_kind True log) \<and>
    parseEventsDisputed (render sep log) = log_result (of_kind False log)"
proof -
  have "list_all two_grouped (of_kind c log)" "list_all fits (of_kind c log)" for c
    using assms(3,4) by (auto simp: of_kind_def list_all_iff)
  then show ?thesis
    unfolding ParseEventsConcluded_def concluded_kind disputed_kind
    using parse_result_kind [OF assms(1,2)] by blast
qed

definition demo_entry :: "bool \<Rightarrow> u64 \<Rightarrow> grouped \<Rightarrow> log_entry" where
  "demo_entry c v g = \<lparr>en_conclude = c, en_cid = replicate 32 7, en_version = v, en_final = c,
     en_alloc1 = g, en_alloc2 = (''2'', [''500'']), en_tout = 60, en_stamp = 1000\<rparr>"

lemma demo_entry_wf:
  "wf_entry (demo_entry c v (''1'', [''000''])) \<and> two_grouped (demo_entry c v (''1'', [''000''])) \<and>
   fits (demo_entry c v (''1'', [''000''])) \<and> wf_entry (demo_entry c v (''500'', [])) \<and>
   \<not> two_grouped (demo_entry c v (''500'', []))"
  by (simp add: demo_entry_def wf_entry_def wf_group_def wf_digits_def is_digit_def two_grouped_def
      fits_def group_value_def digit_val_def)

lemma demo_sep: "wf_sep '', ''"
  by (simp add: wf_sep_def is_word_def)

theorem parse_adjudicator_log_witness:
  "\<exists>e. parseEventsDisputed (render '', '' [demo_entry False 3 (''1'', [''000'']), demo_entry False 5 (''1'', [''000''])])
     = Ok [e] \<and> ev_version e = 5 \<and> ev_alloc e = (1000, 2500) \<and> ev_id e = replicate 32 7"
proof -
  let ?log = "[demo_entry False 3 (''1'', [''000'']), demo_entry False 5 (''1'', [''000''])]"
  have "first_max [3, 5] = 1" by (simp add: first_max_def)
  then have "log_result (of_kind False ?log) = Ok [entry_event (demo_entry False 5 (''1'', [''000'']))]"
    by (simp add: log_result_def of_kind_def demo_entry_def all_zero_def newest_def zeroCID_def)
  then show ?thesis
    using parse_adjudicator_log [OF demo_sep, of ?log] demo_entry_wf
    by (simp add: entry_event_def demo_entry_def group_value_def digit_val_def)
qed

text \<open>
  Property C37 (small_amounts_dropped): the allocation pattern wants exactly one underscore in
  each amount. However many entries of a kind a log has, if in none of them both amounts are
  printed in two groups (they are below 1000, or a million and more), the parser reports no event
  and no error.
\<close>

theorem small_amounts_dropped:
  assumes "wf_sep sep" and "list_all wf_entry log"
    and "list_all (\<lambda>e. \<not> two_grouped e) log"
  shows "ParseEventsConcluded (render sep log) = Ok [] \<and> parseEventsDisputed (render sep log) = Ok [] \<and>
    parseEventsAll (render sep log) = Ok []"
proof -
  have "filter two_grouped (of_kind c log) = []" for c
    using assms(3) by (auto simp: of_kind_def list_all_iff filter_empty_conv)
  then have "parseAdjEvents (render sep log) zero_event (adj_patterns (kind_name c)) = Ok zero_event" for c
    by (simp add: parseAdjEvents_def collect_log [OF assms(1,2)])
  then show ?thesis
    by (simp add: ParseEventsConcluded_def concluded_kind disputed_kind parseEventsAll_def
        zero_event_def alias_loop_def)
qed

theorem small_amounts_dropped_witness:
  "parseEventsDisputed (render '', '' [demo_entry False 3 (''500'', [])]) = Ok []"
  using small_amounts_dropped [OF demo_sep, of "[demo_entry False 3 (''500'', [])]"] demo_entry_wf
  by simp



text \<open>
  Property (mixed_amounts_panic): the index of the highest version is also used on the
  allocation matches, which skip the entries with other than two groups. If fewer of them are
  left than that index, the parser panics; a small amount in one entry breaks the others.
\<close>

theorem mixed_amounts_panic:
  assumes "wf_sep sep" and "list_all wf_entry log"
    and "2 \<le> length (of_kind c log)" and "0 < length (filter two_grouped (of_kind c log))"
    and "length (filter two_grouped (of_kind c log)) \<le> first_max (map en_version (of_kind c log))"
    and "\<not> all_zero (of_kind c log)"
  shows "parseAdjEvents (render sep log) zero_event (adj_patterns (kind_name c)) = Panic ''index out of range''"
proof -
  let ?es = "of_kind c log" and ?i = "first_max (map en_version (of_kind c log))"
  let ?sel = "\<lambda>f. filter (\<lambda>e. f = FAlloc \<longrightarrow> two_grouped e) ?es"
  let ?ms = "map (\<lambda>f. field_hits c f (?sel f)) fields"
  have coll: "collect_matches (adj_patterns (kind_name c)) (render sep log) = Some ?ms"
    using assms(4) collect_log [OF assms(1,2), of c] by auto
  have i: "?i < length ?es" using assms(3) first_max_less [of "map en_version ?es"] by fastforce
  have ms: "length ?ms = 6" "?ms ! 0 = field_hits c FCid ?es" "?ms ! 1 = field_hits c FVersion ?es"
    "?ms ! 2 = field_hits c FFinal ?es" "?ms ! 3 = field_hits c FAlloc (filter two_grouped ?es)"
    by (simp_all add: fields_def)
  have ne: "fields \<noteq> []" by (simp add: fields_def)
  note cap = capture_hit [of _ ?ms c _ ?es ?i, OF _ _ i]
  have caps: "capture ?ms 0 (int ?i) 1 = Ok (hex_encode (en_cid (?es ! ?i)))"
    "capture ?ms 1 (int ?i) 1 = Ok (dec (unat (en_version (?es ! ?i))))"
    "capture ?ms 2 (int ?i) 1 = Ok (bool_text (en_final (?es ! ?i)))"
    using cap [of 0 FCid 0] cap [of 1 FVersion 0] cap [of 2 FFinal 0] ms ne by simp_all
  have go: "go_nth ?ms 0 = Ok (field_hits c FCid ?es)" "go_nth ?ms 1 = Ok (field_hits c FVersion ?es)"
    "go_nth ?ms 3 = Ok (field_hits c FAlloc (filter two_grouped ?es))"
    using ms by (simp_all add: go_nth_def del: map_map nth_map)
  have "go_nth (field_hits c FAlloc (filter two_grouped ?es)) (int ?i) = Panic ''index out of range''"
    using assms(5) by (simp add: go_nth_def field_hits_def)
  then have a: "capture ?ms 3 (int ?i) 1 = Panic ''index out of range''"
    unfolding capture_def go res_bind.simps by (simp only: res_bind.simps)
  have len: "length (field_hits c FCid ?es) \<noteq> 1" using assms(3) by (simp add: field_hits_def)
  have idx: "findMaxVersionIndex (field_hits c FVersion ?es) = Ok (int ?i)"
    using assms(6) by (simp add: findMax_hits all_zero_def)
  show ?thesis
    unfolding parseAdjEvents_def coll option.case go res_bind.simps if_P [OF len] idx caps
    by (simp only: res_bind.simps parse_cid parse_uint_dec parse_bool_text a)
qed

theorem mixed_amounts_panic_witness:
  "parseEventsDisputed (render '', '' [demo_entry False 1 (''500'', []), demo_entry False 2 (''1'', [''000''])])
     = Panic ''index out of range''"
proof -
  let ?log = "[demo_entry False 1 (''500'', []), demo_entry False 2 (''1'', [''000''])]"
  have "of_kind False ?log = ?log" "\<not> all_zero ?log" "map en_version ?log = [1, 2]"
    by (simp_all add: of_kind_def demo_entry_def all_zero_def)
  moreover have "filter two_grouped ?log = [demo_entry False 2 (''1'', [''000''])]"
    using demo_entry_wf by simp
  moreover have "first_max [1, 2] = 1" by (simp add: first_max_def)
  ultimately show ?thesis
    using mixed_amounts_panic [OF demo_sep, of ?log False] demo_entry_wf
    by (simp add: disputed_kind)
qed

text \<open>
  Property (events_all_bounded): on any input \<open>parseEventsAll\<close> returns at most one concluded
  and one disputed event, the concluded one first, so its appending of the address of the loop
  variable does no harm, and what it returns fits the buffer of the subscription's channel.
\<close>

theorem events_all_bounded:
  "parseEventsAll input =
     res_bind (parseEventsConcluded input) (\<lambda>conc.
     res_bind (parseEventsDisputed input) (\<lambda>disp. Ok (map Concluded conc @ map Disputed disp))) \<and>
   (case parseEventsAll input of Ok evs \<Rightarrow> length evs \<le> 2 | _ \<Rightarrow> True)"
proof -
  have eq: "parseEventsAll input =
     res_bind (parseEventsConcluded input) (\<lambda>conc.
     res_bind (parseEventsDisputed input) (\<lambda>disp. Ok (map Concluded conc @ map Disputed disp)))"
    using parse_at_most_one [of input]
    by (cases "parseEventsConcluded input"; cases "parseEventsDisputed input")
      (auto simp: parseEventsAll_def alias_loop_single)
  moreover have "length evs \<le> 2" if "parseEventsAll input = Ok evs" for evs
    using that parse_at_most_one [of input] unfolding eq by fastforce
  ultimately show ?thesis by (auto split: res.splits)
qed

text \<open>
  Property (evaluate_concluded): a channel counts as concluded exactly if one event was
  parsed and its timestamp is not in the future; for what the parser returns, the error for
  several events never occurs.
\<close>

theorem evaluate_concluded:
  "(EvaluateConcludedEvents events now = (True, None)) =
     (\<exists>e. events = [e] \<and> ev_timestamp e \<le> now) \<and>
   (case ParseEventsConcluded input of
      Ok es \<Rightarrow> EvaluateConcludedEvents es now = (False, None) \<and> es = [] \<or>
        (\<exists>e. es = [e] \<and> EvaluateConcludedEvents es now =
           (if ev_timestamp e \<le> now then (True, None)
            else (False, Some (ErrNew ''Invalid timestamp: the channel conclusion is in the future''))))
    | _ \<Rightarrow> True)"
proof
  show "(EvaluateConcludedEvents events now = (True, None)) =
     (\<exists>e. events = [e] \<and> ev_timestamp e \<le> now)"
    by (cases events; cases "tl events") (auto simp: EvaluateConcludedEvents_def not_less)
  have one: "EvaluateConcludedEvents [e] now = (if ev_timestamp e \<le> now then (True, None)
      else (False, Some (ErrNew ''Invalid timestamp: the channel conclusion is in the future'')))" for e
    by (simp add: EvaluateConcludedEvents_def not_le)
  have none: "EvaluateConcludedEvents [] now = (False, None)" by (simp add: EvaluateConcludedEvents_def)
  show "case ParseEventsConcluded input of
      Ok es \<Rightarrow> EvaluateConcludedEvents es now = (False, None) \<and> es = [] \<or>
        (\<exists>e. es = [e] \<and> EvaluateConcludedEvents es now =
           (if ev_timestamp e \<le> now then (True, None)
            else (False, Some (ErrNew ''Invalid timestamp: the channel conclusion is in the future''))))
    | _ \<Rightarrow> True"
  proof (cases "ParseEventsConcluded input")
    case (Ok es)
    then have "length es \<le> 1" using parse_at_most_one(1) [of input] by (simp add: ParseEventsConcluded_def)
    then consider "es = []" | e where "es = [e]" by (cases es; cases "tl es") auto
    then show ?thesis unfolding Ok res.case using one none by cases blast+
  qed simp_all
qed

end
