(* ===== verification/FunderEvents.thy ===== *)
theory FunderEvents
  imports AdjEvents
begin

text \<open>
  Funding events, \<open>channel/funder_events.go\<close>: the parser of the canister's funding log and the
  decision whether a participant has funded enough. The second half gives the text of a funding
  log and shows that the parser reads back exactly what was written.
\<close>

section \<open>Data and patterns\<close>

record FEvent =
  fvn_type :: string
  fvn_address :: bytes
  fvn_timestamp :: int
  fvn_total :: int

record FundedEvent =
  fv_address :: address
  fv_total :: u64
  fv_timestamp :: u64

definition rpkeys :: regex where
  "rpkeys = Seq (Lit ''Funded event: Funded_who=PublicKey(CompressedEdwardsY: ['')
     (Seq (Group (Star False (Cls AnyC))) (Lit ''])''))"

definition rptotal :: regex where
  "rptotal = Seq (Lit ''Funded_total=TotalStart'')
     (Seq (Group (Seq (plus_cls DigitC) (Star False (Seq (Lit ''_'') (plus_cls DigitC)))))
       (Lit ''TotalEnd''))"

definition rptimestamp :: regex where
  "rptimestamp = Seq (Lit ''Funded_timestamp=TimestampStart'')
     (Seq (Group (plus_cls DigitC)) (Lit ''TimestampEnd''))"

section \<open>Parsing\<close>

text \<open>The error of \<open>Atoi\<close> is ignored; the conversion to a byte keeps the low eight bits.\<close>

definition extractBytesFromString :: "string \<Rightarrow> bytes" where
  "extractBytesFromString input =
     map (\<lambda>m. of_nat (atoi_val (hd m))) (find_all (plus_cls DigitC) input)"

fun parse_funded_loop ::
  "string list list \<Rightarrow> string list list \<Rightarrow> string list list \<Rightarrow> nat \<Rightarrow> FundedEvent list res" where
  "parse_funded_loop [] totals stamps i = Ok []"
| "parse_funded_loop (m # ms) totals stamps i =
     res_bind (go_nth m 1) (\<lambda>keyText.
     res_bind (res_bind (go_nth totals (int i)) (\<lambda>t. go_nth t 1)) (\<lambda>totalStr.
     res_bind (res_bind (go_nth stamps (int i)) (\<lambda>t. go_nth t 1)) (\<lambda>stampStr.
     res_bind (parse_uint stampStr) (\<lambda>timestamp.
     res_bind (parse_uint (drop_underscores totalStr)) (\<lambda>total.
     res_bind (parse_funded_loop ms totals stamps (i + 1)) (\<lambda>events.
     Ok (\<lparr>fv_address = Address (extractBytesFromString keyText), fv_total = total,
          fv_timestamp = timestamp\<rparr> # events)))))))"

definition parseEvents :: "string \<Rightarrow> FundedEvent list res" where
  "parseEvents input =
     (let matchesPkeys = find_all rpkeys input;
          matchesTotal = find_all rptotal input;
          matchesTimestamp = find_all rptimestamp input
      in if length matchesPkeys \<noteq> length matchesTotal \<or> length matchesPkeys \<noteq> length matchesTimestamp
         then Err (ErrNew ''number of matches for public key, total, and timestamp don't match'')
         else parse_funded_loop matchesPkeys matchesTotal matchesTimestamp 0)"

text \<open>\<open>SortEvents\<close> parses; it does not sort.\<close>

definition SortEvents :: "string \<Rightarrow> FundedEvent list res" where
  "SortEvents eventString = res_bind (parseEvents eventString) (\<lambda>parsedEvents. Ok parsedEvents)"

fun add_funded :: "FundedEvent list \<Rightarrow> address \<Rightarrow> u64 \<Rightarrow> u64" where
  "add_funded [] funderAddr fundedTotal = fundedTotal"
| "add_funded (ev # events) funderAddr fundedTotal =
     (if Address_Equal (fv_address ev) (WalletAddr funderAddr)
      then add_funded events funderAddr (fundedTotal + fv_total ev)
      else add_funded events funderAddr fundedTotal)"

definition EvaluateFundedEvents :: "FundedEvent list \<Rightarrow> address \<Rightarrow> u64 \<Rightarrow> u64 \<Rightarrow> bool res" where
  "EvaluateFundedEvents events funderAddr freqAmount fundedTotal =
     (if add_funded events funderAddr fundedTotal \<ge> freqAmount then Ok True else Ok False)"

section \<open>The text of a funding log\<close>

record fund_entry =
  fu_who :: bytes
  fu_total :: grouped
  fu_stamp :: u64

datatype ffield = FWho | FTotal | FTime

definition ffields :: "ffield list" where
  "ffields = [FWho, FTotal, FTime]"

primrec flit :: "ffield \<Rightarrow> string" where
  "flit FWho = ''Funded event: Funded_who=PublicKey(CompressedEdwardsY: [''"
| "flit FTotal = ''Funded_total=TotalStart''"
| "flit FTime = ''Funded_timestamp=TimestampStart''"

primrec fend :: "ffield \<Rightarrow> string" where
  "fend FWho = ''])''"
| "fend FTotal = ''TotalEnd''"
| "fend FTime = ''TimestampEnd''"

fun byte_list_text :: "bytes \<Rightarrow> string" where
  "byte_list_text [] = []"
| "byte_list_text [b] = dec (unat b)"
| "byte_list_text (b # bs) = dec (unat b) @ '', '' @ byte_list_text bs"

primrec ftext :: "ffield \<Rightarrow> fund_entry \<Rightarrow> string" where
  "ftext FWho e = byte_list_text (fu_who e)"
| "ftext FTotal e = group_text (fu_total e)"
| "ftext FTime e = dec (unat (fu_stamp e))"

definition fseg_text :: "string \<Rightarrow> ffield \<times> fund_entry \<Rightarrow> string" where
  "fseg_text sep s = flit (fst s) @ ftext (fst s) (snd s) @ fend (fst s) @ sep"

definition fsegments :: "fund_entry list \<Rightarrow> (ffield \<times> fund_entry) list" where
  "fsegments log = concat (map (\<lambda>e. map (\<lambda>f. (f, e)) ffields) log)"

definition frender :: "string \<Rightarrow> fund_entry list \<Rightarrow> string" where
  "frender sep log = concat (map (fseg_text sep) (fsegments log))"

definition wf_fund :: "fund_entry \<Rightarrow> bool" where
  "wf_fund e \<longleftrightarrow> wf_group (fu_total e) \<and> group_value (fu_total e) < 2 ^ 64"

definition fund_event :: "fund_entry \<Rightarrow> FundedEvent" where
  "fund_event e = \<lparr>fv_address = Address (fu_who e), fv_total = of_nat (group_value (fu_total e)),
     fv_timestamp = fu_stamp e\<rparr>"

section \<open>The patterns on the text\<close>

primrec ftail :: "ffield \<Rightarrow> regex" where
  "ftail FWho = Seq (Group (Star False (Cls AnyC))) (Lit ''])'')"
| "ftail FTotal = Seq (Group (Seq (plus_cls DigitC) (Star False (Seq (Lit ''_'') (plus_cls DigitC)))))
     (Lit ''TotalEnd'')"
| "ftail FTime = Seq (Group (plus_cls DigitC)) (Lit ''TimestampEnd'')"

lemma patterns_fields:
  "rpkeys = Seq (Lit (flit FWho)) (ftail FWho)"
  "rptotal = Seq (Lit (flit FTotal)) (ftail FTotal)"
  "rptimestamp = Seq (Lit (flit FTime)) (ftail FTime)"
  by (simp_all add: rpkeys_def rptotal_def rptimestamp_def)

lemma fno_start_check:
  "list_all (\<lambda>f. list_all (\<lambda>g. (f = g \<or> no_start (flit f) (flit g)) \<and> no_start (flit f) (fend g)) ffields) ffields"
  by code_simp

lemma ffields_UNIV: "f \<in> set ffields"
  by (cases f) (simp_all add: ffields_def)

lemma fno_start_lit: "f \<noteq> g \<Longrightarrow> no_start (flit f) (flit g)"
  using fno_start_check ffields_UNIV [of f] ffields_UNIV [of g] by (auto simp: list_all_iff)

lemma fno_start_end: "no_start (flit f) (fend g)"
  using fno_start_check ffields_UNIV [of f] ffields_UNIV [of g] by (auto simp: list_all_iff)

lemma fno_start_F: "CHR ''F'' \<notin> set x \<Longrightarrow> no_start (flit f) x"
  by (cases f) (simp_all add: no_start_hd)

lemma byte_list_chars: "c \<in> set (byte_list_text bs) \<Longrightarrow> is_digit c \<or> c = CHR '','' \<or> c = CHR '' ''"
  by (induction bs rule: byte_list_text.induct) (auto dest: dec_digits)

lemma ftext_no_F:
  assumes "wf_fund e"
  shows "CHR ''F'' \<notin> set (ftext f e)"
proof -
  have "\<not> is_digit (CHR ''F'')" by (simp add: is_digit_def)
  then show ?thesis using assms
    by (cases f) (auto simp: wf_fund_def dest!: byte_list_chars group_text_chars dec_digits)
qed

lemma who_field:
  "\<exists>more. matches (ftail FWho) (ftext FWho e @ fend FWho @ t) = (t, [ftext FWho e]) # more"
proof -
  let ?ds = "byte_list_text (fu_who e)"
  have d: "c \<noteq> CHR '']'' \<and> c \<noteq> CHR 0x0A" if "c \<in> set ?ds" for c
    using byte_list_chars [OF that] by (auto simp: is_digit_def)
  have "matches (Lit ''])'') (drop k ?ds @ ''])'' @ t) = []" if "k < length ?ds" for k
  proof -
    have "drop k ?ds = ?ds ! k # drop (Suc k) ?ds" using that by (simp add: Cons_nth_drop_Suc)
    moreover have "?ds ! k \<noteq> CHR '']''" using d that by simp
    ultimately show ?thesis by simp
  qed
  with d show ?thesis
    using group_lazy_first [of ?ds AnyC "Lit ''])''" "''])'' @ t" t "[]" "[]"] by simp
qed

lemma total_field:
  assumes "wf_fund e"
  shows "\<exists>more. matches (ftail FTotal) (ftext FTotal e @ fend FTotal @ t) = (t, [ftext FTotal e]) # more"
proof -
  have "matches (ftail FTotal) (group_text (fu_total e) @ CHR ''T'' # ''otalEnd'' @ t) = [(t, [group_text (fu_total e)])]"
    unfolding group_text_def ftail.simps
    by (rule group_sep_first) (use assms in \<open>auto simp: wf_fund_def wf_group_def wf_digits_def list_all_iff is_digit_def\<close>)
  then show ?thesis by simp
qed

lemma ffield_first:
  assumes "wf_fund e"
  shows "\<exists>more. matches (ftail f) (ftext f e @ fend f @ t) = (t, [ftext f e]) # more"
proof (cases f)
  case FTime
  then show ?thesis
    using digits_field [of "dec (unat (fu_stamp e))" "''TimestampEnd''" "CHR ''T''" "''imestampEnd''" t]
    by (simp add: wf_dec is_digit_def del: matches.simps)
qed (use who_field total_field [OF assms] in \<open>simp_all del: matches.simps\<close>)

definition fseg_match :: "ffield \<Rightarrow> ffield \<times> fund_entry \<Rightarrow> (string \<times> string list) option" where
  "fseg_match f s = (if fst s = f
     then Some (flit f @ ftext f (snd s) @ fend f, [ftext f (snd s)]) else None)"

definition wf_fsep :: "string \<Rightarrow> bool" where
  "wf_fsep sep \<longleftrightarrow> CHR ''F'' \<notin> set sep"

lemma fseg_match_ok:
  assumes "wf_fsep sep" and "wf_fund (snd s)"
  shows "seg_ok (flit f) (ftail f) (fseg_text sep s) (fseg_match f s)"
proof -
  obtain g e where s: "s = (g, e)" by (cases s)
  have w: "wf_fund e" using assms(2) s by simp
  have sep: "no_start (flit f) sep" using assms(1) by (simp add: wf_fsep_def fno_start_F)
  show ?thesis
  proof (cases "g = f")
    case False
    have "no_start (flit f) (flit g @ ftext g e @ fend g @ sep)"
      using False by (intro no_start_append fno_start_lit fno_start_end fno_start_F ftext_no_F w sep) auto
    then show ?thesis using False s by (simp add: fseg_match_def fseg_text_def)
  next
    case True
    then have t: "fseg_text sep s = (flit f @ ftext f e @ fend f) @ sep"
      by (simp add: fseg_text_def s)
    have "\<exists>more. matches (Seq (Lit (flit f)) (ftail f)) (fseg_text sep s @ u) = (sep @ u, [ftext f e]) # more" for u
      using ffield_first [OF w, of f "sep @ u"]
      unfolding t append_assoc by (simp only: matches_lit_seq strip_append option.case)
    moreover have "flit f @ ftext f e @ fend f \<noteq> []" by (cases f) simp_all
    ultimately show ?thesis using True s t sep
      by (auto simp: fseg_match_def simp del: matches.simps)
  qed
qed

lemma find_ffield:
  assumes "wf_fsep sep" and "list_all wf_fund log"
  shows "find_all (Seq (Lit (flit f)) (ftail f)) (frender sep log) =
    map (\<lambda>e. [flit f @ ftext f e @ fend f, ftext f e]) log"
proof -
  have "\<forall>s\<in>set (fsegments log). seg_ok (flit f) (ftail f) (fseg_text sep s) (fseg_match f s)"
    using assms by (auto simp: fsegments_def list_all_iff intro!: fseg_match_ok)
  then have "find_all (Seq (Lit (flit f)) (ftail f)) (frender sep log) =
      concat (map (\<lambda>s. seg_hit (fseg_match f s)) (fsegments log))"
    unfolding frender_def by (rule find_all_segs)
  also have "\<dots> = map (\<lambda>e. [flit f @ ftext f e @ fend f, ftext f e]) log"
    by (induction log) (cases f; simp add: fsegments_def ffields_def fseg_match_def seg_hit_def)+
  finally show ?thesis .
qed

text \<open>Digit runs in a text.\<close>

lemma find_digit_skip: "\<not> is_digit c \<Longrightarrow> find_all (plus_cls DigitC) (c # s) = find_all (plus_cls DigitC) s"
  by simp

lemma find_digit_run:
  assumes "wf_digits ds" and "rest = [] \<or> \<not> is_digit (hd rest)"
  shows "find_all (plus_cls DigitC) (ds @ rest) = [ds] # find_all (plus_cls DigitC) rest"
proof -
  have "run_len DigitC rest = 0" using assms(2) by (cases rest) auto
  then have "run_len DigitC (ds @ rest) = length ds"
    using assms(1) by (simp add: run_len_append wf_digits_def list_all_iff)
  moreover have "rev [1..<Suc (length ds)] = length ds # rev [1..<length ds]"
    using assms(1) by (cases ds) (auto simp: wf_digits_def)
  ultimately have "matches (plus_cls DigitC) (ds @ rest) =
      (rest, []) # map (\<lambda>k. (drop k (ds @ rest), [])) (rev [1..<length ds])"
    by (simp add: plus_cls_matches del: upt_Suc matches.simps)
  then show ?thesis
    using assms(1) by (intro find_all_hit) (auto simp: wf_digits_def)
qed

lemma find_byte_list:
  "find_all (plus_cls DigitC) (byte_list_text bs) = map (\<lambda>b. [dec (unat b)]) bs"
proof (induction bs rule: byte_list_text.induct)
  case (2 b)
  then show ?case using find_digit_run [of "dec (unat b)" "[]"] by (simp add: wf_dec)
next
  case (3 b c bs)
  have "find_all (plus_cls DigitC) (dec (unat b) @ '', '' @ byte_list_text (c # bs)) =
      [dec (unat b)] # find_all (plus_cls DigitC) ('', '' @ byte_list_text (c # bs))"
    by (rule find_digit_run) (simp_all add: wf_dec is_digit_def)
  also have "find_all (plus_cls DigitC) ('', '' @ byte_list_text (c # bs)) =
      find_all (plus_cls DigitC) (byte_list_text (c # bs))"
    unfolding append_Cons append_Nil
    by (subst find_digit_skip, simp add: is_digit_def, subst find_digit_skip) (simp_all add: is_digit_def)
  finally show ?case using "3.IH" by simp
qed simp

lemma extract_byte_list: "extractBytesFromString (byte_list_text bs) = bs"
proof -
  have "of_nat (atoi_val (dec (unat b))) = b" for b :: byte
  proof -
    have "unat b \<le> 9223372036854775807" using unat_byte_less [of b] by linarith
    then show ?thesis by (simp add: atoi_val_def min_def)
  qed
  then show ?thesis by (simp add: extractBytesFromString_def find_byte_list o_def)
qed

lemma parse_funded_entries:
  assumes "list_all wf_fund log"
  shows "parse_funded_loop (map (\<lambda>e. [a e, ftext FWho e]) log)
     (map (\<lambda>e. [b e, ftext FTotal e]) (pre @ log)) (map (\<lambda>e. [c e, ftext FTime e]) (pre @ log)) (length pre)
   = Ok (map fund_event log)"
  using assms
proof (induction log arbitrary: pre)
  case (Cons e log)
  have go: "go_nth (map f (pre @ e # log)) (int (length pre)) = Ok (f e)" for f :: "fund_entry \<Rightarrow> string list"
    using go_nth_ok [of "length pre" "map f (pre @ e # log)"] by (simp add: nth_append)
  have one: "go_nth [x, y] 1 = Ok y" for x y :: string by (simp add: go_nth_def)
  have w: "wf_group (fu_total e)" "group_value (fu_total e) < 2 ^ 64" using Cons.prems by (simp_all add: wf_fund_def)
  have IH: "parse_funded_loop (map (\<lambda>e. [a e, ftext FWho e]) log)
     (map (\<lambda>e. [b e, ftext FTotal e]) (pre @ e # log)) (map (\<lambda>e. [c e, ftext FTime e]) (pre @ e # log)) (length pre + 1)
   = Ok (map fund_event log)"
    using Cons.IH [of "pre @ [e]"] Cons.prems by simp
  show ?case
    unfolding list.map parse_funded_loop.simps one go res_bind.simps IH
    by (simp add: parse_group [OF w] extract_byte_list fund_event_def)
qed simp

lemma parse_funding_log:
  assumes "wf_fsep sep" and "list_all wf_fund log"
  shows "parseEvents (frender sep log) = Ok (map fund_event log)"
proof -
  have m: "find_all rpkeys (frender sep log) = map (\<lambda>e. [flit FWho @ ftext FWho e @ fend FWho, ftext FWho e]) log"
    "find_all rptotal (frender sep log) = map (\<lambda>e. [flit FTotal @ ftext FTotal e @ fend FTotal, ftext FTotal e]) log"
    "find_all rptimestamp (frender sep log) = map (\<lambda>e. [flit FTime @ ftext FTime e @ fend FTime, ftext FTime e]) log"
    unfolding patterns_fields by (rule find_ffield [OF assms])+
  show ?thesis
    unfolding parseEvents_def Let_def m
    using parse_funded_entries [OF assms(2), of _ _ "[]"] by (simp del: ftext.simps flit.simps fend.simps)
qed

section \<open>Properties\<close>

text \<open>
  Property C2 (funding_log_roundtrip): the parser reads a funding log back exactly: every entry,
  in order, with its key, its total however the digits are grouped, and its timestamp.
\<close>

theorem funding_log_roundtrip:
  assumes "wf_fsep sep" and "list_all wf_fund log"
  shows "SortEvents (frender sep log) = Ok (map fund_event log)"
  by (simp add: SortEvents_def parse_funding_log [OF assms])

definition demo_fund :: "byte \<Rightarrow> fund_entry" where
  "demo_fund b = \<lparr>fu_who = [b, 10, 255], fu_total = (''1'', [''234'', ''567'']), fu_stamp = 9\<rparr>"

lemma demo_fund_wf: "wf_fund (demo_fund b)"
  by (simp add: demo_fund_def wf_fund_def wf_group_def wf_digits_def is_digit_def group_value_def digit_val_def)

theorem funding_log_roundtrip_witness:
  "SortEvents (frender '', '' [demo_fund 1, demo_fund 2]) =
     Ok [\<lparr>fv_address = Address [1, 10, 255], fv_total = 1234567, fv_timestamp = 9\<rparr>,
         \<lparr>fv_address = Address [2, 10, 255], fv_total = 1234567, fv_timestamp = 9\<rparr>]"
  using funding_log_roundtrip [of "'', ''" "[demo_fund 1, demo_fund 2]"] demo_fund_wf
  by (simp add: wf_fsep_def fund_event_def demo_fund_def group_value_def digit_val_def)

text \<open>What a participant has paid in, as a number.\<close>

definition own_total :: "FundedEvent list \<Rightarrow> address \<Rightarrow> nat" where
  "own_total events a = sum_list (map (\<lambda>e. unat (fv_total e)) (filter (\<lambda>e. fv_address e = a) events))"

lemma Address_Equal_wallet: "Address_Equal a (WalletAddr b) = (a = b)"
  by simp

lemma add_funded_unat:
  "unat (add_funded events a t) = (unat t + own_total events a) mod 2 ^ 64"
proof (induction events arbitrary: t)
  case Nil
  then show ?case using unat_u64_less [of t] by (simp add: own_total_def)
next
  case (Cons e events)
  have "unat (t + fv_total e) = (unat t + unat (fv_total e)) mod 2 ^ 64"
    by (simp add: unat_word_ariths)
  then show ?case using Cons
    by (simp add: own_total_def mod_add_left_eq add.assoc del: Address_Equal.simps add: Address_Equal_wallet)
qed

lemma evaluate_funded:
  "EvaluateFundedEvents es a amount t = Ok (unat amount \<le> (unat t + own_total es a) mod 2 ^ 64)"
  by (simp add: EvaluateFundedEvents_def word_le_nat_alt add_funded_unat)

text \<open>What a log shows as paid in by a key.\<close>

definition paid :: "fund_entry list \<Rightarrow> bytes \<Rightarrow> nat" where
  "paid log pk = sum_list (map (\<lambda>e. group_value (fu_total e)) (filter (\<lambda>e. fu_who e = pk) log))"

lemma own_total_paid:
  "list_all wf_fund log \<Longrightarrow> own_total (map fund_event log) (Address pk) = paid log pk"
  by (induction log)
    (auto simp: own_total_def paid_def fund_event_def wf_fund_def unat_of_nat)

lemma paid_append [simp]: "paid (log @ log') pk = paid log pk + paid log' pk"
  by (simp add: paid_def)

text \<open>
  Property (funded_decision): the funder counts exactly the events of its own address, on top
  of what was counted before, modulo \<open>2 ^ 64\<close>, and decides that it has funded when the sum
  reaches the requested amount. The order of the events does not matter.
\<close>

theorem funded_decision:
  "EvaluateFundedEvents events a amount before =
     Ok (unat amount \<le> (unat before + own_total events a) mod 2 ^ 64) \<and>
   EvaluateFundedEvents (rev events) a amount before = EvaluateFundedEvents events a amount before \<and>
   EvaluateFundedEvents (es @ events) a amount before =
     EvaluateFundedEvents events a amount (add_funded es a before)"
proof -
  have rev: "own_total (rev events) a = own_total events a"
    by (simp add: own_total_def rev_filter [symmetric] rev_map [symmetric])
  have app: "own_total (es @ events) a = own_total es a + own_total events a"
    by (simp add: own_total_def)
  have "(unat before + (own_total es a + own_total events a)) mod 2 ^ 64 =
      (unat (add_funded es a before) + own_total events a) mod 2 ^ 64"
    unfolding add_funded_unat by (simp add: mod_add_left_eq add.assoc)
  then show ?thesis unfolding evaluate_funded rev app by simp
qed

end
