(* ===== verification/IcPerun.thy ===== *)
theory IcPerun
  imports Prelude
begin

text \<open>
  The typed client of the Perun canister, \<open>channel/connector/icperun/icperun.go\<close>: the records of
  its interface and one operation per canister method. Candid encoding and the call itself are
  the agent library's; they are the fields of the record \<open>icAgent\<close>, over an arbitrary state
  \<open>'w\<close> of the network. A Go result \<open>(value, err)\<close> is a pair, so that what an operation returns
  beside an error is visible.
\<close>

section \<open>Data\<close>

text \<open>The interface's names for its types; \<open>[32]byte\<close> and \<open>[]uint8\<close> are lists of bytes here.\<close>

type_synonym principal = bytes
type_synonym amount = int
type_synonym ChannelId = bytes
type_synonym Hash = bytes
type_synonym Signature = Hash
type_synonym Duration = u64
type_synonym ErrorTxt = string
type_synonym L2Account = bytes
type_synonym EventTxt = string
type_synonym Nonce = bytes
type_synonym Timestamp = u64

record AdjRequest =
  aq_nonce :: Nonce
  aq_participants :: "L2Account list"
  aq_challenge :: Duration
  aq_channel :: ChannelId
  aq_version :: u64
  aq_allocation :: "amount list"
  aq_finalized :: bool
  aq_sigs :: "Signature list"

record CState =
  cs_channel :: ChannelId
  cs_version :: u64
  cs_allocation :: "amount list"
  cs_finalized :: bool

record FullySignedState =
  fs_state :: CState
  fs_sigs :: "bytes list"

record RegisteredState =
  rs_state :: CState
  rs_timeout :: Timestamp

record CParams =
  cp_nonce :: Nonce
  cp_participants :: "L2Account list"
  cp_challenge :: Duration

record FundMem =
  fm_channel :: ChannelId
  fm_participant :: L2Account
  fm_memo :: u64

record CFunding =
  cf_channel :: ChannelId
  cf_participant :: L2Account

record WithdrawalRequest =
  wr_channel :: ChannelId
  wr_participant :: L2Account
  wr_receiver :: principal
  wr_sig :: Signature
  wr_time :: Timestamp

record ChannelTime =
  ct_channel :: ChannelId
  ct_time :: Timestamp

record HolderTotal =
  ht_who :: L2Account
  ht_total :: amount

definition NewBigNat :: "int \<Rightarrow> amount" where
  "NewBigNat b = b"

text \<open>The arguments that are marshalled, and what a call can leave in its out-parameter.\<close>

datatype candid =
    ArgAdj AdjRequest
  | ArgFunding CFunding
  | ArgTime ChannelTime
  | ArgId bytes
  | ArgU64 u64
  | ArgWithdraw WithdrawalRequest
  | ArgFundMem FundMem

datatype reply = RText string | RNat "amount option" | RState "RegisteredState option" | RUnit

datatype call_mode = Update | Query

record 'w icAgent =
  ag_marshal :: "candid \<Rightarrow> err + bytes"
  ag_call :: "call_mode \<Rightarrow> principal \<Rightarrow> string \<Rightarrow> bytes \<Rightarrow> 'w \<Rightarrow> (err + reply) \<times> 'w"
  ag_canister :: principal

type_synonym 'a goret = "'a \<times> err option"

text \<open>
  \<open>NewAgent\<close>: the library's \<open>agent.New\<close> has made the transport, or failed; the canister's id is
  added to it.
\<close>

definition NewAgent :: "principal \<Rightarrow> err + 'w icAgent \<Rightarrow> 'w icAgent option goret" where
  "NewAgent canisterId made = (case made of
     Inl e \<Rightarrow> (None, Some e)
   | Inr a \<Rightarrow> (Some (a\<lparr>ag_canister := canisterId\<rparr>), None))"

text \<open>Decoding a reply into an out-parameter of another type is an error of the library.\<close>

definition ErrDecode :: err where
  "ErrDecode = ErrExt ''candid: cannot decode into the given type''"

section \<open>Operations\<close>

definition Conclude :: "'w icAgent \<Rightarrow> AdjRequest \<Rightarrow> 'w \<Rightarrow> ErrorTxt goret \<times> 'w" where
  "Conclude a arg w = (case ag_marshal a (ArgAdj arg) of
     Inl e \<Rightarrow> (('''', Some e), w)
   | Inr args \<Rightarrow> (case ag_call a Update (ag_canister a) ''conclude'' args w of
        (Inl e, w') \<Rightarrow> (('''', Some e), w')
      | (Inr (RText r0), w') \<Rightarrow> ((r0, None), w')
      | (Inr _, w') \<Rightarrow> (('''', Some ErrDecode), w')))"

definition Dispute :: "'w icAgent \<Rightarrow> AdjRequest \<Rightarrow> 'w \<Rightarrow> ErrorTxt goret \<times> 'w" where
  "Dispute a arg w = (case ag_marshal a (ArgAdj arg) of
     Inl e \<Rightarrow> (('''', Some e), w)
   | Inr args \<Rightarrow> (case ag_call a Update (ag_canister a) ''dispute'' args w of
        (Inl e, w') \<Rightarrow> (('''', Some e), w')
      | (Inr (RText r0), w') \<Rightarrow> ((r0, None), w')
      | (Inr _, w') \<Rightarrow> (('''', Some ErrDecode), w')))"

text \<open>
  \<open>QueryHoldings\<close> returns a pointer to a pointer: nil on an error, otherwise a pointer to what
  the canister sent, which itself is nil for its null.
\<close>

definition QueryHoldings ::
  "'w icAgent \<Rightarrow> CFunding \<Rightarrow> 'w \<Rightarrow> amount option option goret \<times> 'w" where
  "QueryHoldings a arg w = (case ag_marshal a (ArgFunding arg) of
     Inl e \<Rightarrow> ((None, Some e), w)
   | Inr args \<Rightarrow> (case ag_call a Query (ag_canister a) ''query_holdings'' args w of
        (Inl e, w') \<Rightarrow> ((None, Some e), w')
      | (Inr (RNat r0), w') \<Rightarrow> ((Some r0, None), w')
      | (Inr _, w') \<Rightarrow> ((None, Some ErrDecode), w')))"

definition QueryEvents :: "'w icAgent \<Rightarrow> ChannelTime \<Rightarrow> 'w \<Rightarrow> EventTxt goret \<times> 'w" where
  "QueryEvents a arg w = (case ag_marshal a (ArgTime arg) of
     Inl e \<Rightarrow> (('''', Some e), w)
   | Inr args \<Rightarrow> (case ag_call a Query (ag_canister a) ''query_events'' args w of
        (Inl e, w') \<Rightarrow> (('''', Some e), w')
      | (Inr (RText r0), w') \<Rightarrow> ((r0, None), w')
      | (Inr _, w') \<Rightarrow> (('''', Some ErrDecode), w')))"

definition QueryState ::
  "'w icAgent \<Rightarrow> bytes \<Rightarrow> 'w \<Rightarrow> RegisteredState option goret \<times> 'w" where
  "QueryState a arg w = (case ag_marshal a (ArgId arg) of
     Inl e \<Rightarrow> ((None, Some e), w)
   | Inr args \<Rightarrow> (case ag_call a Update (ag_canister a) ''query_state'' args w of
        (Inl e, w') \<Rightarrow> ((None, Some e), w')
      | (Inr (RState r0), w') \<Rightarrow> ((r0, None), w')
      | (Inr _, w') \<Rightarrow> ((None, Some ErrDecode), w')))"

definition TransactionNotification ::
  "'w icAgent \<Rightarrow> u64 \<Rightarrow> 'w \<Rightarrow> amount option option goret \<times> 'w" where
  "TransactionNotification a arg w = (case ag_marshal a (ArgU64 arg) of
     Inl e \<Rightarrow> ((None, Some e), w)
   | Inr args \<Rightarrow> (case ag_call a Update (ag_canister a) ''transaction_notification'' args w of
        (Inl e, w') \<Rightarrow> ((None, Some e), w')
      | (Inr (RNat r0), w') \<Rightarrow> ((Some r0, None), w')
      | (Inr _, w') \<Rightarrow> ((None, Some ErrDecode), w')))"

definition Withdraw :: "'w icAgent \<Rightarrow> WithdrawalRequest \<Rightarrow> 'w \<Rightarrow> string goret \<times> 'w" where
  "Withdraw a arg w = (case ag_marshal a (ArgWithdraw arg) of
     Inl e \<Rightarrow> (('''', Some e), w)
   | Inr args \<Rightarrow> (case ag_call a Update (ag_canister a) ''withdraw'' args w of
        (Inl e, w') \<Rightarrow> (('''', Some e), w')
      | (Inr (RText r0), w') \<Rightarrow> ((r0, None), w')
      | (Inr _, w') \<Rightarrow> (('''', Some ErrDecode), w')))"

definition Deposit :: "'w icAgent \<Rightarrow> CFunding \<Rightarrow> 'w \<Rightarrow> string option goret \<times> 'w" where
  "Deposit a arg w = (case ag_marshal a (ArgFunding arg) of
     Inl e \<Rightarrow> ((None, Some e), w)
   | Inr args \<Rightarrow> (case ag_call a Update (ag_canister a) ''deposit'' args w of
        (Inl e, w') \<Rightarrow> ((None, Some e), w')
      | (Inr (RText r0), w') \<Rightarrow> ((Some r0, None), w')
      | (Inr _, w') \<Rightarrow> ((None, Some ErrDecode), w')))"

definition RegisterEvent :: "'w icAgent \<Rightarrow> FundMem \<Rightarrow> 'w \<Rightarrow> err option \<times> 'w" where
  "RegisterEvent a arg w = (case ag_marshal a (ArgFundMem arg) of
     Inl e \<Rightarrow> (Some e, w)
   | Inr args \<Rightarrow> (case ag_call a Update (ag_canister a) ''deposit_memo'' args w of
        (Inl e, w') \<Rightarrow> (Some e, w')
      | (Inr _, w') \<Rightarrow> (None, w')))"

section \<open>Interface: a canister method\<close>

text \<open>
  What the callers of these operations rely on: on an error the value is the zero value of its
  type, and a request that cannot be marshalled leaves the network untouched.
\<close>

locale canister_method =
  fixes op :: "'a \<Rightarrow> 'w \<Rightarrow> 'r goret \<times> 'w"
    and zero :: 'r
    and bad :: "'a \<Rightarrow> bool"
  assumes err_zero: "op x w = ((r, Some e), w') \<Longrightarrow> r = zero"
    and bad_rejected: "bad x \<Longrightarrow> \<exists>e. op x w = ((zero, Some e), w)"
begin

lemma nonzero_ok: "op x w = ((r, oe), w') \<Longrightarrow> r \<noteq> zero \<Longrightarrow> oe = None"
  using err_zero by (cases oe) auto

lemma bad_untouched: "bad x \<Longrightarrow> snd (op x w) = w"
  using bad_rejected [of x w] by auto

end

definition unmarshallable :: "'w icAgent \<Rightarrow> candid \<Rightarrow> bool" where
  "unmarshallable a c = isl (ag_marshal a c)"

lemmas agent_defs = Conclude_def Dispute_def QueryHoldings_def QueryEvents_def QueryState_def
  TransactionNotification_def Withdraw_def Deposit_def RegisterEvent_def

interpretation conclude_method:
  canister_method "Conclude a" "''''" "\<lambda>x. unmarshallable a (ArgAdj x)" for a :: "'w icAgent"
  by unfold_locales
    (auto simp: agent_defs unmarshallable_def split: sum.splits prod.splits reply.splits)

interpretation dispute_method:
  canister_method "Dispute a" "''''" "\<lambda>x. unmarshallable a (ArgAdj x)" for a :: "'w icAgent"
  by unfold_locales
    (auto simp: agent_defs unmarshallable_def split: sum.splits prod.splits reply.splits)

interpretation holdings_method:
  canister_method "QueryHoldings a" None "\<lambda>x. unmarshallable a (ArgFunding x)"
    for a :: "'w icAgent"
  by unfold_locales
    (auto simp: agent_defs unmarshallable_def split: sum.splits prod.splits reply.splits)

interpretation events_method:
  canister_method "QueryEvents a" "''''" "\<lambda>x. unmarshallable a (ArgTime x)" for a :: "'w icAgent"
  by unfold_locales
    (auto simp: agent_defs unmarshallable_def split: sum.splits prod.splits reply.splits)

interpretation state_method:
  canister_method "QueryState a" None "\<lambda>x. unmarshallable a (ArgId x)" for a :: "'w icAgent"
  by unfold_locales
    (auto simp: agent_defs unmarshallable_def split: sum.splits prod.splits reply.splits)

interpretation notify_method:
  canister_method "TransactionNotification a" None "\<lambda>x. unmarshallable a (ArgU64 x)"
    for a :: "'w icAgent"
  by unfold_locales
    (auto simp: agent_defs unmarshallable_def split: sum.splits prod.splits reply.splits)

interpretation withdraw_method:
  canister_method "Withdraw a" "''''" "\<lambda>x. unmarshallable a (ArgWithdraw x)" for a :: "'w icAgent"
  by unfold_locales
    (auto simp: agent_defs unmarshallable_def split: sum.splits prod.splits reply.splits)

interpretation deposit_method:
  canister_method "Deposit a" None "\<lambda>x. unmarshallable a (ArgFunding x)" for a :: "'w icAgent"
  by unfold_locales
    (auto simp: agent_defs unmarshallable_def split: sum.splits prod.splits reply.splits)

end
