(* ===== verification/Funder.thy ===== *)
theory Funder
  imports FunderEvents ChannelBackend IcPerun
begin

text \<open>
  Funding a channel: \<open>channel/connector/services.go\<close> (transfer, notification, deposit, the mutex
  around the canister calls) and \<open>channel/funder.go\<close> (deposit requests, \<open>Fund\<close>, waiting for the
  canister to report the funds). The ledger agent, account identifiers and go-perun's comparison
  of balances are parameters. A Go call that panics has released its deferred mutex, which the
  model keeps: the state after a panic is part of every result.
\<close>

section \<open>Data\<close>

record TransferArgs =
  ta_memo :: u64
  ta_amount :: u64
  ta_fee :: u64
  ta_from :: "bytes option"
  ta_to :: bytes
  ta_created :: "u64 option"

record TransferError =
  te_bad_fee :: "u64 option"
  te_insufficient :: "u64 option"
  te_too_old :: "u64 option"
  te_future :: bool
  te_duplicate :: "u64 option"

record TransferResult =
  tr_ok :: "u64 option"
  tr_err :: "TransferError option"

text \<open>
  \<open>Connector\<close>, without the logger and the agent \<open>ICAgent\<close>, which nothing reads after construction;
  the last two fields are functions of the principal library.
\<close>

record 'w Connector =
  con_agent :: "'w icAgent"
  con_ledger :: "TransferArgs \<Rightarrow> 'w \<Rightarrow> TransferResult option goret \<times> 'w"
  con_perunID :: principal
  con_ledgerID :: principal
  con_l1 :: principal
  con_account_id :: "principal \<Rightarrow> bytes"
  con_decode :: "string \<Rightarrow> principal"

text \<open>The network and the package's \<open>connMutex\<close>.\<close>

record 'w fworld =
  fw_net :: 'w
  fw_locked :: bool

record DepositReq =
  dr_balance :: int
  dr_fee :: int
  dr_account :: bytes
  dr_funding :: Funding

record 'a FundingReq =
  fr_params :: "'a pParams"
  fr_state_balances :: "int list list"
  fr_idx :: nat
  fr_agreement :: "int list list"

record FundingEventSub =
  fs_address :: address
  fs_idx :: nat
  fs_chanId :: bytes
  fs_timestamp :: u64
  fs_queryArgs :: ChannelTime
  fs_agreement :: "int list list"
  fs_pollInterval :: duration
  fs_maxIters :: nat

text \<open>A go-perun account: this package's \<open>*wallet.Account\<close>, a private key, or another.\<close>

datatype paccount = WalletAcc bytes | OtherAcc

record 'w Funder =
  fd_acc :: bytes
  fd_conn :: "'w Connector"

definition DefaultMaxIters :: nat where "DefaultMaxIters = 15"

definition DefaultPollInterval :: duration where "DefaultPollInterval = 3 * Second"

section \<open>Transfers (\<open>services.go\<close>)\<close>

definition BuildDeposit :: "address \<Rightarrow> bytes \<Rightarrow> CFunding res" where
  "BuildDeposit addr cid = (case Address_MarshalBinary addr of
     Ok addrbytes \<Rightarrow> Ok \<lparr>cf_channel = cid, cf_participant = addrbytes\<rparr>
   | Err e \<Rightarrow> Panic ''MarshalBinary''
   | Panic m \<Rightarrow> Panic m
   | Hang \<Rightarrow> Hang)"

text \<open>\<open>connMutex.Lock()\<close>, the body, and the deferred \<open>Unlock()\<close>, which a panic runs as well.\<close>

definition with_mutex :: "('w \<Rightarrow> 'a res \<times> 'w) \<Rightarrow> 'w fworld \<Rightarrow> 'a res \<times> 'w fworld" where
  "with_mutex body w =
     (if fw_locked w then (Hang, w)
      else let w1 = w\<lparr>fw_locked := True\<rparr>; (r, n) = body (fw_net w1)
           in (r, w1\<lparr>fw_net := n, fw_locked := False\<rparr>))"

text \<open>The part of \<open>DepositToPerunChannel\<close> that runs under the mutex.\<close>

definition deposit_body :: "'w Connector \<Rightarrow> CFunding \<Rightarrow> 'w \<Rightarrow> unit res \<times> 'w" where
  "deposit_body c depositArgs n = (case Deposit (con_agent c) depositArgs n of
     ((_, Some e), n') \<Rightarrow> (Err (ErrFmt ''error depositing'' e), n')
   | ((_, None), n') \<Rightarrow> (Ok (), n'))"

definition DepositToPerunChannel ::
  "'w Connector \<Rightarrow> address \<Rightarrow> bytes \<Rightarrow> 'w fworld \<Rightarrow> unit res \<times> 'w fworld" where
  "DepositToPerunChannel c addr cid w = (case BuildDeposit addr cid of
     Ok depositArgs \<Rightarrow> with_mutex (deposit_body c depositArgs) w
   | Err e \<Rightarrow> (Err e, w)
   | Panic m \<Rightarrow> (Panic m, w)
   | Hang \<Rightarrow> (Hang, w))"

definition MakeTransferArgs :: "'w Connector \<Rightarrow> u64 \<Rightarrow> u64 \<Rightarrow> u64 \<Rightarrow> string \<Rightarrow> u64 \<Rightarrow> TransferArgs" where
  "MakeTransferArgs c memo amount fee recipient nowNanos =
     (let p = con_decode c recipient; subAccount = replicate 32 0
      in \<lparr>ta_memo = memo, ta_amount = amount, ta_fee = fee, ta_from = Some subAccount,
          ta_to = con_account_id c p, ta_created = Some nowNanos\<rparr>)"

definition tokens_text :: "u64 \<Rightarrow> string" where
  "tokens_text v = ''{'' @ dec (unat v) @ ''}''"

definition HandleTransferError :: "TransferError \<Rightarrow> err" where
  "HandleTransferError e =
     (case te_bad_fee e of
        Some v \<Rightarrow> ErrNew (''Transfer failed due to bad fee: expected fee: '' @ tokens_text v)
      | None \<Rightarrow> (case te_insufficient e of
        Some v \<Rightarrow> ErrNew (''Transfer failed due to insufficient funds: current balance: '' @ tokens_text v)
      | None \<Rightarrow> (case te_too_old e of
        Some v \<Rightarrow> ErrNew (''Transfer failed because the transaction is too old. Allowed window (in nanos): ''
                    @ dec (unat v))
      | None \<Rightarrow>
        (if te_future e
         then ErrNew ''Transfer failed because the transaction was created in the future.''
         else (case te_duplicate e of
           Some v \<Rightarrow> ErrNew (''Transfer failed because it's a duplicate of transaction at block index: ''
                       @ dec (unat v))
         | None \<Rightarrow> ErrNew ''Transfer failed due to unknown reasons.'')))))"

text \<open>The pointer returned is nil on every error; a nil result without error is dereferenced.\<close>

definition TransferIC ::
  "'w Connector \<Rightarrow> TransferArgs \<Rightarrow> 'w \<Rightarrow> TransferResult option goret res \<times> 'w" where
  "TransferIC c txArgs w = (case con_ledger c txArgs w of
     ((_, Some e), w') \<Rightarrow> (Ok (None, Some ErrFundTransfer), w')
   | ((None, None), w') \<Rightarrow> (Panic ''nil pointer dereference'', w')
   | ((Some r, None), w') \<Rightarrow>
       (case tr_err r of
          Some te \<Rightarrow> (Ok (None, Some (HandleTransferError te)), w')
        | None \<Rightarrow> if tr_ok r = None then (Ok (None, Some (ErrNew ''Blocknumber is nil'')), w')
                  else (Ok (Some r, None), w')))"

definition low64 :: "int \<Rightarrow> u64" where
  "low64 x = of_int \<bar>x\<bar>"

text \<open>The part of \<open>NotifyTransferToPerun\<close> that runs under the mutex.\<close>

definition notify_body :: "'w Connector \<Rightarrow> u64 \<Rightarrow> 'w \<Rightarrow> u64 res \<times> 'w" where
  "notify_body c blockNum n = (case TransactionNotification (con_agent c) blockNum n of
     ((_, Some e), n') \<Rightarrow> (Err (ErrFmt ''error notifying transfer to Perun'' e), n')
   | ((Some (Some bnn), None), n') \<Rightarrow> (Ok (low64 bnn), n')
   | ((_, None), n') \<Rightarrow> (Panic ''nil pointer dereference'', n'))"

definition NotifyTransferToPerun ::
  "'w Connector \<Rightarrow> BlockNum \<Rightarrow> principal \<Rightarrow> 'w fworld \<Rightarrow> u64 res \<times> 'w fworld" where
  "NotifyTransferToPerun c blockNum recipientPerun w = with_mutex (notify_body c blockNum) w"

definition BuildTransfer ::
  "'w Connector \<Rightarrow> principal \<Rightarrow> int \<Rightarrow> int \<Rightarrow> Funding \<Rightarrow> principal \<Rightarrow> TransferArgs res" where
  "BuildTransfer c transactor amnt fe funding receiver =
     res_bind (MakeBalance amnt) (\<lambda>amount.
     res_bind (MakeBalance fe) (\<lambda>fee.
     case Funding_Memo funding of
       (memo, Some e) \<Rightarrow> Err e
     | (memo, None) \<Rightarrow> Ok \<lparr>ta_memo = memo, ta_amount = amount + fee, ta_fee = fee, ta_from = None,
         ta_to = con_account_id c receiver, ta_created = None\<rparr>))"

section \<open>Funding (\<open>funder.go\<close>)\<close>

definition NewFundingEventSub ::
  "address \<Rightarrow> u64 \<Rightarrow> 'a FundingReq \<Rightarrow> FundingEventSub" where
  "NewFundingEventSub addr starttime req =
     (let userIdx = fr_idx req; cid = pp_id (fr_params req)
      in \<lparr>fs_address = addr, fs_idx = userIdx, fs_chanId = cid, fs_timestamp = starttime,
          fs_queryArgs = \<lparr>ct_channel = cid, ct_time = starttime\<rparr>,
          fs_agreement = fr_agreement req,
          fs_pollInterval = DefaultPollInterval, fs_maxIters = DefaultMaxIters\<rparr>)"

definition GetAcc :: "'w Funder \<Rightarrow> bytes" where
  "GetAcc f = fd_acc f"

definition FundingEventSub_QueryEvents ::
  "'w icAgent \<Rightarrow> FundingEventSub \<Rightarrow> 'w \<Rightarrow> string goret \<times> 'w" where
  "FundingEventSub_QueryEvents agent f w = QueryEvents agent (fs_queryArgs f) w"

definition makeTimeoutErr :: "nat \<Rightarrow> err" where
  "makeTimeoutErr remains = ErrFundingTimeout asset_Index [remains]"

text \<open>
  The polling loop: \<open>n\<close> rounds are left. Each round of the \<open>select\<close> is an input of the schedule.
\<close>

fun funding_poll ::
  "'w icAgent \<Rightarrow> FundingEventSub \<Rightarrow> u64 \<Rightarrow> nat \<Rightarrow> tick list \<Rightarrow> 'w \<Rightarrow> unit res \<times> 'w" where
  "funding_poll a f amount 0 xs w = (Err (makeTimeoutErr (fs_idx f)), w)"
| "funding_poll a f amount (Suc n) [] w = (Hang, w)"
| "funding_poll a f amount (Suc n) (CtxDone e # xs) w = (Err (makeTimeoutErr (fs_idx f)), w)"
| "funding_poll a f amount (Suc n) (Timer t # xs) w =
     (case FundingEventSub_QueryEvents a f w of
        ((_, Some e), w') \<Rightarrow> funding_poll a f amount n xs w'
      | ((eventStr, None), w') \<Rightarrow>
          (case parseEvents eventStr of
             Err e \<Rightarrow> (Err (ErrWrap ''failed to sort events'' e), w')
           | Panic m \<Rightarrow> (Panic m, w')
           | Hang \<Rightarrow> (Hang, w')
           | Ok parsedEvents \<Rightarrow>
               (case EvaluateFundedEvents parsedEvents (fs_address f) amount 0 of
                  Err e \<Rightarrow> (Err (ErrWrap ''failed to evaluate events'' e), w')
                | Panic m \<Rightarrow> (Panic m, w')
                | Hang \<Rightarrow> (Hang, w')
                | Ok funded \<Rightarrow> if funded then (Ok (), w') else funding_poll a f amount n xs w')))"

definition QueryFundingState ::
  "'w icAgent \<Rightarrow> FundingEventSub \<Rightarrow> tick list \<Rightarrow> 'w \<Rightarrow> unit res \<times> 'w" where
  "QueryFundingState a f xs w =
     (case res_bind (go_nth (fs_agreement f) 0) (\<lambda>row. go_nth row (int (fs_idx f))) of
        Ok bal \<Rightarrow> funding_poll a f (low64 bal) (fs_maxIters f) xs w
      | Err e \<Rightarrow> (Err e, w)
      | Panic m \<Rightarrow> (Panic m, w)
      | Hang \<Rightarrow> (Hang, w))"

definition TransferToPerun :: "'w Connector \<Rightarrow> DepositReq \<Rightarrow> 'w \<Rightarrow> BlockNum res \<times> 'w" where
  "TransferToPerun c req w =
     (case BuildTransfer c (con_l1 c) (dr_balance req) (dr_fee req) (dr_funding req) (con_perunID c) of
        Err e \<Rightarrow> (Err (ErrWrap ''failed to build transfer'' e), w)
      | Panic m \<Rightarrow> (Panic m, w)
      | Hang \<Rightarrow> (Hang, w)
      | Ok transferArgs \<Rightarrow>
          (case TransferIC c transferArgs w of
             (Ok (None, e), w') \<Rightarrow> (Panic ''nil pointer dereference'', w')
           | (Ok (Some blockNum, e), w') \<Rightarrow>
               (case tr_ok blockNum of
                  None \<Rightarrow> (Err (ErrNew ''blockNum is nil''), w')
                | Some b \<Rightarrow> (case e of None \<Rightarrow> (Ok b, w') | Some e \<Rightarrow> (Err e, w')))
           | (Err e, w') \<Rightarrow> (Err e, w')
           | (Panic m, w') \<Rightarrow> (Panic m, w')
           | (Hang, w') \<Rightarrow> (Hang, w')))"

definition Depositor_Deposit ::
  "ed25519 \<Rightarrow> 'w Connector \<Rightarrow> DepositReq \<Rightarrow> 'w fworld \<Rightarrow> unit res \<times> 'w fworld" where
  "Depositor_Deposit ed c req w =
     (case TransferToPerun c req (fw_net w) of
        (Err e, n) \<Rightarrow> (Err (ErrWrap ''failed to execute IC transfer during channel opening'' e), w\<lparr>fw_net := n\<rparr>)
      | (Panic m, n) \<Rightarrow> (Panic m, w\<lparr>fw_net := n\<rparr>)
      | (Hang, n) \<Rightarrow> (Hang, w\<lparr>fw_net := n\<rparr>)
      | (Ok blnm, n) \<Rightarrow>
          (case NotifyTransferToPerun c blnm (con_perunID c) (w\<lparr>fw_net := n\<rparr>) of
             (Err e, w2) \<Rightarrow> (Err (ErrWrap ''failed to notify transfer to perun'' e), w2)
           | (Panic m, w2) \<Rightarrow> (Panic m, w2)
           | (Hang, w2) \<Rightarrow> (Hang, w2)
           | (Ok _, w2) \<Rightarrow>
               (case DepositToPerunChannel c (Account_L2Address ed (dr_account req))
                       (f_channel (dr_funding req)) w2 of
                  (Err e, w3) \<Rightarrow> (Err (ErrWrap ''failed to deposit to perun channel'' e), w3)
                | r \<Rightarrow> r)))"

definition MakeFundingReq :: "'a FundingReq \<Rightarrow> Funding res" where
  "MakeFundingReq req =
     res_bind (go_nth (pp_parts (fr_params req)) (int (fr_idx req))) (\<lambda>part.
     res_bind (MakeOffIdent part) (\<lambda>ident.
     Ok \<lparr>f_channel = pp_id (fr_params req), f_part = ident\<rparr>))"

definition NewDepositReq :: "int \<Rightarrow> int \<Rightarrow> bytes \<Rightarrow> Funding \<Rightarrow> DepositReq" where
  "NewDepositReq bal fee acc funding =
     \<lparr>dr_balance = bal, dr_fee = fee, dr_account = acc, dr_funding = funding\<rparr>"

text \<open>\<open>eq\<close> is go-perun's \<open>Balances.Equal\<close>.\<close>

definition NewDepositReqFromPerun ::
  "(int list list \<Rightarrow> int list list \<Rightarrow> bool) \<Rightarrow> 'a FundingReq \<Rightarrow> paccount \<Rightarrow> DepositReq res" where
  "NewDepositReqFromPerun eq req acc =
     (if \<not> eq (fr_agreement req) (fr_state_balances req) \<and> length (fr_agreement req) = 1
      then Err ErrFundingReqIncompatible
      else res_bind (go_nth (fr_agreement req) 0) (\<lambda>row.
           res_bind (go_nth row (int (fr_idx req))) (\<lambda>bal.
           case MakeFundingReq req of
             Err e \<Rightarrow> Err (ErrWrap (err_text e) ErrFundingReqIncompatible)
           | Panic m \<Rightarrow> Panic m
           | Hang \<Rightarrow> Hang
           | Ok fReq \<Rightarrow> (case acc of
                WalletAcc sk \<Rightarrow> Ok (NewDepositReq bal (uint ICTransferFee) sk fReq)
              | OtherAcc \<Rightarrow> Panic ''interface conversion''))))"

record 'w Depositor =
  dp_cnr :: "'w Connector"

definition NewDepositor :: "'w Connector \<Rightarrow> 'w Depositor" where
  "NewDepositor cnr = \<lparr>dp_cnr = cnr\<rparr>"

lemma dp_cnr_NewDepositor [simp]: "dp_cnr (NewDepositor c) = c"
  by (simp add: NewDepositor_def)

definition NewFunder :: "bytes \<Rightarrow> 'w Connector \<Rightarrow> 'w Funder" where
  "NewFunder acc c = \<lparr>fd_acc = acc, fd_conn = c\<rparr>"

definition Fund ::
  "ed25519 \<Rightarrow> (int list list \<Rightarrow> int list list \<Rightarrow> bool) \<Rightarrow> 'w Funder \<Rightarrow> 'a FundingReq \<Rightarrow> tick list
     \<Rightarrow> 'w fworld \<Rightarrow> unit res \<times> 'w fworld" where
  "Fund ed eq f req xs w =
     (let acc = fd_acc f; conn = fd_conn f; addr = Account_L2Address ed acc; tstamp = 0
      in case NewDepositReqFromPerun eq req (WalletAcc acc) of
           Err e \<Rightarrow> (Err e, w)
         | Panic m \<Rightarrow> (Panic m, w)
         | Hang \<Rightarrow> (Hang, w)
         | Ok wReq \<Rightarrow>
             (case Depositor_Deposit ed (dp_cnr (NewDepositor conn)) wReq w of
                (Ok _, w1) \<Rightarrow>
                  (case QueryFundingState (con_agent conn) (NewFundingEventSub addr tstamp req) xs (fw_net w1) of
                     (r, n) \<Rightarrow> (r, w1\<lparr>fw_net := n\<rparr>))
              | r \<Rightarrow> r))"

section \<open>Interface: operations under the mutex\<close>

text \<open>
  What a caller relies on: while another holds the mutex the operation waits and does nothing;
  otherwise it ends, however it ends, with the mutex free.
\<close>

locale mutex_op =
  fixes op :: "'w fworld \<Rightarrow> 'r res \<times> 'w fworld"
  assumes waits: "fw_locked w \<Longrightarrow> op w = (Hang, w)"
    and releases: "\<not> fw_locked w \<Longrightarrow> \<not> fw_locked (snd (op w))"
begin

lemma lock_kept: "fw_locked (snd (op w)) = fw_locked w"
  by (cases "fw_locked w") (simp_all add: waits releases)

lemma free_after: "fst (op w) \<noteq> Hang \<Longrightarrow> \<not> fw_locked (snd (op w))"
  by (cases "fw_locked w") (simp_all add: waits releases)

end

interpretation notify: mutex_op "NotifyTransferToPerun c b p" for c :: "'w Connector" and b p
  by unfold_locales (auto simp: NotifyTransferToPerun_def notify_body_def with_mutex_def Let_def split: prod.splits)

lemma BuildDeposit_eq: "BuildDeposit addr cid = Ok \<lparr>cf_channel = cid, cf_participant = addr_bytes addr\<rparr>"
  by (simp add: BuildDeposit_def Address_MarshalBinary_def)

interpretation deposit: mutex_op "DepositToPerunChannel c addr cid" for c :: "'w Connector" and addr cid
  by unfold_locales
    (auto simp: DepositToPerunChannel_def deposit_body_def BuildDeposit_eq with_mutex_def Let_def split: prod.splits)

section \<open>The polling loop and its answers\<close>

text \<open>
  An abstract view of the wait for funds: the inputs are the end of the context and the answers
  of the canister, and the loop is a polling loop that each answer either decides or not.
\<close>

datatype fund_input = FundDone | FundAnswer "string goret"

definition fund_decide :: "FundingEventSub \<Rightarrow> u64 \<Rightarrow> fund_input \<Rightarrow> unit res option" where
  "fund_decide f amount x = (case x of
     FundDone \<Rightarrow> Some (Err (makeTimeoutErr (fs_idx f)))
   | FundAnswer (s, Some e) \<Rightarrow> None
   | FundAnswer (s, None) \<Rightarrow> (case parseEvents s of
        Err e \<Rightarrow> Some (Err (ErrWrap ''failed to sort events'' e))
      | Panic m \<Rightarrow> Some (Panic m)
      | Hang \<Rightarrow> Some Hang
      | Ok evs \<Rightarrow> if unat amount \<le> own_total evs (fs_address f) mod 2 ^ 64 then Some (Ok ()) else None))"

fun fund_wait :: "FundingEventSub \<Rightarrow> u64 \<Rightarrow> fund_input list \<Rightarrow> unit res" where
  "fund_wait f amount [] = Hang"
| "fund_wait f amount (x # xs) =
     (case fund_decide f amount x of None \<Rightarrow> fund_wait f amount xs | Some r \<Rightarrow> r)"

interpretation fund: poll_loop "fund_wait f amount" "fund_decide f amount"
  for f :: FundingEventSub and amount :: u64
  by unfold_locales simp_all

text \<open>What the network answers along a schedule.\<close>

fun fund_answers :: "'w icAgent \<Rightarrow> FundingEventSub \<Rightarrow> tick list \<Rightarrow> 'w \<Rightarrow> fund_input list" where
  "fund_answers a f [] w = []"
| "fund_answers a f (CtxDone e # xs) w = FundDone # fund_answers a f xs w"
| "fund_answers a f (Timer t # xs) w =
     (case FundingEventSub_QueryEvents a f w of (r, w') \<Rightarrow> FundAnswer r # fund_answers a f xs w')"

lemma length_fund_answers [simp]: "length (fund_answers a f xs w) = length xs"
  by (induction a f xs w rule: fund_answers.induct) (auto split: prod.split)

lemma no_hang_parse: "parseEvents s \<noteq> Hang"
proof -
  have u: "parse_uint_loop k t \<noteq> Hang" for k t
    by (induction k t rule: parse_uint_loop.induct) auto
  have "parse_funded_loop ms ts ss i \<noteq> Hang" for ms ts ss i
    by (induction ms ts ss i rule: parse_funded_loop.induct)
      (auto simp: go_nth_def parse_uint_def u res_bind_eq_Hang split: if_splits)
  then show ?thesis by (simp add: parseEvents_def Let_def)
qed

text \<open>The loop of the code is the polling loop on the answers, cut off after \<open>n\<close> rounds.\<close>

lemma funding_poll_wait:
  "fst (funding_poll a f amount n xs w) =
    (case fund_wait f amount (take n (fund_answers a f xs w)) of
       Hang \<Rightarrow> if n \<le> length xs then Err (makeTimeoutErr (fs_idx f)) else Hang
     | r \<Rightarrow> r)"
proof (induction a f amount n xs w rule: funding_poll.induct)
  case (4 a f amount n t xs w)
  obtain s oe w' where q: "FundingEventSub_QueryEvents a f w = ((s, oe), w')" by (metis surj_pair)
  show ?case
  proof (cases oe)
    case None
    then show ?thesis using 4 q no_hang_parse [of s]
      by (cases "parseEvents s") (auto simp: fund_decide_def evaluate_funded split: res.splits)
  next
    case (Some e)
    then show ?thesis using 4 q by (simp add: fund_decide_def)
  qed
qed (simp_all add: fund_decide_def)

section \<open>Facts\<close>

lemma MakeBalance_unat: "MakeBalance b = Ok v \<Longrightarrow> int (unat v) = b \<and> unat v \<le> 2 ^ 30"
proof -
  assume "MakeBalance b = Ok v"
  then have b: "0 \<le> b" "b \<le> 2 ^ 30" "v = of_int b" by (simp_all add: MakeBalance_Ok)
  then have "uint v = b" using uint_of_small by simp
  then have "int (unat v) = b" by simp
  moreover from this b(2) have "int (unat v) \<le> int (2 ^ 30)" by (simp only: of_nat_power of_nat_numeral)
  ultimately show ?thesis by (simp only: of_nat_le_iff simp_thms)
qed

lemma MakeBalance_fee: "MakeBalance (uint ICTransferFee) = Ok ICTransferFee"
  by (simp add: MakeBalance_Ok ICTransferFee_def)

lemma BuildTransfer_Ok:
  "BuildTransfer c p amnt fe fd rc = Ok args \<longleftrightarrow>
     (\<exists>amount fee. MakeBalance amnt = Ok amount \<and> MakeBalance fe = Ok fee \<and>
       args = \<lparr>ta_memo = fst (Funding_Memo fd), ta_amount = amount + fee, ta_fee = fee, ta_from = None,
         ta_to = con_account_id c rc, ta_created = None\<rparr>)"
  by (auto simp: BuildTransfer_def Funding_Memo_def Let_def)

lemma TransferIC_Ok_Some:
  "TransferIC c args w = (Ok (Some r, e), w') \<longleftrightarrow>
     con_ledger c args w = ((Some r, None), w') \<and> tr_err r = None \<and> tr_ok r \<noteq> None \<and> e = None"
  by (auto simp: TransferIC_def split: prod.splits option.splits)

lemma TransferToPerun_Ok:
  "TransferToPerun c req w = (Ok b, w') \<longleftrightarrow>
     (\<exists>args r. BuildTransfer c (con_l1 c) (dr_balance req) (dr_fee req) (dr_funding req) (con_perunID c) = Ok args \<and>
        con_ledger c args w = ((Some r, None), w') \<and> tr_err r = None \<and> tr_ok r = Some b)"
  by (auto simp: TransferToPerun_def TransferIC_def split: res.splits prod.splits option.splits if_splits)

lemma Deposit_lock: "fw_locked (snd (Depositor_Deposit ed c req w)) = fw_locked w"
proof -
  have n: "fw_locked w2 = fw_locked w1" if "NotifyTransferToPerun c b p w1 = (r, w2)" for b p r w1 w2
    using notify.lock_kept [of c b p w1] that by simp
  have d: "fw_locked w2 = fw_locked w1" if "DepositToPerunChannel c a i w1 = (r, w2)" for a i r w1 w2
    using deposit.lock_kept [of c a i w1] that by simp
  show ?thesis
    by (auto simp: Depositor_Deposit_def split: prod.splits res.splits dest!: n d)
qed

lemma NewDepositReqFromPerun_Ok:
  "NewDepositReqFromPerun eq req (WalletAcc sk) = Ok d \<longleftrightarrow>
     (eq (fr_agreement req) (fr_state_balances req) \<or> length (fr_agreement req) \<noteq> 1) \<and>
     (\<exists>row rows ident. fr_agreement req = row # rows \<and> fr_idx req < length row \<and>
        fr_idx req < length (pp_parts (fr_params req)) \<and>
        MakeOffIdent (pp_parts (fr_params req) ! fr_idx req) = Ok ident \<and>
        d = \<lparr>dr_balance = row ! fr_idx req, dr_fee = uint ICTransferFee, dr_account = sk,
             dr_funding = \<lparr>f_channel = pp_id (fr_params req), f_part = ident\<rparr>\<rparr>)"
  (is "?L \<longleftrightarrow> ?G \<and> ?R")
proof -
  have m: "MakeFundingReq req = Ok fq \<longleftrightarrow> fr_idx req < length (pp_parts (fr_params req)) \<and>
      (\<exists>ident. MakeOffIdent (pp_parts (fr_params req) ! fr_idx req) = Ok ident \<and>
        fq = \<lparr>f_channel = pp_id (fr_params req), f_part = ident\<rparr>)" for fq
    by (auto simp: MakeFundingReq_def go_nth_eq_Ok)
  show ?thesis
  proof (cases "fr_agreement req")
    case Nil
    then show ?thesis by (auto simp: NewDepositReqFromPerun_def go_nth_def)
  next
    case (Cons row rows)
    then have "go_nth (fr_agreement req) 0 = Ok row" by (simp add: go_nth_def)
    then show ?thesis using Cons m
      by (cases "MakeFundingReq req")
        (auto simp: NewDepositReqFromPerun_def NewDepositReq_def go_nth_eq_Ok)
  qed
qed

section \<open>Properties\<close>

text \<open>
  Property (mutex_always_released): however funding ends, with success, an error or a panic
  at any call, the mutex is as free as it was before; and while it is held elsewhere, neither the
  notification nor the deposit reaches the canister.
\<close>

theorem mutex_always_released:
  "fw_locked (snd (Fund ed eq f req xs w)) = fw_locked w \<and>
   fw_locked (snd (NotifyTransferToPerun c b p w)) = fw_locked w \<and>
   fw_locked (snd (DepositToPerunChannel c a i w)) = fw_locked w \<and>
   NotifyTransferToPerun c b p (w\<lparr>fw_locked := True\<rparr>) = (Hang, w\<lparr>fw_locked := True\<rparr>) \<and>
   DepositToPerunChannel c a i (w\<lparr>fw_locked := True\<rparr>) = (Hang, w\<lparr>fw_locked := True\<rparr>)"
proof -
  have d: "fw_locked w2 = fw_locked w1" if "Depositor_Deposit ed c req w1 = (r, w2)" for c req r w1 w2
    using Deposit_lock [of ed c req w1] that by simp
  have "fw_locked (snd (Fund ed eq f req xs w)) = fw_locked w"
    by (auto simp: Fund_def Let_def split: prod.splits res.splits dest!: d)
  then show ?thesis
    by (simp add: notify.lock_kept deposit.lock_kept notify.waits deposit.waits)
qed

text \<open>The amounts of a transfer, as numbers.\<close>

lemma BuildTransfer_amounts:
  assumes "BuildTransfer c p amount fee fd receiver = Ok args"
  shows "int (unat (ta_amount args)) = amount + fee" and "int (unat (ta_fee args)) = fee"
    and "amount + fee \<le> 2 ^ 31" and "0 \<le> amount" and "amount \<le> 2 ^ 30"
    and "ta_memo args = fst (Funding_Memo fd)" and "ta_to args = con_account_id c receiver"
proof -
  obtain a f where a: "MakeBalance amount = Ok a" and f: "MakeBalance fee = Ok f" and
    args: "ta_amount args = a + f" "ta_fee args = f" "ta_memo args = fst (Funding_Memo fd)"
      "ta_to args = con_account_id c receiver"
    using assms by (auto simp: BuildTransfer_Ok)
  have "unat a \<le> 1073741824" "unat f \<le> 1073741824"
    using MakeBalance_unat [OF a] MakeBalance_unat [OF f] by simp_all
  then have "unat (a + f) = unat a + unat f" "unat a + unat f \<le> 2147483648"
    by (simp_all add: unat_plus_simple [THEN iffD1] unat_word_ariths)
  then have "int (unat (a + f)) = amount + fee" "amount + fee \<le> 2147483648"
    using MakeBalance_unat [OF a] MakeBalance_unat [OF f] by linarith+
  with args MakeBalance_unat [OF f] a
  show "int (unat (ta_amount args)) = amount + fee" "int (unat (ta_fee args)) = fee" "amount + fee \<le> 2 ^ 31"
    "0 \<le> amount" "amount \<le> 2 ^ 30" "ta_memo args = fst (Funding_Memo fd)" "ta_to args = con_account_id c receiver"
    by (simp_all add: MakeBalance_Ok)
qed

lemma BuildTransfer_outcomes:
  "(\<exists>args. BuildTransfer c p amount fee fd receiver = Ok args) \<longleftrightarrow>
     0 \<le> amount \<and> amount \<le> 2 ^ 30 \<and> 0 \<le> fee \<and> fee \<le> 2 ^ 30"
  by (auto simp: BuildTransfer_Ok MakeBalance_Ok)


text \<open>
  Property C28 (rejected_transfer_panics): when the ledger refuses the transfer, with an error of
  the call or with a reason, \<open>TransferIC\<close> returns a nil result and the error, and the caller reads
  a field of the nil result before it looks at the error: \<open>Deposit\<close> and \<open>Fund\<close> panic.
\<close>

theorem rejected_transfer_panics:
  assumes "NewDepositReqFromPerun eq req (WalletAcc (fd_acc f)) = Ok d"
    and "BuildTransfer (fd_conn f) (con_l1 (fd_conn f)) (dr_balance d) (dr_fee d) (dr_funding d)
           (con_perunID (fd_conn f)) = Ok args"
    and "con_ledger (fd_conn f) args (fw_net w) = ((r, e), n)"
    and "e \<noteq> None \<or> (\<exists>tr. r = Some tr \<and> tr_err tr \<noteq> None)"
  shows "(\<exists>err. fst (TransferIC (fd_conn f) args (fw_net w)) = Ok (None, Some err)) \<and>
    fst (Fund ed eq f req xs w) = Panic ''nil pointer dereference''"
proof -
  obtain err where t: "TransferIC (fd_conn f) args (fw_net w) = (Ok (None, Some err), n)"
    using assms(3,4) by (cases r; cases e) (auto simp: TransferIC_def split: option.splits)
  then have "TransferToPerun (fd_conn f) d (fw_net w) = (Panic ''nil pointer dereference'', n)"
    by (simp add: TransferToPerun_def assms(2))
  then show ?thesis using t
    by (simp add: Fund_def Let_def assms(1) Depositor_Deposit_def)
qed

definition demo_log :: "fund_entry list" where
  "demo_log = [\<lparr>fu_who = replicate 32 1, fu_total = (''2'', [''000'']), fu_stamp = 9\<rparr>]"

definition demo_agent :: "unit icAgent" where
  "demo_agent = \<lparr>ag_marshal = (\<lambda>c. Inr []),
     ag_call = (\<lambda>mode p m args w. (Inr (if m = ''query_events'' then RText (frender '', '' demo_log)
        else if m = ''transaction_notification'' then RNat (Some 12000) else RText ''done''), w)),
     ag_canister = [1]\<rparr>"

definition demo_conn :: "(TransferArgs \<Rightarrow> TransferResult) \<Rightarrow> unit Connector" where
  "demo_conn tr = \<lparr>con_agent = demo_agent, con_ledger = (\<lambda>args w. ((Some (tr args), None), w)),
     con_perunID = [1], con_ledgerID = [3], con_l1 = [2], con_account_id = (\<lambda>p. p), con_decode = (\<lambda>s. [])\<rparr>"

definition demo_ok :: "TransferArgs \<Rightarrow> TransferResult" where
  "demo_ok args = \<lparr>tr_ok = Some 7, tr_err = None\<rparr>"

definition demo_refused :: "TransferArgs \<Rightarrow> TransferResult" where
  "demo_refused args = \<lparr>tr_ok = None, tr_err = Some \<lparr>te_bad_fee = Some 10000, te_insufficient = None,
     te_too_old = None, te_future = False, te_duplicate = None\<rparr>\<rparr>"

definition demo_req :: "unit FundingReq" where
  "demo_req = \<lparr>fr_params = pp_demo 2, fr_state_balances = [[2000, 500]], fr_idx = 0,
     fr_agreement = [[2000, 500]]\<rparr>"

definition demo_dreq :: DepositReq where
  "demo_dreq = \<lparr>dr_balance = 2000, dr_fee = uint ICTransferFee, dr_account = replicate 32 1,
     dr_funding = \<lparr>f_channel = replicate 32 0, f_part = replicate 32 1\<rparr>\<rparr>"

lemma demo_req_ok: "NewDepositReqFromPerun (=) demo_req (WalletAcc (replicate 32 1)) = Ok demo_dreq"
  by (simp add: NewDepositReqFromPerun_Ok demo_req_def demo_dreq_def pp_demo_def MakeOffIdent_wallet)

lemma demo_build: "\<exists>args. BuildTransfer c p 2000 (uint ICTransferFee) fd r = Ok args"
  using MakeBalance_fee by (simp add: BuildTransfer_Ok MakeBalance_Ok)

lemma demo_log_wf: "list_all wf_fund demo_log" "wf_fsep '', ''"
  by (simp_all add: demo_log_def wf_fund_def wf_group_def wf_digits_def is_digit_def group_value_def
      digit_val_def wf_fsep_def)

theorem rejected_transfer_panics_witness:
  "fst (Fund ed_plain (=) (NewFunder (replicate 32 1) (demo_conn demo_refused)) demo_req []
     \<lparr>fw_net = (), fw_locked = False\<rparr>) = Panic ''nil pointer dereference''"
proof -
  let ?f = "NewFunder (replicate 32 1) (demo_conn demo_refused)"
  have "\<exists>args. BuildTransfer (fd_conn ?f) (con_l1 (fd_conn ?f)) (dr_balance demo_dreq)
      (dr_fee demo_dreq) (dr_funding demo_dreq) (con_perunID (fd_conn ?f)) = Ok args"
    by (simp add: demo_dreq_def demo_build)
  then obtain args where "BuildTransfer (fd_conn ?f) (con_l1 (fd_conn ?f)) (dr_balance demo_dreq)
      (dr_fee demo_dreq) (dr_funding demo_dreq) (con_perunID (fd_conn ?f)) = Ok args" ..
  with rejected_transfer_panics [of "(=)" demo_req ?f demo_dreq args "\<lparr>fw_net = (), fw_locked = False\<rparr>"
      "Some (demo_refused args)" None "()" ed_plain "[]"]
  show ?thesis using demo_req_ok
    by (simp add: NewFunder_def demo_conn_def demo_refused_def)
qed

lemma Notify_Ok:
  "NotifyTransferToPerun c b p w = (Ok v, w') \<longleftrightarrow> \<not> fw_locked w \<and>
     (\<exists>amt n. TransactionNotification (con_agent c) b (fw_net w) = ((Some (Some amt), None), n) \<and>
        v = low64 amt \<and> w' = w\<lparr>fw_net := n\<rparr>)"
  by (auto simp: NotifyTransferToPerun_def notify_body_def with_mutex_def Let_def split: prod.splits option.splits)

lemma DepositToPerun_Ok:
  "DepositToPerunChannel c a i w = (Ok (), w') \<longleftrightarrow> \<not> fw_locked w \<and>
     (\<exists>reply n. Deposit (con_agent c) \<lparr>cf_channel = i, cf_participant = addr_bytes a\<rparr> (fw_net w) = ((reply, None), n) \<and>
        w' = w\<lparr>fw_net := n\<rparr>)"
  by (auto simp: DepositToPerunChannel_def deposit_body_def BuildDeposit_eq with_mutex_def Let_def
      split: prod.splits option.splits)

lemma Depositor_Deposit_Ok:
  "Depositor_Deposit ed c req w = (Ok (), w') \<longleftrightarrow> \<not> fw_locked w \<and>
     (\<exists>args tr b n1 amt n2 reply n3.
       BuildTransfer c (con_l1 c) (dr_balance req) (dr_fee req) (dr_funding req) (con_perunID c) = Ok args \<and>
       con_ledger c args (fw_net w) = ((Some tr, None), n1) \<and> tr_err tr = None \<and> tr_ok tr = Some b \<and>
       TransactionNotification (con_agent c) b n1 = ((Some (Some amt), None), n2) \<and>
       Deposit (con_agent c) \<lparr>cf_channel = f_channel (dr_funding req),
         cf_participant = addr_bytes (Account_L2Address ed (dr_account req))\<rparr> n2 = ((reply, None), n3) \<and>
       w' = w\<lparr>fw_net := n3\<rparr>)"
  (is "?L \<longleftrightarrow> ?R")
proof -
  have "?L \<longleftrightarrow> (\<exists>b n1 v w2. TransferToPerun c req (fw_net w) = (Ok b, n1) \<and>
      NotifyTransferToPerun c b (con_perunID c) (w\<lparr>fw_net := n1\<rparr>) = (Ok v, w2) \<and>
      DepositToPerunChannel c (Account_L2Address ed (dr_account req)) (f_channel (dr_funding req)) w2 = (Ok (), w'))"
    by (auto simp: Depositor_Deposit_def split: res.splits prod.splits)
  also have "\<dots> \<longleftrightarrow> ?R"
    unfolding TransferToPerun_Ok Notify_Ok DepositToPerun_Ok by fastforce
  finally show ?thesis .
qed

lemma Fund_Ok:
  "fst (Fund ed eq f req xs w) = Ok () \<longleftrightarrow> (\<exists>d w1. NewDepositReqFromPerun eq req (WalletAcc (fd_acc f)) = Ok d \<and>
     Depositor_Deposit ed (fd_conn f) d w = (Ok (), w1) \<and>
     fst (QueryFundingState (con_agent (fd_conn f))
       (NewFundingEventSub (Address (ed_public ed (fd_acc f))) 0 req) xs (fw_net w1)) = Ok ())"
  by (auto simp: Fund_def Let_def Account_L2Address_def split: res.splits prod.splits)


text \<open>
  A request whose agreement differs from the balances of
  its state is refused only when it has exactly one asset; with none or several the difference is
  not looked at.
\<close>

theorem deposit_request_checks:
  "NewDepositReqFromPerun eq req acc =
     (if length (fr_agreement req) = 1 \<and> \<not> eq (fr_agreement req) (fr_state_balances req)
      then Err ErrFundingReqIncompatible
      else NewDepositReqFromPerun (\<lambda>a b. True) req acc)"
  by (simp add: NewDepositReqFromPerun_def)

text \<open>
  Property (notification_null_panics): a notification that the canister answers with null, for
  an unknown block say, is dereferenced; the panic still frees the mutex.
\<close>

theorem notification_null_panics:
  assumes "TransactionNotification (con_agent c) b (fw_net w) = ((Some None, None), n)" and "\<not> fw_locked w"
  shows "NotifyTransferToPerun c b p w = (Panic ''nil pointer dereference'', w\<lparr>fw_net := n\<rparr>)"
  using assms by (simp add: NotifyTransferToPerun_def notify_body_def with_mutex_def)

definition null_agent :: "unit icAgent" where
  "null_agent = demo_agent\<lparr>ag_call := (\<lambda>mode p m args w. (Inr (RNat None), w))\<rparr>"

theorem notification_null_panics_witness:
  "NotifyTransferToPerun ((demo_conn demo_ok)\<lparr>con_agent := null_agent\<rparr>) 7 [1] \<lparr>fw_net = (), fw_locked = False\<rparr>
     = (Panic ''nil pointer dereference'', \<lparr>fw_net = (), fw_locked = False\<rparr>)"
  using notification_null_panics [of "(demo_conn demo_ok)\<lparr>con_agent := null_agent\<rparr>" 7
      "\<lparr>fw_net = (), fw_locked = False\<rparr>" "()" "[1]"]
  by (simp add: TransactionNotification_def null_agent_def demo_agent_def)

lemma QueryFundingState_wait:
  assumes "fs_agreement f = row # rows" and "fs_idx f < length row"
  shows "fst (QueryFundingState a f xs w) =
    (case fund_wait f (low64 (row ! fs_idx f)) (take (fs_maxIters f) (fund_answers a f xs w)) of
       Hang \<Rightarrow> if fs_maxIters f \<le> length xs then Err (makeTimeoutErr (fs_idx f)) else Hang
     | r \<Rightarrow> r)"
  using assms by (simp add: QueryFundingState_def go_nth_def funding_poll_wait)

lemma fund_decide_Ok:
  "fund_decide f amt x = Some (Ok ()) \<longleftrightarrow>
     (\<exists>s evs. x = FundAnswer (s, None) \<and> parseEvents s = Ok evs \<and> unat amt \<le> own_total evs (fs_address f) mod 2 ^ 64)"
  by (auto simp: fund_decide_def split: fund_input.splits prod.splits option.splits res.splits if_splits)

lemma fund_wait_Ok:
  "fund_wait f amt ans = Ok () \<longleftrightarrow>
     (\<exists>pre s evs post. ans = pre @ FundAnswer (s, None) # post \<and> list_all (\<lambda>x. fund_decide f amt x = None) pre \<and>
        parseEvents s = Ok evs \<and> unat amt \<le> own_total evs (fs_address f) mod 2 ^ 64)"
proof -
  have "fund_wait f amt ans = Ok () \<longleftrightarrow>
      (\<exists>pre y post. ans = pre @ y # post \<and> (\<forall>x\<in>set pre. fund_decide f amt x = None) \<and>
         fund_decide f amt y = Some (Ok ()))"
    (is "_ = ?R")
  proof
    assume "fund_wait f amt ans = Ok ()"
    from fund.loop_returns [OF this] show ?R by simp
  next
    assume ?R
    then obtain pre y post where p: "ans = pre @ y # post" "\<forall>x\<in>set pre. fund_decide f amt x = None"
        "fund_decide f amt y = Some (Ok ())" by blast
    show "fund_wait f amt ans = Ok ()" unfolding p(1) by (rule fund.loop_first [OF p(2,3)])
  qed
  then show ?thesis unfolding fund_decide_Ok list_all_iff by blast
qed

lemma QueryFundingState_Ok:
  assumes "fs_agreement f = row # rows" and "fs_idx f < length row"
  shows "fst (QueryFundingState a f xs w) = Ok () \<longleftrightarrow>
    fund_wait f (low64 (row ! fs_idx f)) (take (fs_maxIters f) (fund_answers a f xs w)) = Ok ()"
  unfolding QueryFundingState_wait [OF assms] by (simp split: res.split)

text \<open>Every answer in the list was given by the canister, in some state of the outer world.\<close>

lemma fund_answers_query:
  "FundAnswer r \<in> set (fund_answers a f xs w) \<Longrightarrow> \<exists>n n'. QueryEvents a (fs_queryArgs f) n = (r, n')"
proof (induction a f xs w rule: fund_answers.induct)
  case (3 a f t xs w)
  obtain r' w' where "QueryEvents a (fs_queryArgs f) w = (r', w')" by fastforce
  with 3 show ?case by (auto simp: FundingEventSub_QueryEvents_def)
qed simp_all

text \<open>The example request, whose funds the example canister shows in its first answer.\<close>

lemma demo_request_row:
  "fs_agreement (NewFundingEventSub (Address (replicate 32 1)) 0 demo_req) = [2000, 500] # []"
  "fs_idx (NewFundingEventSub (Address (replicate 32 1)) 0 demo_req) < length [2000 :: int, 500]"
  by (simp_all add: NewFundingEventSub_def Let_def demo_req_def)

lemma demo_answers:
  "take (fs_maxIters (NewFundingEventSub (Address (replicate 32 1)) 0 demo_req))
     (fund_answers demo_agent (NewFundingEventSub (Address (replicate 32 1)) 0 demo_req) [Timer 0] ()) =
   [] @ FundAnswer (frender '', '' demo_log, None) # []"
  by (simp add: NewFundingEventSub_def Let_def DefaultMaxIters_def FundingEventSub_QueryEvents_def
      QueryEvents_def demo_agent_def)

lemma demo_funds_seen:
  "\<exists>pre s evs post. take (fs_maxIters (NewFundingEventSub (Address (replicate 32 1)) 0 demo_req))
     (fund_answers demo_agent (NewFundingEventSub (Address (replicate 32 1)) 0 demo_req) [Timer 0] ()) =
       pre @ FundAnswer (s, None) # post \<and>
     list_all (\<lambda>x. fund_decide (NewFundingEventSub (Address (replicate 32 1)) 0 demo_req)
       (low64 ([2000, 500] ! fs_idx (NewFundingEventSub (Address (replicate 32 1)) 0 demo_req))) x = None) pre \<and>
     parseEvents s = Ok evs \<and>
     unat (low64 ([2000, 500] ! fs_idx (NewFundingEventSub (Address (replicate 32 1)) 0 demo_req))) \<le>
       own_total evs (fs_address (NewFundingEventSub (Address (replicate 32 1)) 0 demo_req)) mod 2 ^ 64"
proof -
  let ?f = "NewFundingEventSub (Address (replicate 32 1)) 0 demo_req"
  have p: "parseEvents (frender '', '' demo_log) = Ok (map fund_event demo_log)"
    by (rule parse_funding_log [OF demo_log_wf(2,1)])
  have t: "unat (low64 ([2000, 500] ! fs_idx ?f)) \<le> own_total (map fund_event demo_log) (fs_address ?f) mod 2 ^ 64"
    by (simp add: NewFundingEventSub_def Let_def demo_req_def low64_def demo_log_def fund_event_def own_total_def
        group_value_def digit_val_def)
  have "list_all (\<lambda>x. fund_decide ?f (low64 ([2000, 500] ! fs_idx ?f)) x = None) []" by simp
  with demo_answers p t show ?thesis by blast
qed

lemma demo_fund_succeeds:
  "fst (Fund ed_plain (=) (NewFunder (replicate 32 1) (demo_conn demo_ok)) demo_req [Timer 0]
     \<lparr>fw_net = (), fw_locked = False\<rparr>) = Ok ()"
proof -
  let ?f = "NewFunder (replicate 32 1) (demo_conn demo_ok)"
  obtain args where args: "BuildTransfer (fd_conn ?f) (con_l1 (fd_conn ?f)) 2000 (uint ICTransferFee)
      (dr_funding demo_dreq) (con_perunID (fd_conn ?f)) = Ok args"
    using demo_build by blast
  have dep: "Depositor_Deposit ed_plain (fd_conn ?f) demo_dreq \<lparr>fw_net = (), fw_locked = False\<rparr>
      = (Ok (), \<lparr>fw_net = (), fw_locked = False\<rparr>)"
    using args unfolding Depositor_Deposit_Ok
    by (simp add: NewFunder_def demo_dreq_def demo_conn_def demo_ok_def demo_agent_def
        TransactionNotification_def Deposit_def)
  have "fund_wait (NewFundingEventSub (Address (replicate 32 1)) 0 demo_req)
      (low64 ([2000, 500] ! fs_idx (NewFundingEventSub (Address (replicate 32 1)) 0 demo_req)))
      (take (fs_maxIters (NewFundingEventSub (Address (replicate 32 1)) 0 demo_req))
        (fund_answers demo_agent (NewFundingEventSub (Address (replicate 32 1)) 0 demo_req) [Timer 0] ())) = Ok ()"
    unfolding fund_wait_Ok by (rule demo_funds_seen)
  then have q: "fst (QueryFundingState demo_agent
      (NewFundingEventSub (Address (replicate 32 1)) 0 demo_req) [Timer 0] ()) = Ok ()"
    unfolding QueryFundingState_Ok [OF demo_request_row] .
  show ?thesis
    unfolding Fund_Ok using demo_req_ok dep q
    by (intro exI conjI) (auto simp: NewFunder_def demo_conn_def ed_plain_def)
qed

text \<open>
  Property C22 (funding_wait): waiting for the funds ends after at most \<open>maxIters\<close> rounds; it
  succeeds exactly if some round's answer is a log in which the own deposits reach the agreed
  amount, and no earlier answer of the canister decided otherwise.
\<close>

theorem funding_wait:
  assumes "fs_agreement f = row # rows" and "fs_idx f < length row"
  shows "(fst (QueryFundingState a f xs w) = Ok ()) =
      (\<exists>pre s evs post. take (fs_maxIters f) (fund_answers a f xs w) = pre @ FundAnswer (s, None) # post \<and>
         list_all (\<lambda>x. fund_decide f (low64 (row ! fs_idx f)) x = None) pre \<and>
         parseEvents s = Ok evs \<and> unat (low64 (row ! fs_idx f)) \<le> own_total evs (fs_address f) mod 2 ^ 64) \<and>
    (fs_maxIters f \<le> length xs \<longrightarrow> fst (QueryFundingState a f xs w) \<noteq> Hang)"
  unfolding QueryFundingState_Ok [OF assms] fund_wait_Ok
  unfolding QueryFundingState_wait [OF assms] by (simp split: res.split)

theorem funding_wait_witness:
  "fst (QueryFundingState demo_agent (NewFundingEventSub (Address (replicate 32 1)) 0 demo_req) [Timer 0] ()) = Ok ()"
  using demo_funds_seen
  by (rule funding_wait [OF demo_request_row, THEN conjunct1, THEN iffD2])

end
