(* ===== verification/Threads.thy ===== *)
theory Threads
  imports Prelude
begin

text \<open>
  Goroutines that share a mutex and an outer world: a state holds the phase of each, the holder of
  the mutex and the world; a step of the system is a step of one goroutine, chosen by the
  scheduler. A goroutine that has panicked ends the process, so no step follows. The relation
  \<open>nxt i p h n r\<close> is the program: goroutine \<open>i\<close>, in phase \<open>p\<close>, with holder \<open>h\<close> and world \<open>n\<close>, can
  go on to \<open>r\<close>. Depositors and FundAll instantiate it with the code's.
\<close>

lemma sum_list_update_less:
  "i < length xs \<Longrightarrow> f y < (f (xs ! i) :: nat) \<Longrightarrow> sum_list (map f (xs[i := y])) < sum_list (map f xs)"
proof (induction xs arbitrary: i)
  case (Cons x xs)
  then show ?case by (cases i) auto
qed simp

section \<open>Systems of goroutines\<close>

record ('p, 'w) threads =
  th_net :: 'w
  th_holder :: "nat option"
  th_phases :: "'p list"

type_synonym ('p, 'w) program = "nat \<Rightarrow> 'p \<Rightarrow> nat option \<Rightarrow> 'w \<Rightarrow> 'p \<times> nat option \<times> 'w \<Rightarrow> bool"

definition threads_start :: "'w \<Rightarrow> 'p list \<Rightarrow> ('p, 'w) threads" where
  "threads_start n ps = \<lparr>th_net = n, th_holder = None, th_phases = ps\<rparr>"

inductive threads_step :: "('p, 'w) program \<Rightarrow> ('p \<Rightarrow> bool) \<Rightarrow> ('p, 'w) threads \<Rightarrow> ('p, 'w) threads \<Rightarrow> bool"
  for nxt fatal where
  go: "i < length (th_phases s) \<Longrightarrow> \<not> list_ex fatal (th_phases s) \<Longrightarrow>
    nxt i (th_phases s ! i) (th_holder s) (th_net s) (p, h, n) \<Longrightarrow>
    threads_step nxt fatal s \<lparr>th_net = n, th_holder = h, th_phases = (th_phases s)[i := p]\<rparr>"

inductive_cases threads_stepE: "threads_step nxt fatal s t"

text \<open>Runs of a given number of steps.\<close>

inductive threads_run ::
  "('p, 'w) program \<Rightarrow> ('p \<Rightarrow> bool) \<Rightarrow> nat \<Rightarrow> ('p, 'w) threads \<Rightarrow> ('p, 'w) threads \<Rightarrow> bool"
  for nxt fatal where
  stop: "threads_run nxt fatal 0 s s"
| more: "threads_run nxt fatal k s t \<Longrightarrow> threads_step nxt fatal t u \<Longrightarrow> threads_run nxt fatal (Suc k) s u"

lemma threads_start_sel [simp]:
  "th_net (threads_start n ps) = n" "th_holder (threads_start n ps) = None" "th_phases (threads_start n ps) = ps"
  by (simp_all add: threads_start_def)

lemma threads_run_one: "threads_step nxt fatal s t \<Longrightarrow> threads_run nxt fatal 1 s t"
  using threads_run.more [OF threads_run.stop] by simp

lemma threads_run_trans:
  "threads_run nxt fatal m t u \<Longrightarrow> threads_run nxt fatal k s t \<Longrightarrow> threads_run nxt fatal (k + m) s u"
  by (induction rule: threads_run.induct) (auto intro: threads_run.more)

lemma threads_step_length: "threads_step nxt fatal s t \<Longrightarrow> length (th_phases t) = length (th_phases s)"
  by (auto elim!: threads_stepE)

lemma threads_run_length: "threads_run nxt fatal k s t \<Longrightarrow> length (th_phases t) = length (th_phases s)"
  by (induction rule: threads_run.induct) (auto dest: threads_step_length)

text \<open>
  What each goroutine keeps of its own phase and the world, whatever the others do, all keep in
  every run. The second law says that \<open>J\<close> is stable under the steps of the others.
\<close>

lemma threads_run_local:
  assumes "threads_run nxt fatal k s t"
    and "\<And>i. i < length (th_phases s) \<Longrightarrow> J i (th_phases s ! i) (th_net s)"
    and own: "\<And>i p h n p' h' n'. i < length (th_phases s) \<Longrightarrow> nxt i p h n (p', h', n') \<Longrightarrow>
      J i p n \<Longrightarrow> J i p' n'"
    and others: "\<And>i p h n p' h' n' j q. i < length (th_phases s) \<Longrightarrow> nxt i p h n (p', h', n') \<Longrightarrow>
      J j q n \<Longrightarrow> J j q n'"
  shows "\<forall>i<length (th_phases t). J i (th_phases t ! i) (th_net t)"
  using assms
proof (induction rule: threads_run.induct)
  case (more k s t u)
  note own = more.prems(2) and others = more.prems(3)
  have J: "\<forall>i<length (th_phases t). J i (th_phases t ! i) (th_net t)"
    using more.prems(1) own others by (rule more.IH)
  from \<open>threads_step nxt fatal t u\<close> show ?case
  proof (rule threads_stepE)
    fix i p h n
    assume u: "u = \<lparr>th_net = n, th_holder = h, th_phases = (th_phases t)[i := p]\<rparr>"
      and i: "i < length (th_phases t)"
      and st: "nxt i (th_phases t ! i) (th_holder t) (th_net t) (p, h, n)"
    have il: "i < length (th_phases s)" using i threads_run_length [OF more.hyps(1)] by simp
    show ?thesis
    proof (intro allI impI)
      fix j
      assume "j < length (th_phases u)"
      with J own [OF il st] others [OF il st] i show "J j (th_phases u ! j) (th_net u)"
        by (cases "j = i") (auto simp: u)
    qed
  qed
qed simp

text \<open>A system of one goroutine.\<close>

abbreviation solo :: "'w \<Rightarrow> nat option \<Rightarrow> 'p \<Rightarrow> ('p, 'w) threads" where
  "solo n h p \<equiv> \<lparr>th_net = n, th_holder = h, th_phases = [p]\<rparr>"

lemma solo_step_iff:
  "threads_step nxt fatal (solo n h p) t \<longleftrightarrow>
     \<not> fatal p \<and> (\<exists>n' h' p'. nxt 0 p h n (p', h', n') \<and> t = solo n' h' p')"
  using threads_step.go [of 0 "solo n h p" fatal nxt] by (auto elim!: threads_stepE)

section \<open>Interface: a lock with one holder\<close>

text \<open>
  What the mutex gives to any group of threads whose steps keep these laws: a thread enters its
  critical section only by taking the free lock, keeps it there, and leaves it by giving it back.
\<close>

locale lock_discipline =
  fixes inside :: "'p \<Rightarrow> bool"
    and step :: "nat \<Rightarrow> 'p \<Rightarrow> nat option \<Rightarrow> 'p \<Rightarrow> nat option \<Rightarrow> bool"
  assumes outside_step: "step i p h p' h' \<Longrightarrow> \<not> inside p \<Longrightarrow>
      (\<not> inside p' \<and> h' = h) \<or> (inside p' \<and> h = None \<and> h' = Some i)"
    and inside_step: "step i p h p' h' \<Longrightarrow> inside p \<Longrightarrow>
      (inside p' \<and> h' = h) \<or> (\<not> inside p' \<and> h' = None)"
begin

definition exclusive :: "'p list \<Rightarrow> nat option \<Rightarrow> bool" where
  "exclusive ps h \<longleftrightarrow> (\<forall>i<length ps. inside (ps ! i) \<longleftrightarrow> h = Some i) \<and> (\<forall>i. h = Some i \<longrightarrow> i < length ps)"

lemma exclusive_step:
  assumes "exclusive ps h" and "i < length ps" and "step i (ps ! i) h p' h'"
  shows "exclusive (ps[i := p']) h'"
proof (cases "inside (ps ! i)")
  case True
  with assms have "h = Some i" by (simp add: exclusive_def)
  with assms inside_step [OF assms(3) True] show ?thesis
    by (auto simp: exclusive_def nth_list_update)
next
  case False
  from outside_step [OF assms(3) False] show ?thesis
  proof
    assume "\<not> inside p' \<and> h' = h"
    with assms False show ?thesis by (auto simp: exclusive_def nth_list_update)
  next
    assume "inside p' \<and> h = None \<and> h' = Some i"
    with assms show ?thesis by (auto simp: exclusive_def nth_list_update)
  qed
qed

lemma exclusive_start: "list_all (\<lambda>p. \<not> inside p) ps \<Longrightarrow> exclusive ps None"
  by (simp add: exclusive_def list_all_length)

end

section \<open>Interface: goroutines that finish\<close>

text \<open>
  A program under the lock whose goroutines have at most \<open>left p\<close> steps to make, and can make one
  unless they are done or wait for the lock.
\<close>

locale locked_threads =
  lock_discipline inside "\<lambda>i p h p' h'. \<exists>n n'. nxt i p h n (p', h', n')"
  for inside :: "'p \<Rightarrow> bool" and nxt :: "('p, 'w) program" +
  fixes fatal finished :: "'p \<Rightarrow> bool"
    and left :: "'p \<Rightarrow> nat"
  assumes left_decreases: "nxt i p h n (p', h', n') \<Longrightarrow> left p' < left p"
    and can_go: "\<not> finished p \<Longrightarrow> h = None \<or> inside p \<Longrightarrow> \<exists>p' h' n'. nxt i p h n (p', h', n')"
    and finished_stops: "finished p \<Longrightarrow> \<not> nxt i p h n (p', h', n')"
    and finished_outside: "finished p \<Longrightarrow> \<not> inside p"
begin

definition work :: "('p, 'w) threads \<Rightarrow> nat" where
  "work s = sum_list (map left (th_phases s))"

lemma step_exclusive:
  assumes "threads_step nxt fatal s t" and "exclusive (th_phases s) (th_holder s)"
  shows "exclusive (th_phases t) (th_holder t)"
  using assms(1)
proof (rule threads_stepE)
  fix i p h n
  assume t: "t = \<lparr>th_net = n, th_holder = h, th_phases = (th_phases s)[i := p]\<rparr>"
    and i: "i < length (th_phases s)"
    and st: "nxt i (th_phases s ! i) (th_holder s) (th_net s) (p, h, n)"
  from st have "\<exists>m m'. nxt i (th_phases s ! i) (th_holder s) m (p, h, m')" by blast
  from exclusive_step [OF assms(2) i this] show ?thesis by (simp add: t)
qed

lemma run_exclusive:
  "threads_run nxt fatal k s t \<Longrightarrow> exclusive (th_phases s) (th_holder s) \<Longrightarrow> exclusive (th_phases t) (th_holder t)"
  by (induction rule: threads_run.induct) (auto intro: step_exclusive)

lemma step_work: "threads_step nxt fatal s t \<Longrightarrow> work t < work s"
  by (erule threads_stepE, drule left_decreases) (simp add: work_def sum_list_update_less)

lemma run_work: "threads_run nxt fatal k s t \<Longrightarrow> k + work t \<le> work s"
proof (induction rule: threads_run.induct)
  case (more k s t u)
  then show ?case using step_work [of t u] by linarith
qed simp

lemma stuck_iff:
  assumes ex: "exclusive (th_phases s) (th_holder s)"
  shows "(\<nexists>t. threads_step nxt fatal s t) = (list_ex fatal (th_phases s) \<or> list_all finished (th_phases s))"
proof
  assume stuck: "\<nexists>t. threads_step nxt fatal s t"
  have run: "list_ex fatal (th_phases s) \<or> finished (th_phases s ! i)"
    if i: "i < length (th_phases s)" and lock: "th_holder s = None \<or> inside (th_phases s ! i)" for i
    using can_go [OF _ lock] stuck threads_step.go [OF i] by blast
  show "list_ex fatal (th_phases s) \<or> list_all finished (th_phases s)"
  proof (cases "th_holder s")
    case None
    with run show ?thesis by (auto simp: list_all_length)
  next
    case (Some i)
    with ex have "i < length (th_phases s)" "inside (th_phases s ! i)" by (auto simp: exclusive_def)
    with run finished_outside show ?thesis by blast
  qed
next
  assume "list_ex fatal (th_phases s) \<or> list_all finished (th_phases s)"
  then show "\<nexists>t. threads_step nxt fatal s t"
    by (auto elim!: threads_stepE simp: list_all_length dest: finished_stops)
qed

text \<open>The three facts for runs from a start in which no goroutine is inside.\<close>

lemma start_exclusive:
  "threads_run nxt fatal k (threads_start n ps) s \<Longrightarrow> list_all (\<lambda>p. \<not> inside p) ps \<Longrightarrow>
     exclusive (th_phases s) (th_holder s)"
  by (rule run_exclusive, assumption) (simp add: exclusive_start)

lemma start_lock:
  assumes "threads_run nxt fatal k (threads_start n ps) s" and "list_all (\<lambda>p. \<not> inside p) ps"
  shows "(\<forall>i<length (th_phases s). inside (th_phases s ! i) = (th_holder s = Some i)) \<and>
    (list_all finished (th_phases s) \<longrightarrow> th_holder s = None)"
  using start_exclusive [OF assms] finished_outside
  unfolding exclusive_def list_all_length by (metis not_Some_eq)

lemma start_bound:
  "threads_run nxt fatal k (threads_start n ps) s \<Longrightarrow> k \<le> sum_list (map left ps)"
  using run_work [of k "threads_start n ps" s] by (simp add: work_def)

lemma start_stuck:
  "threads_run nxt fatal k (threads_start n ps) s \<Longrightarrow> list_all (\<lambda>p. \<not> inside p) ps \<Longrightarrow>
     (\<nexists>t. threads_step nxt fatal s t) = (list_ex fatal (th_phases s) \<or> list_all finished (th_phases s))"
  by (rule stuck_iff) (rule start_exclusive)

end

section \<open>Interface: a goroutine as a function\<close>

text \<open>
  \<open>result p n r m\<close>: alone, from phase \<open>p\<close> and world \<open>n\<close>, the goroutine can return \<open>r\<close> and leave
  the world \<open>m\<close>. The laws say that the steps neither add nor lose results.
\<close>

locale sequential = locked_threads inside nxt fatal finished left
  for inside :: "'p \<Rightarrow> bool" and nxt :: "('p, 'w) program" and fatal finished :: "'p \<Rightarrow> bool" and left +
  fixes result :: "'p \<Rightarrow> 'w \<Rightarrow> 'r \<Rightarrow> 'w \<Rightarrow> bool"
    and ret :: "'r \<Rightarrow> 'p"
  assumes step_sound: "nxt 0 p h n (p', h', n') \<Longrightarrow> result p' n' r m \<Longrightarrow> result p n r m"
    and step_complete: "result p n r m \<Longrightarrow> \<not> finished p \<Longrightarrow> h = None \<or> inside p \<Longrightarrow>
      \<exists>p' h' n'. nxt 0 p h n (p', h', n') \<and> result p' n' r m"
    and result_ret: "result (ret r) n r' m \<longleftrightarrow> r' = r \<and> m = n"
    and finished_ret: "finished p \<longleftrightarrow> (\<exists>r. p = ret r)"
    and fatal_finished: "fatal p \<Longrightarrow> finished p"
begin

definition owner :: "'p \<Rightarrow> nat option" where
  "owner p = (if inside p then Some 0 else None)"

lemma owner_step: "nxt 0 p (owner p) n (p', h', n') \<Longrightarrow> h' = owner p'"
  using outside_step [of 0 p "owner p" p' h'] inside_step [of 0 p "owner p" p' h']
  by (cases "inside p") (auto simp: owner_def)

lemma owner_ret [simp]: "owner (ret r) = None"
  using finished_outside finished_ret by (auto simp: owner_def)

lemma run_sound:
  "threads_run nxt fatal k (solo n (owner p) p) s \<Longrightarrow>
     \<exists>p' n'. s = solo n' (owner p') p' \<and> (\<forall>r m. result p' n' r m \<longrightarrow> result p n r m)"
proof (induction k "solo n (owner p) p" s rule: threads_run.induct)
  case (more k t u)
  then obtain p1 n1 where t: "t = solo n1 (owner p1) p1" and r1: "\<forall>r m. result p1 n1 r m \<longrightarrow> result p n r m"
    by blast
  from more.hyps(3) obtain n2 h2 p2 where st: "nxt 0 p1 (owner p1) n1 (p2, h2, n2)" and u: "u = solo n2 h2 p2"
    unfolding t solo_step_iff by blast
  with owner_step [OF st] step_sound [OF st] r1 show ?case by blast
qed blast

lemma run_complete: "result p n r m \<Longrightarrow> \<exists>k. threads_run nxt fatal k (solo n (owner p) p) (solo m None (ret r))"
proof (induction "left p" arbitrary: p n rule: less_induct)
  case less
  show ?case
  proof (cases "finished p")
    case True
    then obtain r' where p: "p = ret r'" using finished_ret by blast
    with less.prems have "r' = r" "m = n" by (auto simp: result_ret)
    with p show ?thesis by (auto intro!: exI [of _ 0] threads_run.stop)
  next
    case False
    have "owner p = None \<or> inside p" by (simp add: owner_def)
    from step_complete [OF less.prems False this] obtain p' h' n'
      where st: "nxt 0 p (owner p) n (p', h', n')" and r: "result p' n' r m" by blast
    from less.hyps [OF left_decreases [OF st] r] owner_step [OF st] obtain k
      where k: "threads_run nxt fatal k (solo n' h' p') (solo m None (ret r))" by blast
    have "threads_step nxt fatal (solo n (owner p) p) (solo n' h' p')"
      using st False fatal_finished unfolding solo_step_iff by blast
    from threads_run_trans [OF k threads_run_one [OF this]] show ?thesis by blast
  qed
qed

lemma runs_are_results:
  "(\<exists>k. threads_run nxt fatal k (solo n (owner p) p) s) \<and> (\<nexists>t. threads_step nxt fatal s t) \<longleftrightarrow>
     (\<exists>r m. result p n r m \<and> s = solo m None (ret r))"
  (is "?runs \<longleftrightarrow> ?results")
proof
  assume ?runs
  then obtain p' n' where s: "s = solo n' (owner p') p'" and r: "\<forall>r m. result p' n' r m \<longrightarrow> result p n r m"
    using run_sound by blast
  have "\<not> fatal p' \<Longrightarrow> finished p'"
    using \<open>?runs\<close> can_go [of p' "owner p'" 0 n'] unfolding s solo_step_iff by (auto simp: owner_def split: if_splits)
  then obtain r' where "p' = ret r'" using fatal_finished finished_ret by blast
  with r s show ?results by (auto simp: result_ret)
next
  assume ?results
  then obtain r m where r: "result p n r m" and s: "s = solo m None (ret r)" by blast
  have "\<not> nxt 0 (ret r) None m (p', h', n')" for p' h' n'
    using finished_stops finished_ret by blast
  with run_complete [OF r] show ?runs unfolding s solo_step_iff by blast
qed

end

end
