(* ===== verification/Depositors.thy ===== *)
theory Depositors
  imports Funder Threads
begin

text \<open>
  Deposits that run at the same time. Every funder of a process runs \<open>Depositor.Deposit\<close>
  (\<open>channel/funder.go\<close>) in its own goroutine, and \<open>connMutex\<close> of \<open>channel/connector/services.go\<close>
  is shared by all of them. The steps of a deposit are its transfer, and for the notification and
  the deposit each: taking the mutex, the call to the canister, and the deferred unlock. A panic
  that no one recovers ends the process once the deferred calls have run.
\<close>

section \<open>One goroutine\<close>

datatype dphase =
    Transferring
  | AtNotify u64
  | InNotify u64
  | LeaveNotify "u64 res"
  | AtDeposit
  | InDeposit CFunding
  | LeaveDeposit "unit res"
  | Finished "unit res"

primrec after_transfer :: "u64 res \<Rightarrow> dphase" where
  "after_transfer (Ok blnm) = AtNotify blnm"
| "after_transfer (Err e) = Finished (Err (ErrWrap ''failed to execute IC transfer during channel opening'' e))"
| "after_transfer (Panic m) = Finished (Panic m)"
| "after_transfer Hang = Finished Hang"

primrec after_notify :: "u64 res \<Rightarrow> dphase" where
  "after_notify (Ok v) = AtDeposit"
| "after_notify (Err e) = Finished (Err (ErrWrap ''failed to notify transfer to perun'' e))"
| "after_notify (Panic m) = Finished (Panic m)"
| "after_notify Hang = Finished Hang"

primrec after_deposit :: "unit res \<Rightarrow> dphase" where
  "after_deposit (Ok v) = Finished (Ok ())"
| "after_deposit (Err e) = Finished (Err (ErrWrap ''failed to deposit to perun channel'' e))"
| "after_deposit (Panic m) = Finished (Panic m)"
| "after_deposit Hang = Finished Hang"

text \<open>
  The next step of goroutine \<open>i\<close>, given the holder of the mutex and the outer world; None while it
  waits for the mutex and when it is done.
\<close>

primrec dstep ::
  "dphase \<Rightarrow> ed25519 \<Rightarrow> 'w Connector \<times> DepositReq \<Rightarrow> nat \<Rightarrow> nat option \<Rightarrow> 'w \<Rightarrow> (dphase \<times> nat option \<times> 'w) option" where
  "dstep Transferring ed job i h n =
     (let (r, n') = TransferToPerun (fst job) (snd job) n in Some (after_transfer r, h, n'))"
| "dstep (AtNotify blnm) ed job i h n = (if h = None then Some (InNotify blnm, Some i, n) else None)"
| "dstep (InNotify blnm) ed job i h n =
     (let (r, n') = notify_body (fst job) blnm n in Some (LeaveNotify r, h, n'))"
| "dstep (LeaveNotify r) ed job i h n = Some (after_notify r, None, n)"
| "dstep AtDeposit ed job i h n =
     (case BuildDeposit (Account_L2Address ed (dr_account (snd job))) (f_channel (dr_funding (snd job))) of
        Ok depositArgs \<Rightarrow> if h = None then Some (InDeposit depositArgs, Some i, n) else None
      | Err e \<Rightarrow> Some (after_deposit (Err e), h, n)
      | Panic m \<Rightarrow> Some (Finished (Panic m), h, n)
      | Hang \<Rightarrow> Some (Finished Hang, h, n))"
| "dstep (InDeposit depositArgs) ed job i h n =
     (let (r, n') = deposit_body (fst job) depositArgs n in Some (LeaveDeposit r, h, n'))"
| "dstep (LeaveDeposit r) ed job i h n = Some (after_deposit r, None, n)"
| "dstep (Finished r) ed job i h n = None"

primrec critical :: "dphase \<Rightarrow> bool" where
  "critical Transferring = False"
| "critical (AtNotify b) = False"
| "critical (InNotify b) = True"
| "critical (LeaveNotify r) = True"
| "critical AtDeposit = False"
| "critical (InDeposit d) = True"
| "critical (LeaveDeposit r) = True"
| "critical (Finished r) = False"

primrec done_phase :: "dphase \<Rightarrow> bool" where
  "done_phase Transferring = False"
| "done_phase (AtNotify b) = False"
| "done_phase (InNotify b) = False"
| "done_phase (LeaveNotify r) = False"
| "done_phase AtDeposit = False"
| "done_phase (InDeposit d) = False"
| "done_phase (LeaveDeposit r) = False"
| "done_phase (Finished r) = True"

text \<open>The steps a goroutine has still to make, at most.\<close>

primrec remaining :: "dphase \<Rightarrow> nat" where
  "remaining Transferring = 7"
| "remaining (AtNotify b) = 6"
| "remaining (InNotify b) = 5"
| "remaining (LeaveNotify r) = 4"
| "remaining AtDeposit = 3"
| "remaining (InDeposit d) = 2"
| "remaining (LeaveDeposit r) = 1"
| "remaining (Finished r) = 0"

lemma after_transfer_phase [simp]: "\<not> critical (after_transfer r)" "remaining (after_transfer r) < 7"
  by (cases r; simp)+

lemma after_notify_phase [simp]: "\<not> critical (after_notify r)" "remaining (after_notify r) < 4"
  by (cases r; simp)+

lemma after_deposit_phase [simp]: "\<not> critical (after_deposit r)" "remaining (after_deposit r) = 0"
  by (cases r; simp)+

section \<open>All of them\<close>

text \<open>Goroutine \<open>i\<close> works on the i-th request; a panic that has left \<open>Deposit\<close> ends the process.\<close>

definition deposit_next :: "ed25519 \<Rightarrow> ('w Connector \<times> DepositReq) list \<Rightarrow> (dphase, 'w) program" where
  "deposit_next ed jobs i p h n r \<longleftrightarrow> dstep p ed (jobs ! i) i h n = Some r"

definition deposit_panicked :: "dphase \<Rightarrow> bool" where
  "deposit_panicked p = (case p of Finished r \<Rightarrow> (case r of Panic m \<Rightarrow> True | _ \<Rightarrow> False) | _ \<Rightarrow> False)"

abbreviation deposits_step where
  "deposits_step ed jobs \<equiv> threads_step (deposit_next ed jobs) deposit_panicked"

abbreviation deposits_run where
  "deposits_run ed jobs \<equiv> threads_run (deposit_next ed jobs) deposit_panicked"

definition deposits_start :: "'w \<Rightarrow> ('w Connector \<times> DepositReq) list \<Rightarrow> (dphase, 'w) threads" where
  "deposits_start n jobs = threads_start n (replicate (length jobs) Transferring)"

lemma dstep_remaining:
  "dstep p ed job i h n = Some (p', h', n') \<Longrightarrow> remaining p' < remaining p"
  by (cases p) (auto simp: BuildDeposit_eq Let_def case_prod_beta split: if_splits)

lemma dstep_None:
  "dstep p ed job i h n = None \<longleftrightarrow> done_phase p \<or> (h \<noteq> None \<and> \<not> critical p \<and> p \<noteq> Transferring)"
  by (cases p) (auto simp: BuildDeposit_eq Let_def case_prod_beta)

lemma dstep_enter:
  "dstep p ed job i h n = Some (p', h', n') \<Longrightarrow> \<not> critical p \<Longrightarrow>
     (\<not> critical p' \<and> h' = h) \<or> (critical p' \<and> h = None \<and> h' = Some i)"
  by (cases p) (auto simp: BuildDeposit_eq Let_def case_prod_beta split: if_splits)

lemma dstep_leave:
  "dstep p ed job i h n = Some (p', h', n') \<Longrightarrow> critical p \<Longrightarrow>
     (critical p' \<and> h' = h) \<or> (\<not> critical p' \<and> h' = None)"
  by (cases p) (auto simp: Let_def case_prod_beta)

lemma done_not_critical: "done_phase p \<Longrightarrow> \<not> critical p"
  by (cases p) simp_all

interpretation conn_mutex: locked_threads critical "deposit_next ed jobs" deposit_panicked done_phase remaining
  for ed :: ed25519 and jobs :: "('w Connector \<times> DepositReq) list"
proof
  fix i p h p' h' n n'
  show "(\<not> critical p' \<and> h' = h) \<or> (critical p' \<and> h = None \<and> h' = Some i)"
    if "\<exists>n n'. deposit_next ed jobs i p h n (p', h', n')" "\<not> critical p"
    using that by (elim exE) (rule dstep_enter, simp_all add: deposit_next_def)
  show "(critical p' \<and> h' = h) \<or> (\<not> critical p' \<and> h' = None)"
    if "\<exists>n n'. deposit_next ed jobs i p h n (p', h', n')" "critical p"
    using that by (elim exE) (rule dstep_leave, simp_all add: deposit_next_def)
  show "remaining p' < remaining p" if "deposit_next ed jobs i p h n (p', h', n')"
    using that by (simp add: deposit_next_def dstep_remaining)
  show "\<exists>p' h' n'. deposit_next ed jobs i p h n (p', h', n')" if "\<not> done_phase p" "h = None \<or> critical p"
    using that dstep_None [of p ed "jobs ! i" i h n] unfolding deposit_next_def
    by (cases "dstep p ed (jobs ! i) i h n") auto
  show "\<not> deposit_next ed jobs i p h n (p', h', n')" if "done_phase p"
    using that dstep_None [of p ed "jobs ! i" i h n] unfolding deposit_next_def by auto
qed (rule done_not_critical)

lemma deposits_start_outside: "list_all (\<lambda>p. \<not> critical p) (replicate k Transferring)"
  by (simp add: list_all_iff)

section \<open>A deposit on its own\<close>

text \<open>What remains to be done from a phase, with the mutex to itself.\<close>

function deposit_rest :: "ed25519 \<Rightarrow> 'w Connector \<times> DepositReq \<Rightarrow> dphase \<Rightarrow> 'w \<Rightarrow> unit res \<times> 'w" where
  "deposit_rest ed job p n =
     (case dstep p ed job 0 None n of
        Some (p', h', n') \<Rightarrow> deposit_rest ed job p' n'
      | None \<Rightarrow> (case p of Finished r \<Rightarrow> (r, n) | _ \<Rightarrow> (Hang, n)))"
  by auto
termination by (relation "measure (\<lambda>(ed, job, p, n). remaining p)") (auto dest: dstep_remaining)

declare deposit_rest.simps [simp del]

lemma dstep_holder:
  "dstep p ed job 0 h n = Some (p', h', n') \<Longrightarrow> \<exists>h''. dstep p ed job 0 None n = Some (p', h'', n')"
  by (cases p) (auto simp: BuildDeposit_eq Let_def case_prod_beta split: if_splits)

lemma deposit_rest_step:
  "dstep p ed job 0 h n = Some (p', h', n') \<Longrightarrow> deposit_rest ed job p n = deposit_rest ed job p' n'"
  by (subst deposit_rest.simps) (drule dstep_holder, auto)

lemma deposit_rest_Finished [simp]: "deposit_rest ed job (Finished r) n = (r, n)"
  by (simp add: deposit_rest.simps)

interpretation solo_deposit: sequential critical "deposit_next ed [job]" deposit_panicked done_phase remaining
    "\<lambda>p n r m. deposit_rest ed job p n = (r, m)" Finished
  for ed :: ed25519 and job :: "'w Connector \<times> DepositReq"
proof
  fix p p' h h' n n' r m
  show "deposit_rest ed job p n = (r, m)"
    if "deposit_next ed [job] 0 p h n (p', h', n')" "deposit_rest ed job p' n' = (r, m)"
    using that deposit_rest_step [of p ed job h n p' h' n'] unfolding deposit_next_def nth_Cons_0 by metis
  show "\<exists>p' h' n'. deposit_next ed [job] 0 p h n (p', h', n') \<and> deposit_rest ed job p' n' = (r, m)"
    if res: "deposit_rest ed job p n = (r, m)" and go: "\<not> done_phase p" "h = None \<or> critical p"
  proof -
    obtain p1 h1 n1 where st: "deposit_next ed [job] 0 p h n (p1, h1, n1)"
      using conn_mutex.can_go [OF go, where i = 0 and jobs = "[job]" and ed = ed and n = n] by blast
    then have "deposit_rest ed job p n = deposit_rest ed job p1 n1"
      by (intro deposit_rest_step) (simp add: deposit_next_def)
    with st res show ?thesis by metis
  qed
  show "done_phase p \<longleftrightarrow> (\<exists>r. p = Finished r)" by (cases p) auto
  show "done_phase p" if "deposit_panicked p"
    using that by (cases p) (simp_all add: deposit_panicked_def)
qed auto

text \<open>All of it is \<open>Deposit\<close>.\<close>

lemma deposit_rest_AtDeposit:
  "deposit_rest ed (c, req) AtDeposit n =
     (case DepositToPerunChannel c (Account_L2Address ed (dr_account req)) (f_channel (dr_funding req))
             \<lparr>fw_net = n, fw_locked = False\<rparr> of
        (Err e, w) \<Rightarrow> (Err (ErrWrap ''failed to deposit to perun channel'' e), fw_net w)
      | (r, w) \<Rightarrow> (r, fw_net w))"
proof -
  have leave: "deposit_rest ed (c, req) (LeaveDeposit z) m = deposit_rest ed (c, req) (after_deposit z) m" for z m
    by (subst deposit_rest.simps) simp
  obtain z m where "deposit_body c \<lparr>cf_channel = f_channel (dr_funding req),
      cf_participant = addr_bytes (Account_L2Address ed (dr_account req))\<rparr> n = (z, m)" by fastforce
  then show ?thesis
    by (cases z) (simp_all add: deposit_rest.simps [of _ _ AtDeposit] deposit_rest.simps [of _ _ "InDeposit d" for d]
        leave DepositToPerunChannel_def with_mutex_def BuildDeposit_eq)
qed

lemma deposit_rest_AtNotify:
  "deposit_rest ed (c, req) (AtNotify b) n =
     (case NotifyTransferToPerun c b (con_perunID c) \<lparr>fw_net = n, fw_locked = False\<rparr> of
        (Err e, w) \<Rightarrow> (Err (ErrWrap ''failed to notify transfer to perun'' e), fw_net w)
      | (Ok v, w) \<Rightarrow> deposit_rest ed (c, req) AtDeposit (fw_net w)
      | (Panic m, w) \<Rightarrow> (Panic m, fw_net w)
      | (Hang, w) \<Rightarrow> (Hang, fw_net w))"
proof -
  have leave: "deposit_rest ed (c, req) (LeaveNotify z) m = deposit_rest ed (c, req) (after_notify z) m" for z m
    by (subst deposit_rest.simps) simp
  obtain z m where "notify_body c b n = (z, m)" by fastforce
  then show ?thesis
    by (cases z) (simp_all add: deposit_rest.simps [of _ _ "AtNotify d" for d] deposit_rest.simps [of _ _ "InNotify d" for d]
        leave NotifyTransferToPerun_def with_mutex_def)
qed

lemma deposit_rest_start:
  "deposit_rest ed (c, req) Transferring n =
     (case Depositor_Deposit ed c req \<lparr>fw_net = n, fw_locked = False\<rparr> of (r, w) \<Rightarrow> (r, fw_net w))"
proof -
  obtain x n1 where tr: "TransferToPerun c req n = (x, n1)" by fastforce
  have start: "deposit_rest ed (c, req) Transferring n = deposit_rest ed (c, req) (after_transfer x) n1"
    by (simp add: deposit_rest.simps [of _ _ Transferring] tr)
  show ?thesis
  proof (cases x)
    case (Ok b)
    obtain y w2 where nt: "NotifyTransferToPerun c b (con_perunID c) \<lparr>fw_net = n1, fw_locked = False\<rparr> = (y, w2)"
      by fastforce
    have "\<not> fw_locked w2" using notify.releases [of "\<lparr>fw_net = n1, fw_locked = False\<rparr>" c b "con_perunID c"] nt by simp
    then have w2: "w2 = \<lparr>fw_net = fw_net w2, fw_locked = False\<rparr>" by simp
    show ?thesis
      using nt tr Ok by (cases y) (simp_all add: start Depositor_Deposit_def deposit_rest_AtNotify deposit_rest_AtDeposit
          w2 [symmetric] split: res.split prod.split)
  qed (simp_all add: start tr Depositor_Deposit_def)
qed

section \<open>Properties\<close>

text \<open>
  Property (deposits_mutually_exclusive): whatever the interleaving of any number of deposits,
  the mutex is held exactly by the goroutine that is between its \<open>Lock\<close> and its \<open>Unlock\<close>, so no
  two deposits are ever talking to the Perun canister at once; and when all have returned, with
  success, an error or a panic, it is free.
\<close>

theorem deposits_mutually_exclusive:
  assumes "deposits_run ed jobs k (deposits_start n jobs) s"
  shows "(\<forall>i<length (th_phases s). critical (th_phases s ! i) = (th_holder s = Some i)) \<and>
    (list_all done_phase (th_phases s) \<longrightarrow> th_holder s = None)"
  using assms deposits_start_outside unfolding deposits_start_def by (rule conn_mutex.start_lock)

text \<open>
  Property (deposits_all_finish): deposits cannot deadlock on the mutex and cannot run for
  ever: \<open>k\<close> deposits make at most \<open>7 * k\<close> steps in any order, and a state in which no goroutine can
  go on is one in which all have returned, or one has panicked and taken the process down.
\<close>

theorem deposits_all_finish:
  assumes "deposits_run ed jobs k (deposits_start n jobs) s"
  shows "k \<le> 7 * length jobs \<and>
    ((\<nexists>t. deposits_step ed jobs s t) = (list_ex deposit_panicked (th_phases s) \<or> list_all done_phase (th_phases s)))"
  using conn_mutex.start_bound [OF assms [unfolded deposits_start_def]]
    conn_mutex.start_stuck [OF assms [unfolded deposits_start_def] deposits_start_outside]
  by (simp add: sum_list_replicate)

text \<open>
  Property C25 (deposit_steps_refine): the steps of one goroutine, when no other holds the mutex,
  implement \<open>Depositor.Deposit\<close>: the runs that cannot go on are those that end with its result, the
  canisters in the state it leaves, and the mutex free.
\<close>

theorem deposit_steps_refine:
  "((\<exists>k. deposits_run ed [(c, req)] k (deposits_start n [(c, req)]) s) \<and> (\<nexists>t. deposits_step ed [(c, req)] s t)) =
   (case Depositor_Deposit ed c req \<lparr>fw_net = n, fw_locked = False\<rparr> of
      (r, w) \<Rightarrow> s = \<lparr>th_net = fw_net w, th_holder = None, th_phases = [Finished r]\<rparr>)"
proof -
  have start: "deposits_start n [(c, req)] = solo n (solo_deposit.owner Transferring) Transferring"
    by (simp add: deposits_start_def threads_start_def solo_deposit.owner_def)
  show ?thesis
    unfolding start solo_deposit.runs_are_results deposit_rest_start by (auto split: prod.split)
qed

section \<open>Two deposits that meet at the mutex\<close>

definition demo_jobs :: "(unit Connector \<times> DepositReq) list" where
  "demo_jobs = [(demo_conn demo_ok, demo_dreq), (demo_conn demo_ok, demo_dreq)]"

definition demo_contention :: "(dphase, unit) threads" where
  "demo_contention = \<lparr>th_net = (), th_holder = Some 0, th_phases = [InNotify 7, AtNotify 7]\<rparr>"

lemma demo_transfer: "TransferToPerun (demo_conn demo_ok) demo_dreq () = (Ok 7, ())"
  using demo_build [of "demo_conn demo_ok" "[2]" "dr_funding demo_dreq" "[1]"]
  by (auto simp: TransferToPerun_def TransferIC_def demo_dreq_def demo_conn_def demo_ok_def)

lemma demo_contention_run: "deposits_run ed_plain demo_jobs 3 (deposits_start () demo_jobs) demo_contention"
proof -
  let ?s = "\<lambda>h p q. \<lparr>th_net = (), th_holder = h, th_phases = [p, q]\<rparr>"
  have start: "deposits_start () demo_jobs = ?s None Transferring Transferring"
    by (simp add: deposits_start_def threads_start_def demo_jobs_def numeral_2_eq_2)
  note simps = deposit_next_def deposit_panicked_def demo_jobs_def demo_transfer
  have "deposits_step ed_plain demo_jobs (?s None Transferring Transferring) (?s None (AtNotify 7) Transferring)"
    using threads_step.go [of 0 "?s None Transferring Transferring" deposit_panicked
        "deposit_next ed_plain demo_jobs" "AtNotify 7" None "()"] by (simp add: simps)
  moreover have "deposits_step ed_plain demo_jobs (?s None (AtNotify 7) Transferring) (?s None (AtNotify 7) (AtNotify 7))"
    using threads_step.go [of 1 "?s None (AtNotify 7) Transferring" deposit_panicked
        "deposit_next ed_plain demo_jobs" "AtNotify 7" None "()"] by (simp add: simps)
  moreover have "deposits_step ed_plain demo_jobs (?s None (AtNotify 7) (AtNotify 7)) demo_contention"
    using threads_step.go [of 0 "?s None (AtNotify 7) (AtNotify 7)" deposit_panicked
        "deposit_next ed_plain demo_jobs" "InNotify 7" "Some 0" "()"] by (simp add: simps demo_contention_def)
  ultimately show ?thesis
    unfolding start numeral_3_eq_3 by (blast intro: threads_run.intros)
qed

theorem deposits_mutually_exclusive_witness:
  "\<not> critical (th_phases demo_contention ! 1)"
  using deposits_mutually_exclusive [OF demo_contention_run] by (simp add: demo_contention_def)

theorem deposits_all_finish_witness:
  "\<exists>t. deposits_step ed_plain demo_jobs demo_contention t"
  using deposits_all_finish [OF demo_contention_run]
  by (simp add: demo_contention_def deposit_panicked_def)

end
