(* ===== verification/FundAll.thy ===== *)
theory FundAll
  imports Depositors
begin

text \<open>
  All participants of a process fund a channel at the same time, as \<open>FundAll\<close> of
  \<open>channel/test/fund.go\<close> lets them: one goroutine per funder runs \<open>Fund\<close> of \<open>channel/funder.go\<close>,
  and all of them share the mutex of \<open>services.go\<close>, the ledger and the canister. The steps of a
  goroutine are the building of its request, the steps of its deposit (theory Depositors), and one
  step per round of the polling loop of \<open>QueryFundingState\<close>, whose \<open>select\<close> takes the end of the
  context or the timer.
\<close>

section \<open>One goroutine\<close>

datatype fphase =
    FundStart
  | FundDeposit DepositReq dphase
  | FundPoll u64 nat
  | FundReturned "unit res"

text \<open>The agreed balance is read before the first round of \<open>QueryFundingState\<close>.\<close>

definition poll_start :: "'a FundingReq \<Rightarrow> fphase" where
  "poll_start req =
     (case res_bind (go_nth (fr_agreement req) 0) (\<lambda>row. go_nth row (int (fr_idx req))) of
        Ok bal \<Rightarrow> FundPoll (low64 bal) DefaultMaxIters
      | Err e \<Rightarrow> FundReturned (Err e)
      | Panic m \<Rightarrow> FundReturned (Panic m)
      | Hang \<Rightarrow> FundReturned Hang)"

text \<open>One round of the polling loop, with \<open>k\<close> rounds left after it.\<close>

definition poll_round ::
  "'w icAgent \<Rightarrow> FundingEventSub \<Rightarrow> u64 \<Rightarrow> nat \<Rightarrow> tick \<Rightarrow> 'w \<Rightarrow> fphase \<times> 'w" where
  "poll_round a f amount k x n = (case x of
     CtxDone e \<Rightarrow> (FundReturned (Err (makeTimeoutErr (fs_idx f))), n)
   | Timer t \<Rightarrow>
       (case FundingEventSub_QueryEvents a f n of
          ((_, Some e), n') \<Rightarrow> (FundPoll amount k, n')
        | ((eventStr, None), n') \<Rightarrow>
            (case parseEvents eventStr of
               Err e \<Rightarrow> (FundReturned (Err (ErrWrap ''failed to sort events'' e)), n')
             | Panic m \<Rightarrow> (FundReturned (Panic m), n')
             | Hang \<Rightarrow> (FundReturned Hang, n')
             | Ok parsedEvents \<Rightarrow>
                 (case EvaluateFundedEvents parsedEvents (fs_address f) amount 0 of
                    Err e \<Rightarrow> (FundReturned (Err (ErrWrap ''failed to evaluate events'' e)), n')
                  | Panic m \<Rightarrow> (FundReturned (Panic m), n')
                  | Hang \<Rightarrow> (FundReturned Hang, n')
                  | Ok funded \<Rightarrow> if funded then (FundReturned (Ok ()), n') else (FundPoll amount k, n')))))"

definition fund_sub :: "ed25519 \<Rightarrow> 'w Funder \<Rightarrow> 'a FundingReq \<Rightarrow> FundingEventSub" where
  "fund_sub ed f req = NewFundingEventSub (Account_L2Address ed (fd_acc f)) 0 req"

primrec fund_step ::
  "fphase \<Rightarrow> ed25519 \<Rightarrow> (int list list \<Rightarrow> int list list \<Rightarrow> bool) \<Rightarrow> 'w Funder \<times> 'a FundingReq \<Rightarrow> tick
     \<Rightarrow> nat \<Rightarrow> nat option \<Rightarrow> 'w \<Rightarrow> (fphase \<times> nat option \<times> 'w) option" where
  "fund_step FundStart ed eq job x i h n =
     (case NewDepositReqFromPerun eq (snd job) (WalletAcc (fd_acc (fst job))) of
        Err e \<Rightarrow> Some (FundReturned (Err e), h, n)
      | Panic m \<Rightarrow> Some (FundReturned (Panic m), h, n)
      | Hang \<Rightarrow> Some (FundReturned Hang, h, n)
      | Ok wReq \<Rightarrow> Some (FundDeposit wReq Transferring, h, n))"
| "fund_step (FundDeposit d p) ed eq job x i h n =
     (case p of
        Finished r \<Rightarrow>
          (case r of Ok _ \<Rightarrow> Some (poll_start (snd job), h, n) | _ \<Rightarrow> Some (FundReturned r, h, n))
      | _ \<Rightarrow> map_option (\<lambda>(p', h', n'). (FundDeposit d p', h', n'))
               (dstep p ed (dp_cnr (NewDepositor (fd_conn (fst job))), d) i h n))"
| "fund_step (FundPoll amount k) ed eq job x i h n =
     (case k of
        0 \<Rightarrow> Some (FundReturned (Err (makeTimeoutErr (fs_idx (fund_sub ed (fst job) (snd job))))), h, n)
      | Suc k' \<Rightarrow>
          (case poll_round (con_agent (fd_conn (fst job))) (fund_sub ed (fst job) (snd job)) amount k' x n of
             (p', n') \<Rightarrow> Some (p', h, n')))"
| "fund_step (FundReturned r) ed eq job x i h n = None"

primrec fund_critical :: "fphase \<Rightarrow> bool" where
  "fund_critical FundStart = False"
| "fund_critical (FundDeposit d p) = critical p"
| "fund_critical (FundPoll amount k) = False"
| "fund_critical (FundReturned r) = False"

primrec fund_returned :: "fphase \<Rightarrow> bool" where
  "fund_returned FundStart = False"
| "fund_returned (FundDeposit d p) = False"
| "fund_returned (FundPoll amount k) = False"
| "fund_returned (FundReturned r) = True"

primrec fund_panicked :: "fphase \<Rightarrow> bool" where
  "fund_panicked FundStart = False"
| "fund_panicked (FundDeposit d p) = False"
| "fund_panicked (FundPoll amount k) = False"
| "fund_panicked (FundReturned r) = (case r of Panic m \<Rightarrow> True | _ \<Rightarrow> False)"

text \<open>
  The steps still to make, at most: one per round and one to give up, after at most eight for the
  deposit and its result, after the first.
\<close>

primrec fund_left :: "fphase \<Rightarrow> nat" where
  "fund_left FundStart = DefaultMaxIters + 10"
| "fund_left (FundDeposit d p) = DefaultMaxIters + 2 + remaining p"
| "fund_left (FundPoll amount k) = k + 1"
| "fund_left (FundReturned r) = 0"

lemma poll_start_phase [simp]:
  "\<not> fund_critical (poll_start req)" "fund_left (poll_start req) \<le> DefaultMaxIters + 1"
  by (simp_all add: poll_start_def split: res.split)

lemma poll_round_cases:
  "poll_round a f amount k x n = (p', n') \<Longrightarrow> p' = FundPoll amount k \<or> (\<exists>r. p' = FundReturned r)"
  by (auto simp: poll_round_def evaluate_funded split: tick.splits prod.splits option.splits res.splits if_splits)

lemma fund_step_deposit:
  "\<not> done_phase p \<Longrightarrow> fund_step (FundDeposit d p) ed eq job x i h n =
     map_option (\<lambda>(p', h', n'). (FundDeposit d p', h', n')) (dstep p ed (fd_conn (fst job), d) i h n)"
  by (cases p) simp_all

lemma fund_step_deposited:
  "fund_step (FundDeposit d (Finished r)) ed eq job x i h n =
     (case r of Ok _ \<Rightarrow> Some (poll_start (snd job), h, n) | _ \<Rightarrow> Some (FundReturned r, h, n))"
  by simp

lemmas fund_step_simps = fund_step.simps(1) fund_step_deposit fund_step_deposited fund_step.simps(3,4)

lemma done_phase_iff: "done_phase p \<longleftrightarrow> (\<exists>r. p = Finished r)"
  by (cases p) simp_all

lemma fund_step_cases [consumes 1, case_names start deposit deposited poll]:
  assumes "fund_step p ed eq job x i h n = Some (p', h', n')"
  obtains "p = FundStart" "h' = h" "n' = n"
      "(\<exists>d. NewDepositReqFromPerun eq (snd job) (WalletAcc (fd_acc (fst job))) = Ok d \<and>
          p' = FundDeposit d Transferring) \<or> (\<exists>r. p' = FundReturned r \<and> r \<noteq> Ok ())"
  | d q q' where "p = FundDeposit d q" "\<not> done_phase q" "p' = FundDeposit d q'"
      "dstep q ed (fd_conn (fst job), d) i h n = Some (q', h', n')"
  | d r where "p = FundDeposit d (Finished r)" "h' = h" "n' = n"
      "p' = (if r = Ok () then poll_start (snd job) else FundReturned r)"
  | amount k where "p = FundPoll amount k" "h' = h"
      "(k = 0 \<and> p' = FundReturned (Err (makeTimeoutErr (fs_idx (fund_sub ed (fst job) (snd job))))) \<and> n' = n) \<or>
       (\<exists>k'. k = Suc k' \<and> poll_round (con_agent (fd_conn (fst job))) (fund_sub ed (fst job) (snd job)) amount k' x n = (p', n'))"
proof (cases p)
  case FundStart
  with assms that(1) show ?thesis by (auto split: res.splits)
next
  case (FundDeposit d q)
  show ?thesis
  proof (cases "done_phase q")
    case True
    with FundDeposit assms that(3) show ?thesis
      by (auto simp: done_phase_iff split: res.splits)
  next
    case False
    with FundDeposit assms that(2) show ?thesis by (auto simp: fund_step_deposit simp del: fund_step.simps)
  qed
next
  case (FundPoll amount k)
  with assms that(4) show ?thesis by (auto split: nat.splits prod.splits)
qed (use assms in simp)

section \<open>All of them\<close>

text \<open>Goroutine \<open>i\<close> runs the i-th funder on the i-th request; the \<open>select\<close> may take either branch.\<close>

definition fund_next ::
  "ed25519 \<Rightarrow> (int list list \<Rightarrow> int list list \<Rightarrow> bool) \<Rightarrow> ('w Funder \<times> 'a FundingReq) list \<Rightarrow> (fphase, 'w) program" where
  "fund_next ed eq jobs i p h n r \<longleftrightarrow> (\<exists>x. fund_step p ed eq (jobs ! i) x i h n = Some r)"

abbreviation funds_step where
  "funds_step ed eq jobs \<equiv> threads_step (fund_next ed eq jobs) fund_panicked"

abbreviation funds_run where
  "funds_run ed eq jobs \<equiv> threads_run (fund_next ed eq jobs) fund_panicked"

definition funds_start :: "'w \<Rightarrow> ('w Funder \<times> 'a FundingReq) list \<Rightarrow> (fphase, 'w) threads" where
  "funds_start n jobs = threads_start n (replicate (length jobs) FundStart)"

lemma fund_step_exists:
  assumes "\<not> fund_returned p" and "h = None \<or> fund_critical p"
  shows "\<exists>p' h' n'. fund_step p ed eq job (CtxDone e) i h n = Some (p', h', n')"
proof (cases p)
  case FundStart
  then show ?thesis by (simp split: res.split)
next
  case (FundDeposit d q)
  show ?thesis
  proof (cases "done_phase q")
    case True
    with FundDeposit show ?thesis by (auto simp: done_phase_iff split: res.split)
  next
    case False
    with assms FundDeposit dstep_None [of q ed "(fd_conn (fst job), d)" i h n] show ?thesis
      by (auto simp: fund_step_deposit simp del: fund_step.simps)
  qed
next
  case (FundPoll amount k)
  then show ?thesis by (auto simp: poll_round_def split: nat.split)
qed (use assms in simp)

lemma fund_step_enter:
  "fund_step p ed eq job x i h n = Some (p', h', n') \<Longrightarrow> \<not> fund_critical p \<Longrightarrow>
     (\<not> fund_critical p' \<and> h' = h) \<or> (fund_critical p' \<and> h = None \<and> h' = Some i)"
  by (cases rule: fund_step_cases, assumption) (auto dest: dstep_enter poll_round_cases)

lemma fund_step_leave:
  "fund_step p ed eq job x i h n = Some (p', h', n') \<Longrightarrow> fund_critical p \<Longrightarrow>
     (fund_critical p' \<and> h' = h) \<or> (\<not> fund_critical p' \<and> h' = None)"
  by (cases rule: fund_step_cases, assumption) (auto dest: dstep_leave)

lemma fund_step_left:
  assumes "fund_step p ed eq job x i h n = Some (p', h', n')"
  shows "fund_left p' < fund_left p"
  using assms
proof (cases rule: fund_step_cases)
  case (deposited d r)
  then show ?thesis using poll_start_phase(2) [of "snd job"] by auto
qed (auto dest: dstep_remaining poll_round_cases)

interpretation fund_mutex: locked_threads fund_critical "fund_next ed eq jobs" fund_panicked fund_returned fund_left
  for ed :: ed25519 and eq and jobs :: "('w Funder \<times> 'a FundingReq) list"
proof
  fix i p h p' h' n n'
  show "(\<not> fund_critical p' \<and> h' = h) \<or> (fund_critical p' \<and> h = None \<and> h' = Some i)"
    if "\<exists>n n'. fund_next ed eq jobs i p h n (p', h', n')" "\<not> fund_critical p"
    using that unfolding fund_next_def by (elim exE) (rule fund_step_enter)
  show "(fund_critical p' \<and> h' = h) \<or> (\<not> fund_critical p' \<and> h' = None)"
    if "\<exists>n n'. fund_next ed eq jobs i p h n (p', h', n')" "fund_critical p"
    using that unfolding fund_next_def by (elim exE) (rule fund_step_leave)
  show "fund_left p' < fund_left p" if "fund_next ed eq jobs i p h n (p', h', n')"
    using that unfolding fund_next_def by (elim exE) (rule fund_step_left)
  show "\<exists>p' h' n'. fund_next ed eq jobs i p h n (p', h', n')" if "\<not> fund_returned p" "h = None \<or> fund_critical p"
    using fund_step_exists [OF that, of ed eq "jobs ! i" "ErrNew []" i n] unfolding fund_next_def by blast
  show "\<not> fund_next ed eq jobs i p h n (p', h', n')" if "fund_returned p"
    using that by (cases p) (simp_all add: fund_next_def)
  show "\<not> fund_critical p" if "fund_returned p"
    using that by (cases p) simp_all
qed

lemma funds_start_outside: "list_all (\<lambda>p. \<not> fund_critical p) (replicate k FundStart)"
  by (simp add: list_all_iff)

section \<open>One funder on its own\<close>

text \<open>A round is a turn of the loop.\<close>

lemma funding_poll_round:
  "funding_poll a f amount (Suc k) (x # xs) n =
     (case poll_round a f amount k x n of
        (p, n') \<Rightarrow> (case p of FundReturned r \<Rightarrow> (r, n') | _ \<Rightarrow> funding_poll a f amount k xs n'))"
  by (cases x)
    (auto simp: poll_round_def evaluate_funded split: prod.split option.split res.split)

lemma poll_round_no_hang: "poll_round a f amount k x n \<noteq> (FundReturned Hang, n')"
  using no_hang_parse
  by (auto simp: poll_round_def evaluate_funded split: tick.splits prod.splits option.splits res.splits if_splits)

text \<open>
  What a funder can return from a phase, when no other runs: some schedule of the polling loop
  makes it return.
\<close>

definition poll_result ::
  "fphase \<Rightarrow> ed25519 \<Rightarrow> 'w Funder \<times> 'a FundingReq \<Rightarrow> 'w \<Rightarrow> unit res \<Rightarrow> 'w \<Rightarrow> bool" where
  "poll_result p ed job n r m = (case p of
     FundPoll amount k \<Rightarrow> r \<noteq> Hang \<and> (\<exists>xs. funding_poll (con_agent (fd_conn (fst job)))
         (fund_sub ed (fst job) (snd job)) amount k xs n = (r, m))
   | FundReturned r' \<Rightarrow> r = r' \<and> m = n
   | _ \<Rightarrow> False)"

definition deposit_result ::
  "DepositReq \<Rightarrow> dphase \<Rightarrow> ed25519 \<Rightarrow> 'w Funder \<times> 'a FundingReq \<Rightarrow> 'w \<Rightarrow> unit res \<Rightarrow> 'w \<Rightarrow> bool" where
  "deposit_result d p ed job n r m =
     (case deposit_rest ed (fd_conn (fst job), d) p n of
        (Ok _, n') \<Rightarrow> poll_result (poll_start (snd job)) ed job n' r m
      | (r', n') \<Rightarrow> r = r' \<and> m = n')"

primrec fund_result ::
  "fphase \<Rightarrow> ed25519 \<Rightarrow> (int list list \<Rightarrow> int list list \<Rightarrow> bool) \<Rightarrow> 'w Funder \<times> 'a FundingReq
     \<Rightarrow> 'w \<Rightarrow> unit res \<Rightarrow> 'w \<Rightarrow> bool" where
  "fund_result FundStart ed eq job n r m =
     (case NewDepositReqFromPerun eq (snd job) (WalletAcc (fd_acc (fst job))) of
        Ok d \<Rightarrow> deposit_result d Transferring ed job n r m
      | Err e \<Rightarrow> r = Err e \<and> m = n
      | Panic e \<Rightarrow> r = Panic e \<and> m = n
      | Hang \<Rightarrow> r = Hang \<and> m = n)"
| "fund_result (FundDeposit d p) ed eq job n r m = deposit_result d p ed job n r m"
| "fund_result (FundPoll amount k) ed eq job n r m = poll_result (FundPoll amount k) ed job n r m"
| "fund_result (FundReturned r') ed eq job n r m = poll_result (FundReturned r') ed job n r m"

lemma poll_result_round:
  assumes "poll_round (con_agent (fd_conn (fst job))) (fund_sub ed (fst job) (snd job)) amount k x n = (p', n')"
    and "fund_result p' ed eq job n' r m"
  shows "poll_result (FundPoll amount (Suc k)) ed job n r m"
  using poll_round_cases [OF assms(1)]
proof
  assume p': "p' = FundPoll amount k"
  with assms(2) obtain xs where "r \<noteq> Hang" "funding_poll (con_agent (fd_conn (fst job)))
      (fund_sub ed (fst job) (snd job)) amount k xs n' = (r, m)" by (auto simp: poll_result_def)
  with assms(1) p' show ?thesis
    by (auto simp: poll_result_def funding_poll_round intro!: exI [of _ "x # xs"] simp del: funding_poll.simps)
next
  assume "\<exists>r. p' = FundReturned r"
  with assms poll_round_no_hang [of "con_agent (fd_conn (fst job))" "fund_sub ed (fst job) (snd job)" amount k x n n']
  show ?thesis
    by (auto simp: poll_result_def funding_poll_round intro!: exI [of _ "[x]"] simp del: funding_poll.simps)
qed

lemma fund_step_sound:
  assumes "fund_step p ed eq job x 0 h n = Some (p', h', n')" and r: "fund_result p' ed eq job n' r m"
  shows "fund_result p ed eq job n r m"
proof (cases p)
  case FundStart
  with assms show ?thesis by (auto simp: poll_result_def split: res.splits)
next
  case (FundDeposit d q)
  show ?thesis
  proof (cases "done_phase q")
    case True
    then obtain r' where q: "q = Finished r'" by (auto simp: done_phase_iff)
    have "fund_result (poll_start (snd job)) ed eq job n r m = poll_result (poll_start (snd job)) ed job n r m"
      by (simp add: poll_start_def split: res.split)
    with assms q FundDeposit show ?thesis
      by (cases r') (auto simp: deposit_result_def poll_result_def [of "FundReturned y" for y])
  next
    case False
    with assms(1) FundDeposit obtain q' where st: "dstep q ed (fd_conn (fst job), d) 0 h n = Some (q', h', n')"
        and p': "p' = FundDeposit d q'"
      by (auto simp: fund_step_deposit simp del: fund_step.simps)
    with r FundDeposit deposit_rest_step [OF st] show ?thesis by (simp add: deposit_result_def)
  qed
next
  case (FundPoll amount k)
  show ?thesis
  proof (cases k)
    case 0
    with assms FundPoll show ?thesis by (auto simp: poll_result_def fund_sub_def)
  next
    case (Suc k')
    with assms(1) FundPoll have "poll_round (con_agent (fd_conn (fst job)))
        (fund_sub ed (fst job) (snd job)) amount k' x n = (p', n')" by (auto split: prod.splits)
    from poll_result_round [OF this r] show ?thesis by (simp add: FundPoll Suc)
  qed
qed (use assms in simp)

lemma fund_step_complete:
  assumes r: "fund_result p ed eq job n r m" and "\<not> fund_returned p" and h: "h = None \<or> fund_critical p"
  shows "\<exists>x p' h' n'. fund_step p ed eq job x 0 h n = Some (p', h', n') \<and> fund_result p' ed eq job n' r m"
proof (cases p)
  case FundStart
  with r show ?thesis by (auto simp: poll_result_def split: res.splits)
next
  case (FundDeposit d q)
  show ?thesis
  proof (cases "done_phase q")
    case True
    then obtain r' where q: "q = Finished r'" by (auto simp: done_phase_iff)
    have "fund_result (poll_start (snd job)) ed eq job n r m = poll_result (poll_start (snd job)) ed job n r m"
      by (simp add: poll_start_def split: res.split)
    with r q FundDeposit show ?thesis
      by (cases r') (auto simp: deposit_result_def poll_result_def [of "FundReturned y" for y])
  next
    case False
    with h FundDeposit dstep_None [of q ed "(fd_conn (fst job), d)" 0 h n]
    obtain q' h' n' where st: "dstep q ed (fd_conn (fst job), d) 0 h n = Some (q', h', n')"
      by auto
    with r FundDeposit deposit_rest_step [OF st] False have
      "fund_step p ed eq job (Timer 0) 0 h n = Some (FundDeposit d q', h', n')"
      "fund_result (FundDeposit d q') ed eq job n' r m"
      by (simp_all add: fund_step_deposit deposit_result_def del: fund_step.simps)
    then show ?thesis by blast
  qed
next
  case (FundPoll amount k)
  with r obtain xs where rr: "r \<noteq> Hang" and xs: "funding_poll (con_agent (fd_conn (fst job)))
      (fund_sub ed (fst job) (snd job)) amount k xs n = (r, m)" by (auto simp: poll_result_def)
  show ?thesis
  proof (cases k)
    case 0
    with xs FundPoll show ?thesis by (auto simp: poll_result_def)
  next
    case (Suc k')
    with xs rr obtain x ys where x: "xs = x # ys" by (cases xs) auto
    obtain p' n' where pr: "poll_round (con_agent (fd_conn (fst job)))
        (fund_sub ed (fst job) (snd job)) amount k' x n = (p', n')" by fastforce
    with xs x Suc rr poll_round_cases [OF pr] have "fund_result p' ed eq job n' r m"
      by (auto simp: funding_poll_round poll_result_def simp del: funding_poll.simps)
    moreover have "fund_step p ed eq job x 0 h n = Some (p', h, n')" using pr by (simp add: FundPoll Suc)
    ultimately show ?thesis by blast
  qed
qed (use assms in simp)

interpretation solo_fund: sequential fund_critical "fund_next ed eq [job]" fund_panicked fund_returned fund_left
    "\<lambda>p n r m. fund_result p ed eq job n r m" FundReturned
  for ed :: ed25519 and eq and job :: "'w Funder \<times> 'a FundingReq"
proof
  fix p p' h h' n n' r r' m
  show "fund_result p ed eq job n r m"
    if "fund_next ed eq [job] 0 p h n (p', h', n')" "fund_result p' ed eq job n' r m"
    using that unfolding fund_next_def nth_Cons_0 by (elim exE) (rule fund_step_sound)
  show "\<exists>p' h' n'. fund_next ed eq [job] 0 p h n (p', h', n') \<and> fund_result p' ed eq job n' r m"
    if "fund_result p ed eq job n r m" "\<not> fund_returned p" "h = None \<or> fund_critical p"
    using fund_step_complete [OF that] unfolding fund_next_def nth_Cons_0 by blast
  show "fund_result (FundReturned r) ed eq job n r' m \<longleftrightarrow> r' = r \<and> m = n"
    by (simp add: poll_result_def)
  show "fund_returned p \<longleftrightarrow> (\<exists>r. p = FundReturned r)" by (cases p) auto
  show "fund_returned p" if "fund_panicked p" using that by (cases p) simp_all
qed

lemma NewDepositReqFromPerun_no_hang:
  "MarshalBinary (pp_parts (fr_params req) ! fr_idx req) \<noteq> Hang \<Longrightarrow>
     NewDepositReqFromPerun eq req (WalletAcc sk) \<noteq> Hang"
  by (auto simp: NewDepositReqFromPerun_def MakeFundingReq_def res_bind_eq_Hang go_nth_def MakeOffIdent_def
      split: res.splits if_splits)

lemma TransferToPerun_no_hang: "TransferToPerun c d n \<noteq> (Hang, n')"
  by (auto simp: TransferToPerun_def TransferIC_def BuildTransfer_def MakeBalance_def res_bind_eq_Hang
      split: res.splits prod.splits option.splits if_splits)

lemma notify_no_hang: "NotifyTransferToPerun c b p \<lparr>fw_net = n, fw_locked = False\<rparr> \<noteq> (Hang, w')"
  by (auto simp: NotifyTransferToPerun_def notify_body_def with_mutex_def Let_def split: prod.splits option.splits)

lemma deposit_call_no_hang: "DepositToPerunChannel c a i \<lparr>fw_net = n, fw_locked = False\<rparr> \<noteq> (Hang, w')"
  by (auto simp: DepositToPerunChannel_def deposit_body_def BuildDeposit_eq with_mutex_def Let_def
      split: prod.splits option.splits)

lemma deposit_rest_no_hang: "deposit_rest ed (c, d) Transferring n \<noteq> (Hang, n')"
proof -
  have dep: "deposit_rest ed (c, d) AtDeposit m \<noteq> (Hang, m')" for m m'
    using deposit_call_no_hang [of c "Account_L2Address ed (dr_account d)" "f_channel (dr_funding d)" m]
    by (auto simp: deposit_rest_AtDeposit split: prod.splits res.splits)
  have nt: "deposit_rest ed (c, d) (AtNotify b) m \<noteq> (Hang, m')" for b m m'
    using notify_no_hang [of c b "con_perunID c" m] dep
    by (auto simp: deposit_rest_AtNotify split: prod.splits res.splits)
  obtain x n1 where "TransferToPerun c d n = (x, n1)" by fastforce
  then show ?thesis
    using TransferToPerun_no_hang [of c d n n1] nt
    by (cases x) (simp_all add: deposit_rest.simps [of _ _ Transferring])
qed

text \<open>All of it is \<open>Fund\<close>, on the schedules that make it return.\<close>

lemma poll_start_result:
  "poll_result (poll_start req) ed (f, req) n r m \<longleftrightarrow>
     r \<noteq> Hang \<and> (\<exists>xs. QueryFundingState (con_agent (fd_conn f)) (fund_sub ed f req) xs n = (r, m))"
proof -
  have sub: "fs_agreement (fund_sub ed f req) = fr_agreement req" "fs_idx (fund_sub ed f req) = fr_idx req"
    "fs_maxIters (fund_sub ed f req) = DefaultMaxIters"
    by (simp_all add: fund_sub_def NewFundingEventSub_def Let_def)
  have no_hang: "res_bind (go_nth (fr_agreement req) 0) (\<lambda>row. go_nth row (int (fr_idx req))) \<noteq> Hang"
    by (auto simp: res_bind_eq_Hang go_nth_def)
  then show ?thesis
    by (cases "res_bind (go_nth (fr_agreement req) 0) (\<lambda>row. go_nth row (int (fr_idx req)))")
      (auto simp: poll_result_def poll_start_def QueryFundingState_def sub)
qed

lemma fund_start_result:
  assumes "MarshalBinary (pp_parts (fr_params req) ! fr_idx req) \<noteq> Hang"
  shows "fund_result FundStart ed eq (f, req) n r m \<longleftrightarrow>
    r \<noteq> Hang \<and> (\<exists>xs w. Fund ed eq f req xs \<lparr>fw_net = n, fw_locked = False\<rparr> = (r, w) \<and> m = fw_net w)"
proof (cases "NewDepositReqFromPerun eq req (WalletAcc (fd_acc f))")
  case (Ok d)
  obtain x w1 where dep: "Depositor_Deposit ed (fd_conn f) d \<lparr>fw_net = n, fw_locked = False\<rparr> = (x, w1)" by fastforce
  then have rest: "deposit_rest ed (fd_conn f, d) Transferring n = (x, fw_net w1)" by (simp add: deposit_rest_start)
  then have "x \<noteq> Hang" using deposit_rest_no_hang [of ed "fd_conn f" d n "fw_net w1"] by auto
  with Ok dep rest show ?thesis
    by (cases x) (auto simp: Fund_def Let_def deposit_result_def poll_start_result fund_sub_def case_prod_beta prod_eq_iff)
qed (use assms NewDepositReqFromPerun_no_hang in \<open>auto simp: Fund_def Let_def\<close>)

section \<open>What a funder has seen\<close>

text \<open>
  \<open>logs n q\<close> is the canister's funding log for the query \<open>q\<close> when the world is \<open>n\<close>. No call to the
  canister or the ledger removes an entry from it, and an answer to a query is the text of the log,
  or of the part of it that was written when the canister looked.
\<close>

definition grows :: "('w \<Rightarrow> ChannelTime \<Rightarrow> fund_entry list) \<Rightarrow> 'w \<Rightarrow> 'w \<Rightarrow> bool" where
  "grows logs n n' \<longleftrightarrow> (\<forall>q. \<exists>new. logs n' q = logs n q @ new)"

definition keeps_log :: "'w Connector \<Rightarrow> ('w \<Rightarrow> ChannelTime \<Rightarrow> fund_entry list) \<Rightarrow> bool" where
  "keeps_log c logs \<longleftrightarrow>
     (\<forall>mode p m args n. grows logs n (snd (ag_call (con_agent c) mode p m args n))) \<and>
     (\<forall>args n. grows logs n (snd (con_ledger c args n)))"

definition shows_log :: "'w icAgent \<Rightarrow> ('w \<Rightarrow> ChannelTime \<Rightarrow> fund_entry list) \<Rightarrow> bool" where
  "shows_log a logs \<longleftrightarrow> (\<forall>q n s n'. QueryEvents a q n = ((s, None), n') \<longrightarrow>
     (\<exists>sep log later. s = frender sep log \<and> wf_fsep sep \<and> list_all wf_fund log \<and> logs n' q = log @ later))"

lemma grows_refl [simp]: "grows logs n n"
  by (simp add: grows_def)

lemma grows_paid: "grows logs n n' \<Longrightarrow> paid (logs n q) pk \<le> paid (logs n' q) pk"
  unfolding grows_def by (metis le_add1 paid_append)

lemma keeps_log_call: "keeps_log c logs \<Longrightarrow> ag_call (con_agent c) mode p m args n = (r, n') \<Longrightarrow> grows logs n n'"
  unfolding keeps_log_def by (metis snd_conv)

lemma keeps_log_ledger: "keeps_log c logs \<Longrightarrow> con_ledger c args n = (r, n') \<Longrightarrow> grows logs n n'"
  unfolding keeps_log_def by (metis snd_conv)

lemma keeps_log_query: "keeps_log c logs \<Longrightarrow> QueryEvents (con_agent c) q n = (r, n') \<Longrightarrow> grows logs n n'"
  by (auto simp: QueryEvents_def split: sum.splits prod.splits reply.splits dest: keeps_log_call)

lemma keeps_log_notify: "keeps_log c logs \<Longrightarrow> notify_body c b n = (r, n') \<Longrightarrow> grows logs n n'"
  by (auto simp: notify_body_def TransactionNotification_def split: sum.splits prod.splits option.splits reply.splits
      dest: keeps_log_call)

lemma keeps_log_deposit: "keeps_log c logs \<Longrightarrow> deposit_body c d n = (r, n') \<Longrightarrow> grows logs n n'"
  by (auto simp: deposit_body_def Deposit_def split: sum.splits prod.splits option.splits reply.splits
      dest: keeps_log_call)

lemma keeps_log_transfer: "keeps_log c logs \<Longrightarrow> TransferToPerun c d n = (r, n') \<Longrightarrow> grows logs n n'"
  by (auto simp: TransferToPerun_def TransferIC_def split: res.splits prod.splits option.splits if_splits
      dest: keeps_log_ledger)

lemmas keeps_log_ops = keeps_log_query keeps_log_notify keeps_log_deposit keeps_log_transfer

lemma keeps_log_dstep:
  "keeps_log c logs \<Longrightarrow> dstep p ed (c, d) i h n = Some (p', h', n') \<Longrightarrow> grows logs n n'"
  by (cases p) (auto simp: BuildDeposit_eq split: prod.splits if_splits dest: keeps_log_ops)

lemma keeps_log_round:
  "keeps_log c logs \<Longrightarrow> poll_round (con_agent c) f amount k x n = (p', n') \<Longrightarrow> grows logs n n'"
  by (auto simp: poll_round_def FundingEventSub_QueryEvents_def evaluate_funded
      split: tick.splits prod.splits option.splits res.splits if_splits dest: keeps_log_query)

lemma keeps_log_step:
  assumes "fund_step p ed eq job x i h n = Some (p', h', n')" and "keeps_log (fd_conn (fst job)) logs"
  shows "grows logs n n'"
  using assms(1) by (cases rule: fund_step_cases) (use assms(2) in \<open>auto dest: keeps_log_dstep keeps_log_round\<close>)

text \<open>The ledger has accepted the transfer of a deposit.\<close>

definition transferred :: "'w Connector \<Rightarrow> DepositReq \<Rightarrow> bool" where
  "transferred c d \<longleftrightarrow> (\<exists>args tr n n'.
     BuildTransfer c (con_l1 c) (dr_balance d) (dr_fee d) (dr_funding d) (con_perunID c) = Ok args \<and>
     con_ledger c args n = ((Some tr, None), n') \<and> tr_err tr = None)"

definition past_transfer :: "'w Connector \<Rightarrow> DepositReq \<Rightarrow> dphase \<Rightarrow> bool" where
  "past_transfer c d p \<longleftrightarrow> p = Transferring \<or> (\<exists>r. p = Finished r \<and> r \<noteq> Ok ()) \<or> transferred c d"

lemma past_transfer_step:
  assumes "dstep p ed (c, d) i h n = Some (p', h', n')" and "past_transfer c d p"
  shows "past_transfer c d p'"
proof (cases "p = Transferring")
  case True
  with assms(1) obtain r where r: "TransferToPerun c d n = (r, n')" and p': "p' = after_transfer r"
    by (auto split: prod.splits)
  show ?thesis
  proof (cases r)
    case (Ok b)
    with r obtain args tr where "BuildTransfer c (con_l1 c) (dr_balance d) (dr_fee d) (dr_funding d) (con_perunID c) = Ok args"
        "con_ledger c args n = ((Some tr, None), n')" "tr_err tr = None"
      by (auto simp: TransferToPerun_Ok)
    then have "transferred c d" unfolding transferred_def by blast
    then show ?thesis by (simp add: past_transfer_def)
  qed (simp_all add: p' past_transfer_def)
next
  case False
  with assms have "transferred c d" by (auto simp: past_transfer_def)
  then show ?thesis by (simp add: past_transfer_def)
qed

text \<open>What each goroutine keeps, whatever the others do.\<close>

primrec fund_inv ::
  "ed25519 \<Rightarrow> (int list list \<Rightarrow> int list list \<Rightarrow> bool) \<Rightarrow> ('w \<Rightarrow> ChannelTime \<Rightarrow> fund_entry list)
     \<Rightarrow> 'w Funder \<times> 'a FundingReq \<Rightarrow> 'w \<Rightarrow> fphase \<Rightarrow> bool" where
  "fund_inv ed eq logs job n FundStart = True"
| "fund_inv ed eq logs job n (FundDeposit d p) \<longleftrightarrow>
     NewDepositReqFromPerun eq (snd job) (WalletAcc (fd_acc (fst job))) = Ok d \<and>
     past_transfer (fd_conn (fst job)) d p"
| "fund_inv ed eq logs job n (FundPoll amount k) \<longleftrightarrow>
     (\<exists>d. NewDepositReqFromPerun eq (snd job) (WalletAcc (fd_acc (fst job))) = Ok d \<and>
        transferred (fd_conn (fst job)) d \<and> amount = low64 (dr_balance d))"
| "fund_inv ed eq logs job n (FundReturned r) \<longleftrightarrow> (r = Ok () \<longrightarrow>
     (\<exists>d. NewDepositReqFromPerun eq (snd job) (WalletAcc (fd_acc (fst job))) = Ok d \<and>
        transferred (fd_conn (fst job)) d \<and>
        dr_balance d \<le> int (paid (logs n \<lparr>ct_channel = pp_id (fr_params (snd job)), ct_time = 0\<rparr>)
          (ed_public ed (fd_acc (fst job))))))"

lemma fund_inv_grows: "grows logs n n' \<Longrightarrow> fund_inv ed eq logs job n p \<Longrightarrow> fund_inv ed eq logs job n' p"
proof (cases p)
  case (FundReturned r)
  assume "grows logs n n'" "fund_inv ed eq logs job n p"
  with FundReturned grows_paid [of logs n n' "\<lparr>ct_channel = pp_id (fr_params (snd job)), ct_time = 0\<rparr>"
      "ed_public ed (fd_acc (fst job))"] show ?thesis
    by fastforce
qed simp_all

lemma transferred_low64:
  assumes "transferred c d"
  shows "int (unat (low64 (dr_balance d))) = dr_balance d"
proof -
  obtain args where "BuildTransfer c (con_l1 c) (dr_balance d) (dr_fee d) (dr_funding d) (con_perunID c) = Ok args"
    using assms unfolding transferred_def by blast
  from BuildTransfer_amounts(4,5) [OF this] show ?thesis
    using uint_of_small [of "dr_balance d"] by (simp add: low64_def)
qed

lemma poll_start_Ok:
  "NewDepositReqFromPerun eq req (WalletAcc sk) = Ok d \<Longrightarrow> poll_start req = FundPoll (low64 (dr_balance d)) DefaultMaxIters"
  by (auto simp: NewDepositReqFromPerun_Ok poll_start_def go_nth_def)

lemma poll_round_Ok:
  assumes "poll_round a f amount k x n = (FundReturned (Ok ()), n')" and "shows_log a logs"
    and "fs_address f = Address pk"
  shows "unat amount \<le> paid (logs n' (fs_queryArgs f)) pk"
proof -
  from assms(1) obtain s evs where q: "QueryEvents a (fs_queryArgs f) n = ((s, None), n')"
      and evs: "parseEvents s = Ok evs" and le: "unat amount \<le> own_total evs (Address pk) mod 2 ^ 64"
    by (auto simp: poll_round_def FundingEventSub_QueryEvents_def evaluate_funded assms(3)
        split: tick.splits prod.splits option.splits res.splits if_splits)
  from q assms(2) obtain sep log later where log: "s = frender sep log" "wf_fsep sep" "list_all wf_fund log"
      "logs n' (fs_queryArgs f) = log @ later" unfolding shows_log_def by blast
  have "evs = map fund_event log" using evs parse_funding_log [OF log(2,3)] log(1) by simp
  then have "own_total evs (Address pk) = paid log pk" using own_total_paid [OF log(3)] by simp
  moreover have "own_total evs (Address pk) mod 2 ^ 64 \<le> own_total evs (Address pk)" by (rule mod_less_eq_dividend)
  ultimately show ?thesis using le log(4) by simp
qed

lemma fund_inv_step:
  assumes "fund_step p ed eq job x i h n = Some (p', h', n')" and "fund_inv ed eq logs job n p"
    and "shows_log (con_agent (fd_conn (fst job))) logs"
  shows "fund_inv ed eq logs job n' p'"
  using assms(1)
proof (cases rule: fund_step_cases)
  case start
  then show ?thesis by (auto simp: past_transfer_def)
next
  case (deposit d q q')
  with assms(2) past_transfer_step show ?thesis by auto
next
  case (deposited d r)
  with assms(2) show ?thesis by (auto simp: poll_start_Ok past_transfer_def)
next
  case (poll amount k)
  from poll(3) show ?thesis
  proof (elim disjE exE conjE)
    fix k'
    assume rd: "poll_round (con_agent (fd_conn (fst job))) (fund_sub ed (fst job) (snd job)) amount k' x n = (p', n')"
    have sub: "fs_address (fund_sub ed (fst job) (snd job)) = Address (ed_public ed (fd_acc (fst job)))"
      "fs_queryArgs (fund_sub ed (fst job) (snd job)) = \<lparr>ct_channel = pp_id (fr_params (snd job)), ct_time = 0\<rparr>"
      by (simp_all add: fund_sub_def NewFundingEventSub_def Let_def Account_L2Address_def)
    show ?thesis
    proof (cases "p' = FundReturned (Ok ())")
      case True
      from assms(2) poll(1) obtain d where d: "NewDepositReqFromPerun eq (snd job) (WalletAcc (fd_acc (fst job))) = Ok d"
          "transferred (fd_conn (fst job)) d" "amount = low64 (dr_balance d)" by auto
      have "dr_balance d \<le> int (paid (logs n' (fs_queryArgs (fund_sub ed (fst job) (snd job)))) (ed_public ed (fd_acc (fst job))))"
        using poll_round_Ok [OF rd [unfolded True] assms(3) sub(1)] transferred_low64 [OF d(2)] unfolding d(3)
        by (metis of_nat_le_iff)
      with d True show ?thesis by (auto simp: sub(2))
    next
      case False
      with poll_round_cases [OF rd] poll assms(2) show ?thesis by auto
    qed
  qed simp
qed

lemma funds_run_inv:
  assumes run: "funds_run ed eq jobs k (funds_start n jobs) s" and i: "i < length jobs"
    and logs: "\<forall>(g, r)\<in>set jobs. keeps_log (fd_conn g) logs \<and> shows_log (con_agent (fd_conn g)) logs"
  shows "fund_inv ed eq logs (jobs ! i) (th_net s) (th_phases s ! i)"
proof -
  let ?J = "\<lambda>i p n. fund_inv ed eq logs (jobs ! i) n p"
  have job: "keeps_log (fd_conn (fst (jobs ! j))) logs" "shows_log (con_agent (fd_conn (fst (jobs ! j)))) logs"
    if "j < length jobs" for j
    using logs nth_mem [OF that] by (auto simp: case_prod_beta)
  have "\<forall>i<length (th_phases s). ?J i (th_phases s ! i) (th_net s)"
  proof (rule threads_run_local [OF run, where J = ?J])
    show "?J j (th_phases (funds_start n jobs) ! j) (th_net (funds_start n jobs))"
      if "j < length (th_phases (funds_start n jobs))" for j
      using that by (simp add: funds_start_def)
    show "?J j p' m'" if "j < length (th_phases (funds_start n jobs))"
      "fund_next ed eq jobs j p h m (p', h', m')" "?J j p m" for j p h m p' h' m'
    proof -
      from that(2) obtain x where st: "fund_step p ed eq (jobs ! j) x j h m = Some (p', h', m')"
        unfolding fund_next_def by blast
      have "j < length jobs" using that(1) by (simp add: funds_start_def)
      from fund_inv_step [OF st that(3) job(2) [OF this]] show ?thesis .
    qed
    show "?J l q m'" if "j < length (th_phases (funds_start n jobs))"
      "fund_next ed eq jobs j p h m (p', h', m')" "?J l q m" for j p h m p' h' m' l q
    proof -
      from that(2) obtain x where st: "fund_step p ed eq (jobs ! j) x j h m = Some (p', h', m')"
        unfolding fund_next_def by blast
      have "j < length jobs" using that(1) by (simp add: funds_start_def)
      from fund_inv_grows [OF keeps_log_step [OF st job(1) [OF this]] that(3)] show ?thesis .
    qed
  qed
  moreover have "length (th_phases s) = length jobs"
    using threads_run_length [OF run] by (simp add: funds_start_def)
  ultimately show ?thesis using i by simp
qed

section \<open>Properties\<close>

text \<open>
  Property C16 (fund_all_funded): participants fund concurrently, on any schedule. Once \<open>Fund\<close> has
  returned nil to one of them, the ledger has accepted its transfer of exactly the agreed balance
  plus the fee of 10,000, to the canister's account and with the memo of channel and participant,
  and the canister's log of the channel shows, then and for as long as the others go on, at least
  the agreed balance as paid in by its key.
\<close>

theorem fund_all_funded:
  assumes run: "funds_run ed eq jobs k (funds_start n jobs) s"
    and i: "i < length jobs" "jobs ! i = (f, req)" "th_phases s ! i = FundReturned (Ok ())"
    and logs: "\<forall>(g, r)\<in>set jobs. keeps_log (fd_conn g) logs \<and> shows_log (con_agent (fd_conn g)) logs"
  shows "\<exists>bal args tr m m' ident. hd (fr_agreement req) ! fr_idx req = bal \<and> 0 \<le> bal \<and> bal \<le> 2 ^ 30 \<and>
    con_ledger (fd_conn f) args m = ((Some tr, None), m') \<and> tr_err tr = None \<and>
    int (unat (ta_amount args)) = bal + 10000 \<and>
    ta_to args = con_account_id (fd_conn f) (con_perunID (fd_conn f)) \<and>
    ta_memo args = fst (Funding_Memo \<lparr>f_channel = pp_id (fr_params req), f_part = ident\<rparr>) \<and>
    MakeOffIdent (pp_parts (fr_params req) ! fr_idx req) = Ok ident \<and>
    bal \<le> int (paid (logs (th_net s) \<lparr>ct_channel = pp_id (fr_params req), ct_time = 0\<rparr>)
      (ed_public ed (fd_acc f)))"
proof -
  from funds_run_inv [OF run i(1) logs] obtain d where
    d: "NewDepositReqFromPerun eq req (WalletAcc (fd_acc f)) = Ok d" and t: "transferred (fd_conn f) d"
    and le: "dr_balance d \<le> int (paid (logs (th_net s) \<lparr>ct_channel = pp_id (fr_params req), ct_time = 0\<rparr>)
      (ed_public ed (fd_acc f)))"
    by (auto simp: i)
  from d obtain row rows ident where row: "fr_agreement req = row # rows"
    and ident: "MakeOffIdent (pp_parts (fr_params req) ! fr_idx req) = Ok ident"
    and dq: "d = \<lparr>dr_balance = row ! fr_idx req, dr_fee = uint ICTransferFee, dr_account = fd_acc f,
             dr_funding = \<lparr>f_channel = pp_id (fr_params req), f_part = ident\<rparr>\<rparr>"
    unfolding NewDepositReqFromPerun_Ok by blast
  from t obtain args tr m m' where bt: "BuildTransfer (fd_conn f) (con_l1 (fd_conn f)) (dr_balance d) (dr_fee d)
      (dr_funding d) (con_perunID (fd_conn f)) = Ok args"
    and led: "con_ledger (fd_conn f) args m = ((Some tr, None), m')" "tr_err tr = None"
    unfolding transferred_def by blast
  have fee: "uint ICTransferFee = 10000" by (simp add: ICTransferFee_def)
  have bal: "hd (fr_agreement req) ! fr_idx req = dr_balance d" using row dq by simp
  from bal BuildTransfer_amounts(1,4,5,6,7) [OF bt] led ident le show ?thesis
    unfolding dq fee DepositReq.simps by blast
qed

text \<open>
  Property C23 (fund_all_finish): concurrent funding neither deadlocks nor runs for ever: \<open>k\<close>
  participants make at most \<open>25 * k\<close> steps, fifteen of them rounds of polling, on any schedule; a
  state in which none can go on is one in which all have returned, with the mutex free, or one has
  panicked and taken the process down; and the mutex is always held by exactly the one that is
  between its \<open>Lock\<close> and \<open>Unlock\<close>.
\<close>

theorem fund_all_finish:
  assumes "funds_run ed eq jobs k (funds_start n jobs) s"
  shows "k \<le> 25 * length jobs \<and>
    ((\<nexists>t. funds_step ed eq jobs s t) = (list_ex fund_panicked (th_phases s) \<or> list_all fund_returned (th_phases s))) \<and>
    (\<forall>i<length (th_phases s). fund_critical (th_phases s ! i) = (th_holder s = Some i)) \<and>
    (list_all fund_returned (th_phases s) \<longrightarrow> th_holder s = None)"
  using fund_mutex.start_bound [OF assms [unfolded funds_start_def]]
    fund_mutex.start_stuck [OF assms [unfolded funds_start_def] funds_start_outside]
    fund_mutex.start_lock [OF assms [unfolded funds_start_def] funds_start_outside]
  by (simp add: sum_list_replicate DefaultMaxIters_def)

text \<open>
  Property C24 (fund_steps_refine): the steps of one funder, when no other runs, implement \<open>Fund\<close>:
  the runs that cannot go on are those that end with what \<open>Fund\<close> returns on some schedule of its
  polling loop, the world as \<open>Fund\<close> leaves it, and the mutex free.
\<close>

theorem fund_steps_refine:
  assumes "MarshalBinary (pp_parts (fr_params req) ! fr_idx req) \<noteq> Hang"
  shows "((\<exists>k. funds_run ed eq [(f, req)] k (funds_start n [(f, req)]) s) \<and>
      (\<nexists>t. funds_step ed eq [(f, req)] s t)) =
    (\<exists>xs r w. Fund ed eq f req xs \<lparr>fw_net = n, fw_locked = False\<rparr> = (r, w) \<and> r \<noteq> Hang \<and>
      s = \<lparr>th_net = fw_net w, th_holder = None, th_phases = [FundReturned r]\<rparr>)"
proof -
  have start: "funds_start n [(f, req)] = solo n (solo_fund.owner FundStart) FundStart"
    by (simp add: funds_start_def threads_start_def solo_fund.owner_def)
  show ?thesis
    unfolding start solo_fund.runs_are_results fund_start_result [OF assms] by auto
qed

section \<open>A run\<close>

abbreviation demo_fund_jobs :: "(unit Funder \<times> unit FundingReq) list" where
  "demo_fund_jobs \<equiv> [(NewFunder (replicate 32 1) (demo_conn demo_ok), demo_req)]"

lemma demo_req_marshals: "MarshalBinary (pp_parts (fr_params demo_req) ! fr_idx demo_req) \<noteq> Hang"
  by (simp add: demo_req_def pp_demo_def Address_MarshalBinary_def)

lemma demo_fund_run:
  "\<exists>k. funds_run ed_plain (=) demo_fund_jobs k (funds_start () demo_fund_jobs)
     \<lparr>th_net = (), th_holder = None, th_phases = [FundReturned (Ok ())]\<rparr>"
proof -
  have "fund_result FundStart ed_plain (=) (hd demo_fund_jobs) () (Ok ()) ()"
    using demo_fund_succeeds
    by (auto simp: fund_start_result [OF demo_req_marshals] prod_eq_iff simp del: fund_result.simps)
  from solo_fund.run_complete [OF this] show ?thesis
    by (simp add: funds_start_def threads_start_def solo_fund.owner_def)
qed

lemma demo_keeps_log: "keeps_log (demo_conn demo_ok) (\<lambda>n q. demo_log)"
  by (simp add: keeps_log_def grows_def)

lemma demo_shows_log: "shows_log demo_agent (\<lambda>n q. demo_log)"
proof -
  have "QueryEvents demo_agent q n = ((s, None), n') \<Longrightarrow> s = frender '', '' demo_log" for q n s n'
    by (simp add: QueryEvents_def demo_agent_def)
  with demo_log_wf show ?thesis unfolding shows_log_def by (metis append_Nil2)
qed

theorem fund_all_funded_witness: "2000 \<le> int (paid demo_log (replicate 32 1))"
proof -
  let ?s = "\<lparr>th_net = (), th_holder = None, th_phases = [FundReturned (Ok ())]\<rparr>"
  obtain k where k: "funds_run ed_plain (=) demo_fund_jobs k (funds_start () demo_fund_jobs) ?s"
    using demo_fund_run by blast
  have "\<forall>(g, r)\<in>set demo_fund_jobs. keeps_log (fd_conn g) (\<lambda>n q. demo_log) \<and> shows_log (con_agent (fd_conn g)) (\<lambda>n q. demo_log)"
    using demo_keeps_log demo_shows_log by (simp add: NewFunder_def demo_conn_def)
  from fund_all_funded [OF k _ _ _ this, of 0] show ?thesis
    by (auto simp: NewFunder_def demo_req_def ed_plain_def)
qed

theorem fund_all_finish_witness:
  "\<exists>k. funds_run ed_plain (=) demo_fund_jobs k (funds_start () demo_fund_jobs)
     \<lparr>th_net = (), th_holder = None, th_phases = [FundReturned (Ok ())]\<rparr> \<and> k \<le> 25"
  using demo_fund_run fund_all_finish by fastforce

theorem fund_steps_refine_witness:
  "\<exists>xs w. Fund ed_plain (=) (NewFunder (replicate 32 1) (demo_conn demo_ok)) demo_req xs
     \<lparr>fw_net = (), fw_locked = False\<rparr> = (Ok (), w)"
proof -
  let ?s = "\<lparr>th_net = (), th_holder = None, th_phases = [FundReturned (Ok ())]\<rparr>"
  have stuck: "\<nexists>t. funds_step ed_plain (=) demo_fund_jobs ?s t"
    unfolding solo_step_iff by (simp add: fund_next_def)
  from fund_steps_refine [OF demo_req_marshals, of ed_plain "(=)" "NewFunder (replicate 32 1) (demo_conn demo_ok)" "()" ?s,
      THEN iffD1, OF conjI, OF demo_fund_run stuck]
  show ?thesis by auto
qed

end
