(* ===== verification/Subscription.thy ===== *)
theory Subscription
  imports AdjEvents IcPerun
begin

text \<open>
  The adjudicator subscription, \<open>channel/connector/subscribe.go\<close> and the constructor
  \<open>NewAdjEventSub\<close>: a goroutine that polls the canister and a reader that takes events. The two
  run concurrently, so the goroutine is a step relation over the shared state: the channel
  \<open>events\<close> with its buffer, the channel \<open>panicErr\<close>, the context and the closer.
\<close>

section \<open>State\<close>

definition DefaultBufferSize :: nat where "DefaultBufferSize = 3"

definition DefaultSubscriptionPollingInterval :: duration where
  "DefaultSubscriptionPollingInterval = 4 * Second"

text \<open>
  Where the goroutine is: at the \<open>select\<close>; blocked on sending an error, with the text of the query
  still to be looked at (\<open>Some s\<close>) or not (\<open>None\<close>); sending events; returned; or gone down with
  the program in a panic.
\<close>

datatype pc =
    Polling
  | SendErr err "string option"
  | SendEvents "adj_event list"
  | Returned
  | Crashed

record 'w AdjEventSub =
  es_queryArgs :: ChannelTime
  es_net :: 'w
  es_pc :: pc
  es_chan :: bool
  es_events :: "adj_event list"
  es_closed :: bool
  es_err :: "err option"
  es_panicErr :: "err list"
  es_ctxDone :: bool
  es_closer :: bool
  es_pollInterval :: duration

text \<open>\<open>now\<close> is the clock in seconds.\<close>

definition NewAdjudicatorSub :: "bytes \<Rightarrow> u64 \<Rightarrow> 'w \<Rightarrow> 'w AdjEventSub" where
  "NewAdjudicatorSub cid nowUnix net = \<lparr>es_queryArgs = \<lparr>ct_channel = cid, ct_time = nowUnix\<rparr>,
     es_net = net, es_pc = Polling, es_chan = True, es_events = [], es_closed = False, es_err = None,
     es_panicErr = [], es_ctxDone = False, es_closer = False,
     es_pollInterval = DefaultSubscriptionPollingInterval\<rparr>"

text \<open>The other constructor makes no channel and starts no goroutine.\<close>

definition NewAdjEventSub :: "bytes \<Rightarrow> u64 \<Rightarrow> 'w \<Rightarrow> 'w AdjEventSub" where
  "NewAdjEventSub chanID starttime net = \<lparr>es_queryArgs = \<lparr>ct_channel = chanID, ct_time = starttime\<rparr>,
     es_net = net, es_pc = Returned, es_chan = False, es_events = [], es_closed = False, es_err = None,
     es_panicErr = [], es_ctxDone = False, es_closer = False, es_pollInterval = 0\<rparr>"

definition GetEvents :: "'w AdjEventSub \<Rightarrow> adj_event list" where
  "GetEvents s = es_events s"

definition Sub_Events :: "'w AdjEventSub \<Rightarrow> adj_event list" where
  "Sub_Events s = es_events s"

definition Sub_Err :: "'w AdjEventSub \<Rightarrow> err option" where
  "Sub_Err s = es_err s"

definition Sub_PanicErr :: "'w AdjEventSub \<Rightarrow> err list" where
  "Sub_PanicErr s = es_panicErr s"

definition Sub_QueryEvents :: "'w icAgent \<Rightarrow> 'w AdjEventSub \<Rightarrow> string goret \<times> 'w" where
  "Sub_QueryEvents a s = QueryEvents a (es_queryArgs s) (es_net s)"

section \<open>The goroutine\<close>

definition finish :: "err option \<Rightarrow> 'w AdjEventSub \<Rightarrow> 'w AdjEventSub" where
  "finish e s = s\<lparr>es_err := e, es_closed := True, es_pc := Returned\<rparr>"

text \<open>After the query: an empty text goes round again, anything else is parsed.\<close>

definition after_query :: "string \<Rightarrow> 'w AdjEventSub \<Rightarrow> 'w AdjEventSub" where
  "after_query eventStr s =
     (if eventStr = '''' then s\<lparr>es_pc := Polling\<rparr>
      else case parseEventsAll eventStr of
        Err e \<Rightarrow> s\<lparr>es_pc := SendErr (ErrWrap ''failed to parse events during polling'' e) None\<rparr>
      | Panic m \<Rightarrow> s\<lparr>es_pc := Crashed\<rparr>
      | Hang \<Rightarrow> s
      | Ok adjEvents \<Rightarrow>
          if adjEvents = [] then s\<lparr>es_pc := Polling\<rparr> else s\<lparr>es_pc := SendEvents adjEvents\<rparr>)"

definition poll_query :: "'w icAgent \<Rightarrow> 'w AdjEventSub \<Rightarrow> 'w AdjEventSub" where
  "poll_query a s = (case Sub_QueryEvents a s of
     ((eventStr, Some e), n) \<Rightarrow> s\<lparr>es_net := n, es_pc := SendErr e (Some eventStr)\<rparr>
   | ((eventStr, None), n) \<Rightarrow> after_query eventStr (s\<lparr>es_net := n\<rparr>))"

text \<open>
  The three cases of the \<open>select\<close> (the goroutine also receives from its own channel), and the
  sends, which wait while the buffer is full: \<open>panicErr\<close> holds one error.
\<close>

inductive run_step :: "'w icAgent \<Rightarrow> 'w AdjEventSub \<Rightarrow> 'w AdjEventSub \<Rightarrow> bool" for a where
  ctx_done: "es_pc s = Polling \<Longrightarrow> es_ctxDone s \<Longrightarrow> run_step a s (finish None s)"
| self_receive: "es_pc s = Polling \<Longrightarrow> es_events s = e # es \<Longrightarrow>
    run_step a s (finish None (s\<lparr>es_events := es\<rparr>))"
| timer: "es_pc s = Polling \<Longrightarrow> run_step a s (poll_query a s)"
| send_err: "es_pc s = SendErr e (Some str) \<Longrightarrow> es_panicErr s = [] \<Longrightarrow>
    run_step a s (after_query str (s\<lparr>es_panicErr := [e]\<rparr>))"
| send_parse_err: "es_pc s = SendErr e None \<Longrightarrow> es_panicErr s = [] \<Longrightarrow>
    run_step a s (s\<lparr>es_panicErr := [e], es_pc := Polling\<rparr>)"
| send_event: "es_pc s = SendEvents (e # es) \<Longrightarrow> \<not> es_closed s \<Longrightarrow>
    length (es_events s) < DefaultBufferSize \<Longrightarrow>
    run_step a s (s\<lparr>es_events := es_events s @ [e], es_pc := SendEvents es\<rparr>)"
| send_closed: "es_pc s = SendEvents (e # es) \<Longrightarrow> es_closed s \<Longrightarrow> run_step a s (s\<lparr>es_pc := Crashed\<rparr>)"
| sent_all: "es_pc s = SendEvents [] \<Longrightarrow> run_step a s (s\<lparr>es_pc := Returned\<rparr>)"

section \<open>The reader and the rest of the world\<close>

text \<open>
  What \<open>select\<close> in a reader can pick: an event (\<open>None\<close> from the closed channel), the end of the
  context, an error of the subscription, or the default case. These are also the inputs of the
  adjudicator's waiting loops.
\<close>

datatype sel = SelEvent "adj_event option" | SelCtx err | SelPanic err | SelDefault

text \<open>
  One step of reader or surroundings with the input it gives: receiving from a channel, the
  context ending, \<open>Close\<close>.
\<close>

inductive env_step :: "'w AdjEventSub \<Rightarrow> sel option \<Rightarrow> 'w AdjEventSub \<Rightarrow> bool" where
  recv: "es_events s = e # es \<Longrightarrow> env_step s (Some (SelEvent (Some e))) (s\<lparr>es_events := es\<rparr>)"
| recv_closed: "es_events s = [] \<Longrightarrow> es_closed s \<Longrightarrow> env_step s (Some (SelEvent None)) s"
| recv_ctx: "es_ctxDone s \<Longrightarrow> env_step s (Some (SelCtx e)) s"
| recv_err: "es_panicErr s = e # es \<Longrightarrow> env_step s (Some (SelPanic e)) (s\<lparr>es_panicErr := es\<rparr>)"
| idle: "env_step s (Some SelDefault) s"
| cancel: "env_step s None (s\<lparr>es_ctxDone := True\<rparr>)"
| close: "env_step s None (s\<lparr>es_closer := True\<rparr>)"
| other_net: "env_step s None (s\<lparr>es_net := n\<rparr>)"

text \<open>Executions, with the inputs the reader has seen.\<close>

inductive execution :: "'w icAgent \<Rightarrow> 'w AdjEventSub \<Rightarrow> sel list \<Rightarrow> 'w AdjEventSub \<Rightarrow> bool" for a s where
  start: "execution a s [] s"
| run: "execution a s xs t \<Longrightarrow> run_step a t u \<Longrightarrow> execution a s xs u"
| seen: "execution a s xs t \<Longrightarrow> env_step t (Some x) u \<Longrightarrow> execution a s (xs @ [x]) u"
| unseen: "execution a s xs t \<Longrightarrow> env_step t None u \<Longrightarrow> execution a s xs u"

section \<open>\<open>Next\<close> and \<open>Close\<close>\<close>

text \<open>The events handed to go-perun: version, channel and timeout.\<close>

datatype perun_event =
    RegisteredEvent u64 bytes timeout
  | ConcludedEvent u64 bytes timeout

definition Close :: "'w AdjEventSub \<Rightarrow> 'w AdjEventSub" where
  "Close s = s\<lparr>es_closer := True\<rparr>"

text \<open>
  \<open>Next\<close> in one step, at the moment its \<open>select\<close> can go on (\<open>Hang\<close>: it cannot yet). \<open>now\<close> is the
  clock.
\<close>

definition Next :: "'w AdjEventSub \<Rightarrow> time \<Rightarrow> perun_event option res \<times> 'w AdjEventSub" where
  "Next s now =
     (if es_closer s then (Ok None, s)
      else if \<not> es_chan s then (Ok None, s)
      else case es_events s of
        event # es \<Rightarrow>
          (let s' = s\<lparr>es_events := es\<rparr>; timestamp = AdjEvent_Tstamp event
           in case event of
                Disputed d \<Rightarrow> (Ok (Some (RegisteredEvent (AdjEvent_Version event) (AdjEvent_ID event)
                                 (MakeTimeout timestamp now))), Close s')
              | Concluded d \<Rightarrow> (Ok (Some (ConcludedEvent (AdjEvent_Version event) (AdjEvent_ID event)
                                 (MakeTimeout timestamp now))), Close s'))
      | [] \<Rightarrow> if es_closed s then (Ok None, s) else (Hang, s))"

section \<open>Invariant\<close>

definition delivered :: "sel list \<Rightarrow> adj_event list" where
  "delivered xs = concat (map (\<lambda>x. case x of SelEvent (Some e) \<Rightarrow> [e] | _ \<Rightarrow> []) xs)"

lemma delivered_simps [simp]:
  "delivered [] = []"
  "delivered (xs @ [SelEvent (Some e)]) = delivered xs @ [e]"
  "delivered (xs @ [SelEvent None]) = delivered xs"
  "delivered (xs @ [SelCtx r]) = delivered xs"
  "delivered (xs @ [SelPanic r]) = delivered xs"
  "delivered (xs @ [SelDefault]) = delivered xs"
  by (simp_all add: delivered_def)

text \<open>A text that the canister gives for a query, in some state of the outer world.\<close>

definition answered :: "'w icAgent \<Rightarrow> ChannelTime \<Rightarrow> string \<Rightarrow> bool" where
  "answered a q str \<longleftrightarrow> (\<exists>n e n'. QueryEvents a q n = ((str, e), n'))"

text \<open>
  What the reader has received, what is in the buffer and what is still to be sent make up one
  result of the parser, for one answer of the canister to the subscription's own query; before
  that batch nothing is in the channel.
\<close>

definition sub_inv :: "'w icAgent \<Rightarrow> ChannelTime \<Rightarrow> sel list \<Rightarrow> 'w AdjEventSub \<Rightarrow> bool" where
  "sub_inv a q xs s \<longleftrightarrow> es_queryArgs s = q \<and> length (es_panicErr s) \<le> 1 \<and>
     (case es_pc s of
        SendEvents evs \<Rightarrow> \<not> es_closed s \<and>
          (\<exists>str. answered a q str \<and> parseEventsAll str = Ok (delivered xs @ es_events s @ evs))
      | Returned \<Rightarrow> delivered xs = [] \<and> es_events s = [] \<or>
          (\<exists>str. answered a q str \<and> parseEventsAll str = Ok (delivered xs @ es_events s))
      | SendErr e so \<Rightarrow> delivered xs = [] \<and> es_events s = [] \<and> \<not> es_closed s \<and>
          (\<forall>str. so = Some str \<longrightarrow> answered a q str)
      | _ \<Rightarrow> delivered xs = [] \<and> es_events s = [] \<and> \<not> es_closed s)"

inductive_cases run_stepE: "run_step a s t"
inductive_cases env_stepE: "env_step s x t"

lemma sub_inv_new:
  "sub_inv a \<lparr>ct_channel = cid, ct_time = t\<rparr> [] (NewAdjudicatorSub cid t n)"
  by (simp add: sub_inv_def NewAdjudicatorSub_def)

lemma after_query_inv:
  "delivered xs = [] \<Longrightarrow> es_events s = [] \<Longrightarrow> \<not> es_closed s \<Longrightarrow> length (es_panicErr s) \<le> 1 \<Longrightarrow>
     parseEventsAll str \<noteq> Hang \<Longrightarrow> es_queryArgs s = q \<Longrightarrow> answered a q str \<Longrightarrow> sub_inv a q xs (after_query str s)"
  by (auto simp: sub_inv_def after_query_def split: res.split)

lemma no_hang_adj: "parseEventsAll str \<noteq> Hang"
proof -
  have u: "parse_uint_loop k t \<noteq> Hang" for k t
    by (induction k t rule: parse_uint_loop.induct) auto
  have h: "hex_decode t \<noteq> Hang" for t
    by (induction t rule: hex_decode.induct) (auto simp: res_bind_eq_Hang)
  have g: "go_nth ms i \<noteq> Hang" for ms :: "'x list" and i by (simp add: go_nth_def)
  have m: "max_version_loop ms i h idx \<noteq> Hang" for ms i h idx
    by (induction ms i h idx rule: max_version_loop.induct)
      (auto simp: res_bind_eq_Hang g split: res.splits)
  have "parseAdjEvents str e ps \<noteq> Hang" for e ps
    by (auto simp: parseAdjEvents_def res_bind_eq_Hang g capture_def parseChannelID_def h u parse_uint_def
        parse_bool_def parseAllocations_def findMaxVersionIndex_def m SetEventData_def
        split: option.splits if_splits)
  then show ?thesis
    by (auto simp: parseEventsAll_def parseEventsConcluded_def parseEventsDisputed_def res_bind_eq_Hang
        split: if_splits)
qed

lemma run_step_inv: "run_step a s t \<Longrightarrow> sub_inv a q xs s \<Longrightarrow> sub_inv a q xs t"
proof (induction rule: run_step.induct)
  case (timer s)
  then have s: "delivered xs = []" "es_events s = []" "\<not> es_closed s" "length (es_panicErr s) \<le> 1"
    "es_queryArgs s = q"
    by (simp_all add: sub_inv_def)
  obtain str e n where Q: "Sub_QueryEvents a s = ((str, e), n)" by (metis surj_pair)
  then have "answered a q str" using s(5) by (auto simp: answered_def Sub_QueryEvents_def)
  with s Q show ?case
    using no_hang_adj
    by (cases e) (auto simp: poll_query_def sub_inv_def [of a q xs "s\<lparr>es_net := _, es_pc := _\<rparr>"]
        intro!: after_query_inv)
next
  case (send_err s e str)
  then show ?case using no_hang_adj
    by (intro after_query_inv) (auto simp: sub_inv_def)
qed (auto simp: sub_inv_def finish_def)

lemma env_step_inv: "env_step s (Some x) t \<Longrightarrow> sub_inv a q xs s \<Longrightarrow> sub_inv a q (xs @ [x]) t"
  by (erule env_stepE) (auto simp: sub_inv_def split: pc.splits)

lemma env_step_inv_unseen: "env_step s None t \<Longrightarrow> sub_inv a q xs s \<Longrightarrow> sub_inv a q xs t"
  by (erule env_stepE) (auto simp: sub_inv_def split: pc.splits)

lemma execution_inv: "execution a s xs t \<Longrightarrow> sub_inv a q [] s \<Longrightarrow> sub_inv a q xs t"
  by (induction rule: execution.induct)
    (auto intro: run_step_inv env_step_inv env_step_inv_unseen)

text \<open>All that is ever received is in one parsed answer.\<close>

lemma received_batch:
  assumes "sub_inv a q xs s" and "delivered xs @ es_events s \<noteq> []"
  shows "\<exists>str rest. answered a q str \<and> parseEventsAll str = Ok (delivered xs @ es_events s @ rest)"
  using assms by (auto simp: sub_inv_def split: pc.splits)

lemma batch_length: "parseEventsAll str = Ok evs \<Longrightarrow> length evs \<le> 2"
proof -
  assume a: "parseEventsAll str = Ok evs"
  then obtain c d where cd: "parseEventsConcluded str = Ok c" "parseEventsDisputed str = Ok d"
      "evs = map Concluded (alias_loop c) @ map Disputed (alias_loop d)"
    by (auto simp: parseEventsAll_def)
  then show ?thesis using parse_at_most_one [of str] alias_loop_single [of c] alias_loop_single [of d] by simp
qed

section \<open>Properties\<close>

text \<open>
  Property C11 (one_batch_only): whatever the interleaving of goroutine, reader and surroundings,
  all the events a subscription ever delivers come from one answer of the canister, in order, at
  most two; later answers are never looked at.
\<close>

theorem one_batch_only:
  assumes "execution a (NewAdjudicatorSub cid t n) xs s"
  shows "length (delivered xs @ es_events s) \<le> 2 \<and>
    (delivered xs @ es_events s = [] \<or>
      (\<exists>str rest. answered a \<lparr>ct_channel = cid, ct_time = t\<rparr> str \<and>
         parseEventsAll str = Ok (delivered xs @ es_events s @ rest)))"
proof -
  have "sub_inv a \<lparr>ct_channel = cid, ct_time = t\<rparr> xs s" using execution_inv [OF assms sub_inv_new] .
  then have "delivered xs @ es_events s = [] \<or>
      (\<exists>str rest. answered a \<lparr>ct_channel = cid, ct_time = t\<rparr> str \<and>
         parseEventsAll str = Ok (delivered xs @ es_events s @ rest))"
    using received_batch by blast
  then show ?thesis using batch_length by fastforce
qed

text \<open>
  Property C12 (channel_safety): the goroutine never sends on a closed channel and never blocks on
  sending an event, its buffer always has room; it never receives the events it sent itself; and
  what it does after returning is nothing.
\<close>

theorem channel_safety:
  assumes "execution a (NewAdjudicatorSub cid t n) xs s"
  shows "\<not> (\<exists>e es. es_pc s = SendEvents (e # es) \<and>
      (es_closed s \<or> DefaultBufferSize \<le> length (es_events s))) \<and>
    \<not> (es_pc s = Polling \<and> (es_events s \<noteq> [] \<or> es_closed s)) \<and>
    \<not> (\<exists>u. es_pc s = Returned \<and> run_step a s u)"
proof -
  have inv: "sub_inv a \<lparr>ct_channel = cid, ct_time = t\<rparr> xs s" using execution_inv [OF assms sub_inv_new] .
  have "length (es_events s) < 2" if "es_pc s = SendEvents (e # es)" for e es
    using inv that batch_length by (fastforce simp: sub_inv_def)
  then show ?thesis using inv
    by (auto simp: sub_inv_def DefaultBufferSize_def elim!: run_stepE)
qed

text \<open>No step is possible, whether the context is done or not.\<close>

definition stuck :: "'w icAgent \<Rightarrow> 'w AdjEventSub \<Rightarrow> bool" where
  "stuck a s \<longleftrightarrow> (\<forall>b t. \<not> run_step a (s\<lparr>es_ctxDone := b\<rparr>) t)"


definition failing_agent :: "unit icAgent" where
  "failing_agent = \<lparr>ag_marshal = (\<lambda>c. Inr []), ag_call = (\<lambda>mode p m args w. (Inl (ErrExt ''offline''), w)),
     ag_canister = []\<rparr>"


text \<open>
  Property (next_at_most_once): \<open>Next\<close> closes the subscription when it hands out an event, so
  it hands out at most one: every later call returns nil, even with an event in the buffer.
\<close>

theorem next_at_most_once:
  "case Next s now of
     (Ok (Some ev), s') \<Rightarrow> Next s' later = (Ok None, s') \<and> es_events s' = tl (es_events s)
   | _ \<Rightarrow> True"
  by (auto simp: Next_def Close_def Let_def split: list.split adj_event.split)

text \<open>
  Property (close_does_not_stop): \<open>Close\<close> is seen by \<open>Next\<close> only: the goroutine takes the same
  steps after it as before, so it goes on polling.
\<close>

theorem close_does_not_stop:
  assumes "run_step a s t"
  shows "run_step a (Close s) (Close t) \<and> Next (Close s) now = (Ok None, Close s)"
proof -
  have q: "after_query str (s\<lparr>es_closer := True\<rparr>) = (after_query str s)\<lparr>es_closer := True\<rparr>" for str and s :: "'a AdjEventSub"
    by (simp add: after_query_def split: res.split)
  have q1: "after_query str (s\<lparr>es_closer := True, es_panicErr := x\<rparr>) = (after_query str (s\<lparr>es_panicErr := x\<rparr>))\<lparr>es_closer := True\<rparr>"
    for str x and s :: "'a AdjEventSub"
  proof -
    have "s\<lparr>es_closer := True, es_panicErr := x\<rparr> = s\<lparr>es_panicErr := x, es_closer := True\<rparr>" by simp
    then show ?thesis using q [of str "s\<lparr>es_panicErr := x\<rparr>"] by (simp only:)
  qed
  have q2: "after_query str (s\<lparr>es_closer := True, es_net := x\<rparr>) = (after_query str (s\<lparr>es_net := x\<rparr>))\<lparr>es_closer := True\<rparr>"
    for str x and s :: "'a AdjEventSub"
  proof -
    have "s\<lparr>es_closer := True, es_net := x\<rparr> = s\<lparr>es_net := x, es_closer := True\<rparr>" by simp
    then show ?thesis using q [of str "s\<lparr>es_net := x\<rparr>"] by (simp only:)
  qed
  have p: "poll_query a (Close s) = Close (poll_query a s)" for s
    by (auto simp: poll_query_def Sub_QueryEvents_def Close_def q2 split: prod.split option.split)
  from assms have "run_step a (Close s) (Close t)"
  proof (induction rule: run_step.induct)
    case (timer s)
    then show ?case unfolding p [symmetric] by (intro run_step.timer) (simp add: Close_def)
  next
    case (send_err s e str)
    then show ?case
      using run_step.send_err [of "Close s" e str a] by (simp add: Close_def q1)
  next
    case (self_receive s e es)
    have eq: "Close (finish None (s\<lparr>es_events := es\<rparr>)) = finish None ((Close s)\<lparr>es_events := es\<rparr>)"
      by (simp add: Close_def finish_def)
    show ?case unfolding eq
      by (rule run_step.self_receive) (use self_receive in \<open>simp_all add: Close_def\<close>)
  next
    case (ctx_done s)
    have eq: "Close (finish None s) = finish None (Close s)" by (simp add: Close_def finish_def)
    show ?case unfolding eq
      by (rule run_step.ctx_done) (use ctx_done in \<open>simp_all add: Close_def\<close>)
  next
    case (send_parse_err s e)
    have eq: "Close (s\<lparr>es_panicErr := [e], es_pc := Polling\<rparr>) = (Close s)\<lparr>es_panicErr := [e], es_pc := Polling\<rparr>"
      by (simp add: Close_def)
    show ?case unfolding eq
      by (rule run_step.send_parse_err) (use send_parse_err in \<open>simp_all add: Close_def\<close>)
  next
    case (send_event s e es)
    have eq: "Close (s\<lparr>es_events := es_events s @ [e], es_pc := SendEvents es\<rparr>) =
        (Close s)\<lparr>es_events := es_events (Close s) @ [e], es_pc := SendEvents es\<rparr>"
      by (simp add: Close_def)
    show ?case unfolding eq
      by (rule run_step.send_event) (use send_event in \<open>simp_all add: Close_def\<close>)
  next
    case (send_closed s e es)
    have eq: "Close (s\<lparr>es_pc := Crashed\<rparr>) = (Close s)\<lparr>es_pc := Crashed\<rparr>" by (simp add: Close_def)
    show ?case unfolding eq
      by (rule run_step.send_closed) (use send_closed in \<open>simp_all add: Close_def\<close>)
  next
    case (sent_all s)
    have eq: "Close (s\<lparr>es_pc := Returned\<rparr>) = (Close s)\<lparr>es_pc := Returned\<rparr>" by (simp add: Close_def)
    show ?case unfolding eq
      by (rule run_step.sent_all) (use sent_all in \<open>simp_all add: Close_def\<close>)
  qed
  then show ?thesis by (simp add: Next_def Close_def)
qed

section \<open>A run on a concrete log\<close>

definition demo_batch :: "log_entry list" where
  "demo_batch = [demo_entry True 5 (''1'', [''000'']), demo_entry False 3 (''1'', [''000''])]"

lemma demo_batch_parse:
  "parseEventsAll (render '', '' demo_batch) =
     Ok [Concluded (entry_event (demo_entry True 5 (''1'', [''000'']))),
         Disputed (entry_event (demo_entry False 3 (''1'', [''000''])))]"
proof -
  let ?g = "(''1'', [''000''])"
  have k: "of_kind True demo_batch = [demo_entry True 5 ?g]" "of_kind False demo_batch = [demo_entry False 3 ?g]"
    by (simp_all add: demo_batch_def of_kind_def demo_entry_def)
  have e: "wf_entry (demo_entry c v ?g)" "two_grouped (demo_entry c v ?g)" "fits (demo_entry c v ?g)" for c v
    using demo_entry_wf [of c v] by blast+
  have w1: "list_all wf_entry demo_batch" by (simp add: demo_batch_def e)
  have w2: "list_all two_grouped (of_kind c demo_batch)" "list_all fits (of_kind c demo_batch)" for c
    by (cases c; simp add: k e)+
  have "newest [e] = e" for e by (simp add: newest_def first_max_def)
  moreover have "copy_into 32 (en_cid (demo_entry c v ?g)) \<noteq> zeroCID" for c v
    by (simp add: demo_entry_def zeroCID_def)
  ultimately have r: "log_result [demo_entry c v ?g] = Ok [entry_event (demo_entry c v ?g)]" for c v
    by (simp add: log_result_def)
  have "parseEventsConcluded (render '', '' demo_batch) = Ok [entry_event (demo_entry True 5 ?g)]"
    "parseEventsDisputed (render '', '' demo_batch) = Ok [entry_event (demo_entry False 3 ?g)]"
    unfolding concluded_kind disputed_kind parse_result_kind [OF demo_sep w1 w2] k r by (rule refl)+
  then show ?thesis
    unfolding parseEventsAll_def by (simp only: res_bind.simps) (simp add: alias_loop_def)
qed

definition batch_agent :: "unit icAgent" where
  "batch_agent = failing_agent\<lparr>ag_call := (\<lambda>mode p m args w. (Inr (RText (render '', '' demo_batch)), w))\<rparr>"

text \<open>The goroutine polls once and sends the first event of the batch, which the reader takes.\<close>

lemma demo_execution:
  "\<exists>s e. execution batch_agent (NewAdjudicatorSub [1] 5 ()) [SelEvent (Some (Concluded e))] s \<and>
     ev_version e = 5 \<and> (\<exists>t. run_step batch_agent s t)"
proof -
  let ?s = "NewAdjudicatorSub [1] 5 ()"
  obtain e d where evs: "parseEventsAll (render '', '' demo_batch) = Ok [Concluded e, Disputed d]" and v: "ev_version e = 5"
    using demo_batch_parse by (simp add: entry_event_def demo_entry_def)
  let ?s1 = "?s\<lparr>es_pc := SendEvents [Concluded e, Disputed d]\<rparr>"
  let ?s2 = "?s\<lparr>es_events := [Concluded e], es_pc := SendEvents [Disputed d]\<rparr>"
  let ?s3 = "?s\<lparr>es_pc := SendEvents [Disputed d]\<rparr>"
  have ne: "render '', '' demo_batch \<noteq> ''''"
    by (simp add: render_def segments_def demo_batch_def AdjEvents.fields_def seg_text_def lit_def kind_name_def)
  have "poll_query batch_agent ?s = ?s1"
    using evs ne by (simp add: poll_query_def Sub_QueryEvents_def QueryEvents_def batch_agent_def failing_agent_def
        after_query_def NewAdjudicatorSub_def)
  moreover have "es_pc ?s = Polling" by (simp add: NewAdjudicatorSub_def)
  ultimately have "run_step batch_agent ?s ?s1" using run_step.timer [of ?s batch_agent] by simp
  moreover have "run_step batch_agent ?s1 ?s2"
    using run_step.send_event [of ?s1 "Concluded e" "[Disputed d]" batch_agent]
    by (simp add: NewAdjudicatorSub_def DefaultBufferSize_def)
  moreover have "env_step ?s2 (Some (SelEvent (Some (Concluded e)))) ?s3"
    using env_step.recv [of ?s2 "Concluded e" "[]"] by (simp add: NewAdjudicatorSub_def)
  ultimately have "execution batch_agent ?s ([] @ [SelEvent (Some (Concluded e))]) ?s3"
    by (meson execution.run execution.seen execution.start)
  moreover have "run_step batch_agent ?s3 (?s3\<lparr>es_events := es_events ?s3 @ [Disputed d], es_pc := SendEvents []\<rparr>)"
    by (rule run_step.send_event) (simp_all add: NewAdjudicatorSub_def DefaultBufferSize_def)
  ultimately show ?thesis using v by auto
qed

theorem one_batch_only_witness:
  "\<exists>xs s. length (delivered xs @ es_events s) \<le> 2 \<and> delivered xs \<noteq> [] \<and>
     execution batch_agent (NewAdjudicatorSub [1] 5 ()) xs s"
proof -
  obtain s e where ex: "execution batch_agent (NewAdjudicatorSub [1] 5 ()) [SelEvent (Some (Concluded e))] s"
    using demo_execution by blast
  then show ?thesis using one_batch_only [OF ex]
    by (intro exI [of _ "[SelEvent (Some (Concluded e))]"] exI [of _ s]) (simp add: delivered_def)
qed

theorem channel_safety_witness:
  "\<exists>xs s. execution batch_agent (NewAdjudicatorSub [1] 5 ()) xs s \<and> xs \<noteq> [] \<and>
     \<not> (es_pc s = Polling \<and> es_closed s)"
proof -
  obtain s e where ex: "execution batch_agent (NewAdjudicatorSub [1] 5 ()) [SelEvent (Some (Concluded e))] s"
    using demo_execution by blast
  then show ?thesis using channel_safety [OF ex] by blast
qed

theorem close_does_not_stop_witness:
  "\<exists>s t. run_step batch_agent (Close s) (Close t)"
proof -
  obtain s t where "run_step batch_agent s t" using demo_execution by blast
  from close_does_not_stop [OF this] show ?thesis by blast
qed

end
