(* ===== verification/Adjudicator.thy ===== *)
theory Adjudicator
  imports Subscription Funder
begin

text \<open>
  The adjudicator, \<open>channel/adjudicator.go\<close>: registering (disputing) and concluding a channel, and
  withdrawing from it. The state is the network and the subscriptions opened so far, each with
  whether it has been closed. What time and the subscription's goroutine contribute to a wait is
  an input: a schedule of timer ticks for \<open>Timeout.Wait\<close>, a schedule of \<open>select\<close> results for the
  loops over a subscription, and what the network is when such a loop ends. No operation waits
  twice in the same way, so one schedule of each kind is enough.
\<close>

section \<open>Data\<close>

text \<open>go-perun's \<open>AdjudicatorReq\<close>: parameters, and the transaction (state and signatures).\<close>

record ('a, 'd) AdjReq =
  ar_params :: "'a pParams"
  ar_state :: "'d pState"
  ar_sigs :: "bytes list"

record 'w Adjudicator =
  adj_acc :: bytes
  adj_conn :: "'w Connector"
  adj_pollInterval :: duration
  adj_maxIters :: nat

record 'w aworld =
  aw_net :: 'w
  aw_subs :: "bool list"

text \<open>
  The surroundings: go-perun's \<open>channel.Verify\<close>, the curve library, the clock in nanoseconds, the
  schedules, and the effect of the polling goroutine on the network during a wait.
\<close>

record ('w, 'd) aenv =
  ae_verify :: "paddr \<Rightarrow> 'd pState \<Rightarrow> bytes \<Rightarrow> bool res"
  ae_ed :: ed25519
  ae_clock :: "'w \<Rightarrow> time"
  ae_ticks :: "tick list"
  ae_sels :: "sel list"
  ae_polled :: "'w \<Rightarrow> 'w"

definition ResponseErrorConcludingChannel :: string where
  "ResponseErrorConcludingChannel = ''error concluding the channel''"

definition WithdrawalSuccessResponse :: string where
  "WithdrawalSuccessResponse = ''successful withdrawal''"

definition DisputeSuccess :: string where
  "DisputeSuccess = ''successful initialization of a dispute''"

definition WrapError :: "err \<Rightarrow> string \<Rightarrow> err" where
  "WrapError e msg = ErrNew (msg @ '': '' @ err_text e)"

definition NewAdjudicator :: "bytes \<Rightarrow> 'w Connector \<Rightarrow> 'w Adjudicator" where
  "NewAdjudicator acc c = \<lparr>adj_acc = acc, adj_conn = c, adj_pollInterval = DefaultPollInterval,
     adj_maxIters = DefaultMaxIters\<rparr>"

definition Adjudicator_GetAcc :: "'w Adjudicator \<Rightarrow> bytes" where
  "Adjudicator_GetAcc a = adj_acc a"

text \<open>\<open>time.Now().Unix()\<close>, as an unsigned number\<close>

definition unix :: "('w, 'd) aenv \<Rightarrow> 'w \<Rightarrow> u64" where
  "unix env n = of_int (ae_clock env n div 1000000000)"

section \<open>Subscriptions\<close>

definition Subscribe :: "('w, 'd) aenv \<Rightarrow> 'w \<Rightarrow> bytes \<Rightarrow> 'w AdjEventSub" where
  "Subscribe env n cid = NewAdjudicatorSub cid (unix env n) n"

text \<open>A new subscription gets the next number; \<open>Close\<close> may be called again.\<close>

definition open_sub :: "'w aworld \<Rightarrow> nat \<times> 'w aworld" where
  "open_sub w = (length (aw_subs w), w\<lparr>aw_subs := aw_subs w @ [False]\<rparr>)"

definition close_sub :: "nat \<Rightarrow> 'w aworld \<Rightarrow> 'w aworld" where
  "close_sub i w = w\<lparr>aw_subs := (aw_subs w)[i := True]\<rparr>"

section \<open>Waiting loops\<close>

fun disputed_loop :: "u64 \<Rightarrow> sel list \<Rightarrow> unit res" where
  "disputed_loop version [] = Hang"
| "disputed_loop version (SelEvent (Some (Disputed d)) # xs) =
     (if ev_version d < version then disputed_loop version xs else Ok ())"
| "disputed_loop version (SelEvent (Some (Concluded d)) # xs) = disputed_loop version xs"
| "disputed_loop version (SelEvent None # xs) = disputed_loop version xs"
| "disputed_loop version (SelCtx e # xs) = Err e"
| "disputed_loop version (SelPanic e # xs) = Err e"
| "disputed_loop version (SelDefault # xs) = disputed_loop version xs"

fun concluded_loop :: "sel list \<Rightarrow> unit res" where
  "concluded_loop [] = Hang"
| "concluded_loop (SelEvent (Some (Concluded d)) # xs) = Ok ()"
| "concluded_loop (SelEvent (Some (Disputed d)) # xs) = concluded_loop xs"
| "concluded_loop (SelEvent None # xs) = concluded_loop xs"
| "concluded_loop (SelCtx e # xs) = Err e"
| "concluded_loop (SelPanic e # xs) = Err e"
| "concluded_loop (SelDefault # xs) = concluded_loop xs"

text \<open>The loops close the subscription when they accept an event.\<close>

definition waitForDisputed ::
  "('w, 'd) aenv \<Rightarrow> nat \<Rightarrow> u64 \<Rightarrow> 'w aworld \<Rightarrow> unit res \<times> 'w aworld" where
  "waitForDisputed env evsub version w =
     (let w' = w\<lparr>aw_net := ae_polled env (aw_net w)\<rparr>; r = disputed_loop version (ae_sels env)
      in (r, if r = Ok () then close_sub evsub w' else w'))"

definition waitForConcluded ::
  "('w, 'd) aenv \<Rightarrow> nat \<Rightarrow> 'w aworld \<Rightarrow> unit res \<times> 'w aworld" where
  "waitForConcluded env evsub w =
     (let w' = w\<lparr>aw_net := ae_polled env (aw_net w)\<rparr>; r = concluded_loop (ae_sels env)
      in (r, if r = Ok () then close_sub evsub w' else w'))"

section \<open>Requests\<close>

fun MakeParts :: "paddr list \<Rightarrow> bytes list res" where
  "MakeParts [] = Ok []"
| "MakeParts (part # addrs) =
     (case MarshalBinary part of
        Err e \<Rightarrow> Err (ErrWrap ''failed to marshal address'' e)
      | r \<Rightarrow> res_bind r (\<lambda>partMb. res_bind (MakeParts addrs) (\<lambda>parts. Ok (partMb # parts))))"

text \<open>The adjudicator's own \<open>MakeAlloc\<close>, without the checks of the connector's.\<close>

definition adj_MakeAlloc :: "int list list \<Rightarrow> amount list res" where
  "adj_MakeAlloc bals = res_bind (go_nth bals 0) (\<lambda>row. Ok (map NewBigNat row))"

definition MakeAdjReq :: "('a, 'd) AdjReq \<Rightarrow> AdjRequest res" where
  "MakeAdjReq req =
     (let cid = pp_id (ar_params req)
      in case MakeParts (pp_parts (ar_params req)) of
           Err e \<Rightarrow> Err (ErrWrap ''failed to make parts'' e)
         | Panic m \<Rightarrow> Panic m
         | Hang \<Rightarrow> Hang
         | Ok parts \<Rightarrow> (case MakeNonce (pp_nonce (ar_params req)) of
             Err e \<Rightarrow> Err (ErrWrap ''failed to make nonce'' e)
           | Panic m \<Rightarrow> Panic m
           | Hang \<Rightarrow> Hang
           | Ok nonce \<Rightarrow>
               res_bind (adj_MakeAlloc (al_balances (ps_alloc (ar_state req)))) (\<lambda>alloc.
               Ok \<lparr>aq_nonce = nonce, aq_participants = parts,
                   aq_challenge = pp_challenge (ar_params req), aq_channel = cid,
                   aq_version = ps_version (ar_state req), aq_allocation = alloc,
                   aq_finalized = ps_final (ar_state req), aq_sigs = ar_sigs req\<rparr>)))"

text \<open>The loop over the participants; \<open>i\<close> is the index, which the messages print.\<close>

fun check_sigs ::
  "(paddr \<Rightarrow> 'd pState \<Rightarrow> bytes \<Rightarrow> bool res) \<Rightarrow> 'd pState \<Rightarrow> nat \<Rightarrow> paddr list \<Rightarrow> bytes list \<Rightarrow> unit res" where
  "check_sigs verify s i [] sigs = Ok ()"
| "check_sigs verify s i (p # ps) sigs =
     res_bind (go_nth sigs (int i)) (\<lambda>sig.
     case verify p s sig of
       Err e \<Rightarrow> Err (ErrWrap (''verifying signature['' @ dec i @ '']'') e)
     | Panic m \<Rightarrow> Panic m
     | Hang \<Rightarrow> Hang
     | Ok ok \<Rightarrow> if ok then check_sigs verify s (i + 1) ps sigs
                else Err (ErrNew (''invalid signature['' @ dec i @ '']'')))"

definition fullySignedTx ::
  "(paddr \<Rightarrow> 'd pState \<Rightarrow> bytes \<Rightarrow> bool res) \<Rightarrow> 'd pState \<Rightarrow> bytes list \<Rightarrow> paddr list \<Rightarrow> unit res" where
  "fullySignedTx verify s sigs parts =
     (if length sigs \<noteq> length parts then Err (ErrNew ''wrong number of signatures'')
      else check_sigs verify s 0 parts sigs)"

definition checkRegister :: "('a, 'd) AdjReq \<Rightarrow> nat \<Rightarrow> unit res" where
  "checkRegister req nstates =
     (if ps_final (ar_state req)
      then Err (ErrWrap ''cannot dispute a final state'' ErrAdjudicatorReqIncompatible)
      else if nstates \<noteq> 0
      then Err (ErrWrap ''sub-channels unsupported'' ErrAdjudicatorReqIncompatible)
      else Ok ())"

section \<open>Concluding\<close>

text \<open>The loop over the parsed events.\<close>

fun match_event :: "EventData list \<Rightarrow> u64 \<Rightarrow> bytes \<Rightarrow> bool" where
  "match_event [] reqVersion cid = False"
| "match_event (ev # evs) reqVersion cid =
     (if ev_version ev = reqVersion \<and> ev_id ev = cid then True else match_event evs reqVersion cid)"

definition queryAndMatchEvents ::
  "'w icAgent \<Rightarrow> bytes \<Rightarrow> u64 \<Rightarrow> 'w \<Rightarrow> bool res \<times> 'w" where
  "queryAndMatchEvents ag cid reqVersion n =
     (case QueryEvents ag \<lparr>ct_channel = cid, ct_time = 0\<rparr> n of
        ((_, Some e), n') \<Rightarrow> (Err (ErrWrap ''failed to call query_events'' e), n')
      | ((evString, None), n') \<Rightarrow>
          (case ParseEventsConcluded evString of
             Err e \<Rightarrow> (Err (ErrWrap ''failed to parse event stream'' e), n')
           | Panic m \<Rightarrow> (Panic m, n')
           | Hang \<Rightarrow> (Hang, n')
           | Ok concEvs \<Rightarrow>
               if length concEvs = 0 then (Err ErrFailConclude, n')
               else (Ok (match_event concEvs reqVersion cid), n')))"

definition isConcluded ::
  "('w, 'd) aenv \<Rightarrow> 'w Adjudicator \<Rightarrow> bytes \<Rightarrow> ('a, 'd) AdjReq \<Rightarrow> 'w aworld \<Rightarrow> bool res \<times> 'w aworld" where
  "isConcluded env a cid req w =
     (let ag = con_agent (adj_conn a); (evSub, w0) = open_sub w
      in case MakeAdjReq req of
           Err e \<Rightarrow> (Err (ErrWrap ''failed to build AdjudicatorRequest'' e), w0)
         | Panic m \<Rightarrow> (Panic m, w0)
         | Hang \<Rightarrow> (Hang, w0)
         | Ok adjReq \<Rightarrow>
             (case Conclude ag adjReq (aw_net w0) of
                ((_, Some e), n) \<Rightarrow> (Err ErrFailConclude, w0\<lparr>aw_net := n\<rparr>)
              | ((concludeResp, None), n) \<Rightarrow>
                  let w1 = w0\<lparr>aw_net := n\<rparr>
                  in if concludeResp = ResponseErrorConcludingChannel
                     then (case queryAndMatchEvents ag cid (ps_version (ar_state req)) n of
                             (Ok True, n') \<Rightarrow> (Ok True, w1\<lparr>aw_net := n'\<rparr>)
                           | (Ok False, n') \<Rightarrow> (Err ErrFailConclude, w1\<lparr>aw_net := n'\<rparr>)
                           | (Err e, n') \<Rightarrow> (Err e, w1\<lparr>aw_net := n'\<rparr>)
                           | (Panic m, n') \<Rightarrow> (Panic m, w1\<lparr>aw_net := n'\<rparr>)
                           | (Hang, n') \<Rightarrow> (Hang, w1\<lparr>aw_net := n'\<rparr>))
                     else (case waitForConcluded env evSub w1 of
                             (Ok _, w2) \<Rightarrow> (Ok True, close_sub evSub w2)
                           | (Err e, w2) \<Rightarrow> (Err (ErrWrap ''failed to wait for conclude event'' e), w2)
                           | (Panic m, w2) \<Rightarrow> (Panic m, w2)
                           | (Hang, w2) \<Rightarrow> (Hang, w2))))"

text \<open>The closure in \<open>checkDisputes\<close>: wait for the timeout, then build the arguments.\<close>

definition conclude_args ::
  "('w, 'd) aenv \<Rightarrow> ('a, 'd) AdjReq \<Rightarrow> bytes \<Rightarrow> RegisteredState \<Rightarrow> 'w \<Rightarrow> AdjRequest res" where
  "conclude_args env req nonce qs n =
     (let timeoutDispState = rs_timeout qs; chTimeout = MakeTimeout timeoutDispState (ae_clock env n)
      in res_bind (Wait chTimeout (ae_ticks env)) (\<lambda>_.
         res_bind (MakeParts (pp_parts (ar_params req))) (\<lambda>parts.
         res_bind (adj_MakeAlloc (al_balances (ps_alloc (ar_state req)))) (\<lambda>alloc.
         Ok \<lparr>aq_nonce = nonce, aq_participants = parts,
             aq_challenge = pp_challenge (ar_params req), aq_channel = pp_id (ar_params req),
             aq_version = ps_version (ar_state req), aq_allocation = alloc,
             aq_finalized = ps_final (ar_state req), aq_sigs = ar_sigs req\<rparr>))))"

definition check_final_version :: "'w icAgent \<Rightarrow> ('a, 'd) AdjReq \<Rightarrow> bytes \<Rightarrow> 'w \<Rightarrow> unit res \<times> 'w" where
  "check_final_version ag req cid n = (case QueryState ag cid n of
     ((_, Some e), n') \<Rightarrow> (Err e, n')
   | ((None, None), n') \<Rightarrow> (Panic ''nil pointer dereference'', n')
   | ((Some qConcluded, None), n') \<Rightarrow>
       (if ps_version (ar_state req) \<noteq> cs_version (rs_state qConcluded)
        then (Err ErrConcludedDifferentVersion, n') else (Ok (), n')))"

definition checkDisputes ::
  "('w, 'd) aenv \<Rightarrow> 'w Adjudicator \<Rightarrow> ('a, 'd) AdjReq \<Rightarrow> bytes \<Rightarrow> 'w aworld \<Rightarrow> unit res \<times> 'w aworld" where
  "checkDisputes env a req nonce w =
     (let ag = con_agent (adj_conn a); cid = pp_id (ar_params req)
      in case QueryState ag cid (aw_net w) of
           ((_, Some e), n) \<Rightarrow> (Err (ErrWrap ''failed to query state'' e), w\<lparr>aw_net := n\<rparr>)
         | ((None, None), n) \<Rightarrow>
             (Err (ErrNew ''failed to fetch registered state (dispute) and channel is not concludable yet: %!w(<nil>)''),
              w\<lparr>aw_net := n\<rparr>)
         | ((Some qs, None), n) \<Rightarrow>
             if cs_version (rs_state qs) > ps_version (ar_state req)
             then (Err (ErrNew ''dispute version higher than the requested version''), w\<lparr>aw_net := n\<rparr>)
             else (case conclude_args env req nonce qs n of
               Err e \<Rightarrow> (Err (ErrWrap ''failed to wait for dispute timeout to finish'' e), w\<lparr>aw_net := n\<rparr>)
             | Panic m \<Rightarrow> (Panic m, w\<lparr>aw_net := n\<rparr>)
             | Hang \<Rightarrow> (Hang, w\<lparr>aw_net := n\<rparr>)
             | Ok concludeArgs \<Rightarrow>
                 (case Conclude ag concludeArgs n of
                    ((_, Some e), n2) \<Rightarrow> (Err ErrFailConclude, w\<lparr>aw_net := n2\<rparr>)
                  | ((_, None), n2) \<Rightarrow>
                      let (evSub, w2) = open_sub (w\<lparr>aw_net := n2\<rparr>)
                      in case waitForConcluded env evSub w2 of
                           (Err e, w3) \<Rightarrow> (Err (ErrWrap ''failed to wait for dispute event'' e), w3)
                         | (Panic m, w3) \<Rightarrow> (Panic m, w3)
                         | (Hang, w3) \<Rightarrow> (Hang, w3)
                         | (Ok _, w3) \<Rightarrow>
                             (case check_final_version ag req cid (aw_net w3) of
                                (r, n3) \<Rightarrow> (r, close_sub evSub (w3\<lparr>aw_net := n3\<rparr>))))))"

text \<open>
  \<open>signed\<close> is the second operand of \<open>&&\<close>, evaluated for a final state only; \<open>concludeFinal\<close> holds
  if it returned no error.
\<close>

definition ensureConcluded ::
  "('w, 'd) aenv \<Rightarrow> 'w Adjudicator \<Rightarrow> ('a, 'd) AdjReq \<Rightarrow> bytes \<Rightarrow> 'w aworld \<Rightarrow> bool res \<times> 'w aworld" where
  "ensureConcluded env a req cid w =
     (let signed = (if ps_final (ar_state req)
            then fullySignedTx (ae_verify env) (ar_state req) (ar_sigs req) (pp_parts (ar_params req))
            else Err (ErrNew ''''))
      in case signed of
           Panic m \<Rightarrow> (Panic m, w)
         | Hang \<Rightarrow> (Hang, w)
         | _ \<Rightarrow>
             (case MakeNonce (pp_nonce (ar_params req)) of
                Err e \<Rightarrow> (Err e, w)
              | Panic m \<Rightarrow> (Panic m, w)
              | Hang \<Rightarrow> (Hang, w)
              | Ok nonce \<Rightarrow>
                  if is_ok signed
                  then (case isConcluded env a cid req w of
                          (Ok chanConcluded, w1) \<Rightarrow> if chanConcluded then (Ok True, w1) else (Ok True, w1)
                        | r \<Rightarrow> r)
                  else (case checkDisputes env a req nonce w of
                          (Ok _, w1) \<Rightarrow> (Ok True, w1)
                        | (Err e, w1) \<Rightarrow> (Err e, w1)
                        | (Panic m, w1) \<Rightarrow> (Panic m, w1)
                        | (Hang, w1) \<Rightarrow> (Hang, w1))))"

section \<open>Disputing and registering\<close>

definition dispute ::
  "('w, 'd) aenv \<Rightarrow> 'w Adjudicator \<Rightarrow> ('a, 'd) AdjReq \<Rightarrow> bytes \<Rightarrow> 'w aworld \<Rightarrow> unit res \<times> 'w aworld" where
  "dispute env a req cid w = (case MakeAdjReq req of
     Err e \<Rightarrow> (Err (ErrWrap ''failed to make adjudicator arguments'' e), w)
   | Panic m \<Rightarrow> (Panic m, w)
   | Hang \<Rightarrow> (Hang, w)
   | Ok disputeArgs \<Rightarrow>
       (case Dispute (con_agent (adj_conn a)) disputeArgs (aw_net w) of
          ((disputeResp, err), n) \<Rightarrow>
            let w1 = w\<lparr>aw_net := n\<rparr>
            in if err \<noteq> None \<or> disputeResp \<noteq> DisputeSuccess then (Err ErrFailDispute, w1)
               else let (evSub, w2) = open_sub w1
                    in case waitForDisputed env evSub (ps_version (ar_state req)) w2 of
                         (Err e, w3) \<Rightarrow> (Err (ErrWrap ''failed to wait for dispute event'' e), close_sub evSub w3)
                       | (Hang, w3) \<Rightarrow> (Hang, w3)
                       | (r, w3) \<Rightarrow> (r, close_sub evSub w3)))"

definition Register ::
  "('w, 'd) aenv \<Rightarrow> 'w Adjudicator \<Rightarrow> ('a, 'd) AdjReq \<Rightarrow> nat \<Rightarrow> 'w aworld \<Rightarrow> unit res \<times> 'w aworld" where
  "Register env a req nstates w =
     (let cid = pp_id (ar_params req)
      in if ps_final (ar_state req)
         then (case ensureConcluded env a req cid w of
                 (Ok _, w1) \<Rightarrow> (Ok (), w1)
               | (Err e, w1) \<Rightarrow> (Err e, w1)
               | (Panic m, w1) \<Rightarrow> (Panic m, w1)
               | (Hang, w1) \<Rightarrow> (Hang, w1))
         else (case checkRegister req nstates of
                 Ok _ \<Rightarrow> dispute env a req cid w
               | r \<Rightarrow> (r, w)))"

definition Progress :: "'w aworld \<Rightarrow> unit res \<times> 'w aworld" where
  "Progress w = (Ok (), w)"

section \<open>Withdrawing\<close>

definition MakeWithdrawalReq ::
  "('w, 'd) aenv \<Rightarrow> 'w Adjudicator \<Rightarrow> ('a, 'd) AdjReq \<Rightarrow> 'w \<Rightarrow> WithdrawalRequest res" where
  "MakeWithdrawalReq env a req n =
     (let cid = pp_id (ar_params req); addr = Account_Address (ae_ed env) (adj_acc a)
      in case MarshalBinary addr of
           Err e \<Rightarrow> Err (ErrWrap ''failed to marshal address'' e)
         | Panic m \<Rightarrow> Panic m
         | Hang \<Rightarrow> Hang
         | Ok addrSlice \<Rightarrow>
             (let receiver = con_l1 (adj_conn a); msgEnc = cid @ addrSlice @ receiver
              in case Account_SignData (ae_ed env) (adj_acc a) msgEnc of
                   Err e \<Rightarrow> Err (ErrWrap ''failed to sign data'' e)
                 | Panic m \<Rightarrow> Panic m
                 | Hang \<Rightarrow> Hang
                 | Ok sig \<Rightarrow> Ok \<lparr>wr_channel = cid, wr_participant = addrSlice, wr_receiver = receiver,
                                wr_sig = sig, wr_time = unix env n\<rparr>))"

definition withdraw_from ::
  "('w, 'd) aenv \<Rightarrow> 'w Adjudicator \<Rightarrow> ('a, 'd) AdjReq \<Rightarrow> 'w \<Rightarrow> unit res \<times> 'w" where
  "withdraw_from env a req n = (case MakeWithdrawalReq env a req n of
     Err e \<Rightarrow> (Err (ErrWrap ''failed to withdraw'' e), n)
   | Panic m \<Rightarrow> (Panic m, n)
   | Hang \<Rightarrow> (Hang, n)
   | Ok withdrawReq \<Rightarrow>
       (case Withdraw (con_agent (adj_conn a)) withdrawReq n of
          ((withdrawalResp, err), n') \<Rightarrow>
            if withdrawalResp \<noteq> WithdrawalSuccessResponse then (Err ErrFailWithdrawal, n')
            else (case err of Some e \<Rightarrow> (Err (ErrWrap ''failed to withdraw'' e), n')
                  | None \<Rightarrow> (Ok (), n'))))"

definition Adjudicator_Withdraw ::
  "('w, 'd) aenv \<Rightarrow> 'w Adjudicator \<Rightarrow> ('a, 'd) AdjReq \<Rightarrow> 'w aworld \<Rightarrow> unit res \<times> 'w aworld" where
  "Adjudicator_Withdraw env a req w =
     (let cid = pp_id (ar_params req)
      in case ensureConcluded env a req cid w of
           (Err e, w1) \<Rightarrow> (Err e, w1)
         | (Panic m, w1) \<Rightarrow> (Panic m, w1)
         | (Hang, w1) \<Rightarrow> (Hang, w1)
         | (Ok finalized, w1) \<Rightarrow>
             (case withdraw_from env a req (aw_net w1) of (r, n) \<Rightarrow> (r, w1\<lparr>aw_net := n\<rparr>)))"

section \<open>The loops as polling loops\<close>

definition disputed_decide :: "u64 \<Rightarrow> sel \<Rightarrow> unit res option" where
  "disputed_decide version x = (case x of
     SelEvent (Some (Disputed d)) \<Rightarrow> if ev_version d < version then None else Some (Ok ())
   | SelCtx e \<Rightarrow> Some (Err e)
   | SelPanic e \<Rightarrow> Some (Err e)
   | _ \<Rightarrow> None)"

definition concluded_decide :: "sel \<Rightarrow> unit res option" where
  "concluded_decide x = (case x of
     SelEvent (Some (Concluded d)) \<Rightarrow> Some (Ok ())
   | SelCtx e \<Rightarrow> Some (Err e)
   | SelPanic e \<Rightarrow> Some (Err e)
   | _ \<Rightarrow> None)"

interpretation disputed: poll_loop "disputed_loop v" "disputed_decide v" for v :: u64
proof
  show "disputed_loop v (x # xs) = (case disputed_decide v x of None \<Rightarrow> disputed_loop v xs | Some r \<Rightarrow> r)" for x xs
    by (cases "(v, x # xs)" rule: disputed_loop.cases) (simp_all add: disputed_decide_def)
qed simp

interpretation concluded: poll_loop concluded_loop concluded_decide
proof
  show "concluded_loop (x # xs) = (case concluded_decide x of None \<Rightarrow> concluded_loop xs | Some r \<Rightarrow> r)" for x xs
    by (cases "x # xs" rule: concluded_loop.cases) (simp_all add: concluded_decide_def)
qed simp

lemma disputed_decide_Ok:
  "disputed_decide v x = Some (Ok ()) \<longleftrightarrow> (\<exists>d. x = SelEvent (Some (Disputed d)) \<and> v \<le> ev_version d)"
  by (auto simp: disputed_decide_def not_less split: sel.splits option.splits adj_event.splits if_splits)

lemma concluded_decide_Ok:
  "concluded_decide x = Some (Ok ()) \<longleftrightarrow> (\<exists>d. x = SelEvent (Some (Concluded d)))"
  by (auto simp: concluded_decide_def split: sel.splits option.splits adj_event.splits)

lemma disputed_Ok_iff:
  "disputed_loop v xs = Ok () \<longleftrightarrow>
     (\<exists>pre d post. xs = pre @ SelEvent (Some (Disputed d)) # post \<and> v \<le> ev_version d \<and>
        list_all (\<lambda>x. disputed_decide v x = None) pre)" (is "?L \<longleftrightarrow> ?R")
proof
  assume ?L
  from disputed.loop_returns [OF this] show ?R by (auto simp: disputed_decide_Ok list_all_iff)
next
  assume ?R
  then show ?L by (auto simp: list_all_iff disputed_decide_Ok intro!: disputed.loop_first)
qed

lemma concluded_Ok_iff:
  "concluded_loop xs = Ok () \<longleftrightarrow>
     (\<exists>pre d post. xs = pre @ SelEvent (Some (Concluded d)) # post \<and>
        list_all (\<lambda>x. concluded_decide x = None) pre)" (is "?L \<longleftrightarrow> ?R")
proof
  assume ?L
  from concluded.loop_returns [OF this] show ?R by (auto simp: concluded_decide_Ok list_all_iff)
next
  assume ?R
  then show ?L by (auto simp: list_all_iff concluded_decide_Ok intro!: concluded.loop_first)
qed

lemma loops_no_panic: "disputed_loop v xs \<noteq> Panic m" "concluded_loop xs \<noteq> Panic m"
proof -
  show "disputed_loop v xs \<noteq> Panic m" by (induction v xs rule: disputed_loop.induct) auto
  show "concluded_loop xs \<noteq> Panic m" by (induction xs rule: concluded_loop.induct) auto
qed

section \<open>Facts\<close>

lemma MakeParts_Ok: "MakeParts ps = Ok bs \<longleftrightarrow> list_all2 (\<lambda>p b. MarshalBinary p = Ok b) ps bs"
proof (induction ps arbitrary: bs)
  case Nil
  then show ?case by auto
next
  case (Cons p ps)
  then show ?case by (cases "MarshalBinary p") (auto simp: list_all2_Cons1)
qed

lemma adj_MakeAlloc_Ok: "adj_MakeAlloc bals = Ok al \<longleftrightarrow> (\<exists>rest. bals = al # rest)"
  by (cases bals) (auto simp: adj_MakeAlloc_def go_nth_def NewBigNat_def map_idI)

lemma MakeNonce_never_panics: "MakeNonce n \<noteq> Panic m" "MakeNonce n \<noteq> Hang"
  by (auto simp: MakeNonce_range)

lemma MakeAdjReq_Ok:
  "MakeAdjReq req = Ok q \<longleftrightarrow>
     (\<exists>parts nonce al rest. MakeParts (pp_parts (ar_params req)) = Ok parts \<and>
        MakeNonce (pp_nonce (ar_params req)) = Ok nonce \<and>
        al_balances (ps_alloc (ar_state req)) = al # rest \<and>
        q = \<lparr>aq_nonce = nonce, aq_participants = parts, aq_challenge = pp_challenge (ar_params req),
          aq_channel = pp_id (ar_params req), aq_version = ps_version (ar_state req), aq_allocation = al,
          aq_finalized = ps_final (ar_state req), aq_sigs = ar_sigs req\<rparr>)"
  by (auto simp: MakeAdjReq_def Let_def adj_MakeAlloc_Ok split: res.split)

lemma MakeWithdrawalReq_Ok:
  "MakeWithdrawalReq env a req n = Ok q \<longleftrightarrow>
     (let pk = ed_public (ae_ed env) (adj_acc a); l1 = con_l1 (adj_conn a); cid = pp_id (ar_params req) in
      \<exists>sig. ed_sign (ae_ed env) (adj_acc a) (cid @ pk @ l1) = Ok sig \<and>
        q = \<lparr>wr_channel = cid, wr_participant = pk, wr_receiver = l1, wr_sig = sig, wr_time = unix env n\<rparr>)"
  by (auto simp: MakeWithdrawalReq_def Let_def Account_Address_def Account_SignData_def Address_MarshalBinary_def
      split: res.split)

text \<open>Subscriptions are only ever appended or closed.\<close>

lemma open_sub_simps [simp]:
  "fst (open_sub w) = length (aw_subs w)"
  "aw_subs (snd (open_sub w)) = aw_subs w @ [False]"
  "aw_net (snd (open_sub w)) = aw_net w"
  by (simp_all add: open_sub_def)

lemma close_sub_simps [simp]:
  "aw_subs (close_sub i w) = (aw_subs w)[i := True]"
  "aw_net (close_sub i w) = aw_net w"
  by (simp_all add: close_sub_def)

lemma waitForDisputed_subs:
  "waitForDisputed env i v w = (r, w') \<Longrightarrow>
     aw_subs w' = (if r = Ok () then (aw_subs w)[i := True] else aw_subs w) \<and> r = disputed_loop v (ae_sels env)"
  by (auto simp: waitForDisputed_def Let_def split: if_splits)

lemma waitForConcluded_subs:
  "waitForConcluded env i w = (r, w') \<Longrightarrow>
     aw_subs w' = (if r = Ok () then (aw_subs w)[i := True] else aw_subs w) \<and> r = concluded_loop (ae_sels env)"
  by (auto simp: waitForConcluded_def Let_def split: if_splits)

lemma waitForConcluded_net: "waitForConcluded env i w = (r, w') \<Longrightarrow> aw_net w' = ae_polled env (aw_net w)"
  by (auto simp: waitForConcluded_def Let_def split: if_splits)

lemma conclude_args_waits:
  "conclude_args env req nonce qs n = Ok q \<Longrightarrow>
     Wait (MakeTimeout (rs_timeout qs) (ae_clock env n)) (ae_ticks env) = Ok ()"
  by (auto simp: conclude_args_def Let_def)

lemma check_final_version_Ok:
  "check_final_version ag req cid n = (Ok (), n') \<longleftrightarrow>
     (\<exists>fin. QueryState ag cid n = ((Some fin, None), n') \<and> cs_version (rs_state fin) = ps_version (ar_state req))"
  by (auto simp: check_final_version_def split: prod.splits option.splits if_splits)

text \<open>What a dispute does: when it succeeds, and what becomes of its subscription.\<close>

lemma dispute_outcome:
  "(fst (dispute env a req cid w) = Ok ()) =
     (\<exists>q n pre d post. MakeAdjReq req = Ok q \<and>
        Dispute (con_agent (adj_conn a)) q (aw_net w) = ((DisputeSuccess, None), n) \<and>
        ae_sels env = pre @ SelEvent (Some (Disputed d)) # post \<and> ps_version (ar_state req) \<le> ev_version d \<and>
        list_all (\<lambda>x. disputed_decide (ps_version (ar_state req)) x = None) pre) \<and>
   (fst (dispute env a req cid w) = Hang \<or>
     (\<exists>k. aw_subs (snd (dispute env a req cid w)) = aw_subs w @ replicate k True))"
proof (cases "MakeAdjReq req")
  case (Ok q)
  obtain resp oe n where d: "Dispute (con_agent (adj_conn a)) q (aw_net w) = ((resp, oe), n)" by (metis surj_pair)
  let ?v = "ps_version (ar_state req)" and ?w1 = "w\<lparr>aw_net := n\<rparr>"
  show ?thesis
  proof (cases "oe \<noteq> None \<or> resp \<noteq> DisputeSuccess")
    case True
    then have "dispute env a req cid w = (Err ErrFailDispute, ?w1)"
      by (simp add: dispute_def Ok d Let_def)
    then show ?thesis using Ok d True by (auto intro: exI [of _ 0])
  next
    case False
    obtain i w2 where o: "open_sub ?w1 = (i, w2)" by (cases "open_sub ?w1")
    obtain r w3 where wt: "waitForDisputed env i ?v w2 = (r, w3)" by (cases "waitForDisputed env i ?v w2")
    have r: "r = disputed_loop ?v (ae_sels env)" using waitForDisputed_subs [OF wt] by simp
    have i: "i = length (aw_subs w)" "aw_subs w2 = aw_subs w @ [False]"
      using open_sub_simps [of ?w1] o by simp_all
    have s3: "(aw_subs w3)[i := True] = aw_subs w @ [True]"
      using waitForDisputed_subs [OF wt] i by (simp add: list_update_append)
    have "dispute env a req cid w = (case (r, w3) of
        (Err e, w3) \<Rightarrow> (Err (ErrWrap ''failed to wait for dispute event'' e), close_sub i w3)
      | (Hang, w3) \<Rightarrow> (Hang, w3) | (r, w3) \<Rightarrow> (r, close_sub i w3))"
      using False by (simp add: dispute_def Ok d Let_def o wt)
    then have "fst (dispute env a req cid w) = Ok () \<longleftrightarrow> r = Ok ()"
      "fst (dispute env a req cid w) = Hang \<or> aw_subs (snd (dispute env a req cid w)) = aw_subs w @ replicate 1 True"
      using s3 by (auto split: res.split)
    moreover have "r = Ok () \<longleftrightarrow> (\<exists>q n pre d post. MakeAdjReq req = Ok q \<and>
        Dispute (con_agent (adj_conn a)) q (aw_net w) = ((DisputeSuccess, None), n) \<and>
        ae_sels env = pre @ SelEvent (Some (Disputed d)) # post \<and> ?v \<le> ev_version d \<and>
        list_all (\<lambda>x. disputed_decide ?v x = None) pre)"
      using False d unfolding r disputed_Ok_iff Ok by auto
    ultimately show ?thesis by blast
  qed
qed (auto simp: dispute_def intro: exI [of _ 0])

lemmas dispute_Ok = dispute_outcome [THEN conjunct1]

section \<open>Properties\<close>

text \<open>
  Property C13 (dispute_success): a dispute succeeds exactly if the request converts, the canister
  answers it with its success text, and then a dispute event of at least the requested version
  comes before the context ends and before an error of the subscription; older disputes and
  conclusions are passed over. Whenever it does not wait forever, every subscription it opened is
  closed.
\<close>

theorem dispute_success:
  "(fst (dispute env a req cid w) = Ok ()) =
     (\<exists>q n pre d post. MakeAdjReq req = Ok q \<and>
        Dispute (con_agent (adj_conn a)) q (aw_net w) = ((DisputeSuccess, None), n) \<and>
        ae_sels env = pre @ SelEvent (Some (Disputed d)) # post \<and> ps_version (ar_state req) \<le> ev_version d \<and>
        list_all (\<lambda>x. disputed_decide (ps_version (ar_state req)) x = None) pre) \<and>
   (fst (dispute env a req cid w) = Hang \<or>
     (\<exists>k. aw_subs (snd (dispute env a req cid w)) = aw_subs w @ replicate k True))"
  by (rule dispute_outcome)

text \<open>
  Property (register_branches): a final state is concluded, whatever the sub-channels; a state
  that is not final is refused when there are sub-channels, before anything is sent, and disputed
  otherwise. The check for a final state in \<open>checkRegister\<close> never refuses a request of \<open>Register\<close>.
\<close>

theorem register_branches:
  "Register env a req nstates w =
     (if ps_final (ar_state req)
      then (let (r, w1) = ensureConcluded env a req (pp_id (ar_params req)) w in (res_bind r (\<lambda>_. Ok ()), w1))
      else if nstates \<noteq> 0
      then (Err (ErrWrap ''sub-channels unsupported'' ErrAdjudicatorReqIncompatible), w)
      else dispute env a req (pp_id (ar_params req)) w)"
  by (auto simp: Register_def checkRegister_def Let_def split: prod.split res.split)

lemma withdraw_Ok:
  "fst (Adjudicator_Withdraw env a req w) = Ok () \<longleftrightarrow>
     (\<exists>b w1 q n. ensureConcluded env a req (pp_id (ar_params req)) w = (Ok b, w1) \<and>
        MakeWithdrawalReq env a req (aw_net w1) = Ok q \<and>
        Withdraw (con_agent (adj_conn a)) q (aw_net w1) = ((WithdrawalSuccessResponse, None), n))"
proof -
  have "fst (withdraw_from env a req n) = Ok () \<longleftrightarrow>
      (\<exists>q n'. MakeWithdrawalReq env a req n = Ok q \<and>
        Withdraw (con_agent (adj_conn a)) q n = ((WithdrawalSuccessResponse, None), n'))" for n
    by (auto simp: withdraw_from_def split: prod.split res.split option.split)
  then show ?thesis
    by (auto simp: Adjudicator_Withdraw_def Let_def split: prod.split res.split) (metis fst_conv)+
qed

text \<open>
  Property (withdraw_success): a withdrawal reaches the canister only after the channel is
  concluded, and succeeds exactly if the signed request is answered with the success text. An
  error of the call is reported as a failed withdrawal: the branch that would wrap it is dead,
  because the agent returns an empty text with every error.
\<close>

theorem withdraw_success:
  "(fst (Adjudicator_Withdraw env a req w) = Ok ()) =
     (\<exists>b w1 q n. ensureConcluded env a req (pp_id (ar_params req)) w = (Ok b, w1) \<and>
        MakeWithdrawalReq env a req (aw_net w1) = Ok q \<and>
        Withdraw (con_agent (adj_conn a)) q (aw_net w1) = ((WithdrawalSuccessResponse, None), n)) \<and>
   (case MakeWithdrawalReq env a req n of
      Ok q \<Rightarrow> fst (withdraw_from env a req n) =
        (if fst (fst (Withdraw (con_agent (adj_conn a)) q n)) = WithdrawalSuccessResponse then Ok ()
         else Err ErrFailWithdrawal)
    | _ \<Rightarrow> True)"
proof -
  have "fst (withdraw_from env a req n) =
      (if fst (fst (Withdraw (con_agent (adj_conn a)) q n)) = WithdrawalSuccessResponse then Ok ()
       else Err ErrFailWithdrawal)" if q: "MakeWithdrawalReq env a req n = Ok q" for q
  proof -
    obtain resp oe n' where w: "Withdraw (con_agent (adj_conn a)) q n = ((resp, oe), n')" by (metis surj_pair)
    have "oe = None" if "resp = WithdrawalSuccessResponse"
      using withdraw_method.nonzero_ok [OF w] that by (simp add: WithdrawalSuccessResponse_def)
    then show ?thesis using q w by (simp add: withdraw_from_def)
  qed
  then show ?thesis unfolding withdraw_Ok by (auto split: res.split)
qed

text \<open>
  Property (withdrawal_request): the request names the channel, the own key and the own L1
  principal, and its signature is the one over exactly these three in this order; it verifies
  under the own key if the curve library accepts its own signatures. The time is not signed.
\<close>

theorem withdrawal_request:
  assumes "MakeWithdrawalReq env a req n = Ok q"
    and lib: "\<And>m sg. ed_sign (ae_ed env) (adj_acc a) m = Ok sg \<Longrightarrow>
      ed_verify (ae_ed env) (ed_public (ae_ed env) (adj_acc a)) m sg = Ok True"
  shows "wr_channel q = pp_id (ar_params req) \<and> wr_receiver q = con_l1 (adj_conn a) \<and>
    VerifySignature (ae_ed env) (wr_channel q @ wr_participant q @ wr_receiver q) (wr_sig q)
      (Account_Address (ae_ed env) (adj_acc a)) = Ok True"
  using assms by (auto simp: MakeWithdrawalReq_Ok Let_def VerifySignature_def Account_Address_def)

text \<open>
  Property (adj_request_matches_signature): for a state that can be signed, the version,
  allocation and finality of the request sent to the canister are those in the signed bytes.
\<close>

theorem adj_request_matches_signature:
  assumes "Sign gp signData (ar_state req) = Ok sig" and "MakeAdjReq req = Ok q"
  shows "signData (ps_id (ar_state req) @ put_u64 (aq_version q) @
      concat (map (\<lambda>b. nat_le (nat b)) (aq_allocation q)) @ (if aq_finalized q then [1] else [0])) = Ok sig"
proof -
  obtain row data where row: "valid_row gp (ar_state req) row" and s: "signData (row_bytes (ar_state req) row) = Ok sig"
    using assms(1) unfolding Sign_def res_bind_eq_Ok StateForChain_iff by (auto simp: state_bytes_row)
  have "aq_allocation q = row" "aq_version q = ps_version (ar_state req)" "aq_finalized q = ps_final (ar_state req)"
    using assms(2) row by (auto simp: MakeAdjReq_Ok valid_row_def)
  with s show ?thesis by (simp add: row_bytes_def)
qed

text \<open>
  Property (ensure_concluded_true): \<open>ensureConcluded\<close> never answers false without an error, and
  neither does \<open>isConcluded\<close>; the value returned beside nil is always true.
\<close>

theorem ensure_concluded_true:
  "fst (ensureConcluded env a req cid w) \<noteq> Ok False \<and> fst (isConcluded env a cid req w) \<noteq> Ok False"
proof -
  have i: "fst (isConcluded env a cid req w) \<noteq> Ok False"
    by (auto simp: isConcluded_def Let_def split: prod.split res.split option.split bool.split)
  have "fst (ensureConcluded env a req cid w) \<noteq> Ok False"
    using i by (auto simp: ensureConcluded_def Let_def split: prod.split res.split)
  then show ?thesis using i ..
qed

text \<open>
  Property C40 (conclude_leaves_subscription): \<open>isConcluded\<close> opens its subscription before anything
  else and defers closing it only at the very end: it is closed exactly when a conclusion event
  was awaited and came; on an error, and when the other participant's conclusion is found by a
  query, it stays open.
\<close>

theorem conclude_leaves_subscription:
  "(\<exists>q resp n. MakeAdjReq req = Ok q \<and> Conclude (con_agent (adj_conn a)) q (aw_net w) = ((resp, None), n) \<and>
      resp \<noteq> ResponseErrorConcludingChannel \<and> concluded_loop (ae_sels env) = Ok ()) =
     (aw_subs (snd (isConcluded env a cid req w)) = aw_subs w @ [True]) \<and>
   (aw_subs (snd (isConcluded env a cid req w)) = aw_subs w @ [True] \<or>
    aw_subs (snd (isConcluded env a cid req w)) = aw_subs w @ [False])"
proof (cases "MakeAdjReq req")
  case (Ok q)
  obtain i w0 where o: "open_sub w = (i, w0)" by (cases "open_sub w")
  have i: "i = length (aw_subs w)" "aw_subs w0 = aw_subs w @ [False]" "aw_net w0 = aw_net w"
    using open_sub_simps [of w] o by simp_all
  obtain resp oe n where c: "Conclude (con_agent (adj_conn a)) q (aw_net w) = ((resp, oe), n)" by (metis surj_pair)
  show ?thesis
  proof (cases "oe = None \<and> resp \<noteq> ResponseErrorConcludingChannel")
    case True
    obtain r w2 where wt: "waitForConcluded env i (w0\<lparr>aw_net := n\<rparr>) = (r, w2)" by (metis surj_pair)
    have r: "r = concluded_loop (ae_sels env)"
      and w2: "aw_subs w2 = aw_subs w @ [r = Ok ()]"
      using waitForConcluded_subs [OF wt] i by (simp_all add: list_update_append)
    have "isConcluded env a cid req w = (case (r, w2) of
        (Ok _, w2) \<Rightarrow> (Ok True, close_sub i w2)
      | (Err e, w2) \<Rightarrow> (Err (ErrWrap ''failed to wait for conclude event'' e), w2)
      | (Panic m, w2) \<Rightarrow> (Panic m, w2) | (Hang, w2) \<Rightarrow> (Hang, w2))"
      using True by (simp add: isConcluded_def Let_def o Ok c i(3) wt)
    then have "aw_subs (snd (isConcluded env a cid req w)) = aw_subs w @ [r = Ok ()]"
      using w2 i by (auto split: res.split)
    then show ?thesis using True Ok c r by auto
  next
    case False
    then have "aw_subs (snd (isConcluded env a cid req w)) = aw_subs w @ [False]"
      using i by (auto simp: isConcluded_def Let_def o Ok c split: prod.split res.split option.split bool.split)
    then show ?thesis using False Ok c by auto
  qed
qed (auto simp: isConcluded_def Let_def open_sub_def)

text \<open>\<open>checkDisputes\<close> with the network it leaves.\<close>

definition dispute_concluded ::
  "('w, 'd) aenv \<Rightarrow> 'w icAgent \<Rightarrow> ('a, 'd) AdjReq \<Rightarrow> bytes \<Rightarrow> 'w \<Rightarrow> 'w \<Rightarrow> bool" where
  "dispute_concluded env ag req nonce n0 n' \<longleftrightarrow>
     (\<exists>qs n q resp n2 fin. QueryState ag (pp_id (ar_params req)) n0 = ((Some qs, None), n) \<and>
        cs_version (rs_state qs) \<le> ps_version (ar_state req) \<and>
        conclude_args env req nonce qs n = Ok q \<and>
        Conclude ag q n = ((resp, None), n2) \<and> concluded_loop (ae_sels env) = Ok () \<and>
        QueryState ag (pp_id (ar_params req)) (ae_polled env n2) = ((Some fin, None), n') \<and>
        cs_version (rs_state fin) = ps_version (ar_state req))"

lemma checkDisputes_Ok:
  "(\<exists>w1. checkDisputes env a req nonce w = (Ok (), w1) \<and> aw_net w1 = n') \<longleftrightarrow>
     dispute_concluded env (con_agent (adj_conn a)) req nonce (aw_net w) n'"
proof (cases "\<exists>qs n. QueryState (con_agent (adj_conn a)) (pp_id (ar_params req)) (aw_net w) = ((Some qs, None), n)")
  case False
  then show ?thesis
    by (auto simp: checkDisputes_def dispute_concluded_def Let_def split: prod.splits option.splits)
next
  case True
  let ?ag = "con_agent (adj_conn a)" and ?cid = "pp_id (ar_params req)"
  from True obtain qs n where q: "QueryState ?ag ?cid (aw_net w) = ((Some qs, None), n)" by blast
  show ?thesis
  proof (cases "cs_version (rs_state qs) \<le> ps_version (ar_state req) \<and> (\<exists>c. conclude_args env req nonce qs n = Ok c)")
    case False
    then show ?thesis
      by (auto simp: checkDisputes_def dispute_concluded_def Let_def q not_less [symmetric] split: res.splits)
  next
    case True
    then obtain c where c: "conclude_args env req nonce qs n = Ok c"
      and v: "\<not> ps_version (ar_state req) < cs_version (rs_state qs)" by fastforce
    obtain resp oe n2 where cc: "Conclude ?ag c n = ((resp, oe), n2)" by (metis surj_pair)
    obtain i w2 where o: "open_sub (w\<lparr>aw_net := n2\<rparr>) = (i, w2)" by (metis surj_pair)
    have w2: "aw_net w2 = n2" using open_sub_simps(3) [of "w\<lparr>aw_net := n2\<rparr>"] o by simp
    obtain r w3 where wt: "waitForConcluded env i w2 = (r, w3)" by (metis surj_pair)
    have net: "aw_net w3 = ae_polled env n2" using waitForConcluded_net [OF wt] w2 by simp
    obtain rf n3 where f: "check_final_version ?ag req ?cid (ae_polled env n2) = (rf, n3)" by (metis surj_pair)
    have "(\<exists>w1. checkDisputes env a req nonce w = (Ok (), w1) \<and> aw_net w1 = n') \<longleftrightarrow>
        oe = None \<and> r = Ok () \<and> rf = Ok () \<and> n3 = n'"
      using v by (auto simp: checkDisputes_def Let_def q c cc o wt net f split: res.splits option.splits)
    also have "\<dots> \<longleftrightarrow> dispute_concluded env ?ag req nonce (aw_net w) n'"
      using waitForConcluded_subs [OF wt] f check_final_version_Ok [of ?ag req ?cid "ae_polled env n2" n'] v
      by (auto simp: dispute_concluded_def q c cc not_less)
    finally show ?thesis .
  qed
qed

text \<open>
  Property (checked_dispute_concludes): when \<open>checkDisputes\<close> succeeds, the registered version
  was not above the requested one, the wait for the dispute's timeout was over, the conclude call
  got through (its answer is not read), a conclusion event came, and the version registered in
  the end is the requested one. If the canister has no state for the channel by then, it panics.
\<close>

theorem checked_dispute_concludes:
  "fst (checkDisputes env a req nonce w) = Ok () \<longleftrightarrow>
     (\<exists>qs n q resp n2 fin n3. QueryState (con_agent (adj_conn a)) (pp_id (ar_params req)) (aw_net w) = ((Some qs, None), n) \<and>
        cs_version (rs_state qs) \<le> ps_version (ar_state req) \<and>
        Wait (MakeTimeout (rs_timeout qs) (ae_clock env n)) (ae_ticks env) = Ok () \<and>
        conclude_args env req nonce qs n = Ok q \<and>
        Conclude (con_agent (adj_conn a)) q n = ((resp, None), n2) \<and> concluded_loop (ae_sels env) = Ok () \<and>
        QueryState (con_agent (adj_conn a)) (pp_id (ar_params req)) (ae_polled env n2) = ((Some fin, None), n3) \<and>
        cs_version (rs_state fin) = ps_version (ar_state req))"
proof -
  have "fst (checkDisputes env a req nonce w) = Ok () \<longleftrightarrow>
      (\<exists>n'. \<exists>w1. checkDisputes env a req nonce w = (Ok (), w1) \<and> aw_net w1 = n')"
    by (cases "checkDisputes env a req nonce w") auto
  then show ?thesis
    unfolding checkDisputes_Ok dispute_concluded_def
    by (elim ssubst, intro iffI; elim exE conjE; intro exI conjI) (assumption | rule conclude_args_waits)+
qed


lemma check_sigs_Ok:
  "length pre = i \<Longrightarrow> length ps = length sigs \<Longrightarrow>
     check_sigs verify s i ps (pre @ sigs) = Ok () \<longleftrightarrow> list_all2 (\<lambda>p sg. verify p s sg = Ok True) ps sigs"
proof (induction ps arbitrary: i pre sigs)
  case (Cons p ps)
  then obtain sg sigs' where sigs: "sigs = sg # sigs'" by (cases sigs) auto
  have "go_nth (pre @ sg # sigs') (int i) = Ok sg"
    using Cons.prems(1) go_nth_ok [of i "pre @ sg # sigs'"] by (simp add: nth_append)
  moreover have "check_sigs verify s (i + 1) ps ((pre @ [sg]) @ sigs') = Ok () \<longleftrightarrow>
      list_all2 (\<lambda>p sg. verify p s sg = Ok True) ps sigs'"
    using Cons.prems sigs by (intro Cons.IH) auto
  ultimately show ?case by (cases "verify p s sg") (auto simp: sigs)
qed simp

text \<open>
  Property (fully_signed): a transaction counts as fully signed exactly if there is one
  signature per participant and each verifies for the participant in its place.
\<close>

theorem fully_signed:
  "(fullySignedTx verify s sigs parts = Ok ()) = list_all2 (\<lambda>p sg. verify p s sg = Ok True) parts sigs"
  using check_sigs_Ok [of "[]" 0 parts sigs verify s]
  by (auto simp: fullySignedTx_def list_all2_lengthD)

section \<open>Concrete instances\<close>

definition demo_adj :: "unit Adjudicator" where
  "demo_adj = NewAdjudicator (replicate 32 1) (demo_conn demo_ok)"

definition demo_areq :: "(unit, unit) AdjReq" where
  "demo_areq = \<lparr>ar_params = pp_demo 2, ar_state = ps_demo, ar_sigs = []\<rparr>"

definition demo_aenv :: "(unit, unit) aenv" where
  "demo_aenv = \<lparr>ae_verify = (\<lambda>p s sg. Ok True), ae_ed = ed_plain, ae_clock = (\<lambda>w. 5000000000),
     ae_ticks = [], ae_sels = [], ae_polled = (\<lambda>w. w)\<rparr>"

theorem withdrawal_request_witness:
  "\<exists>q. MakeWithdrawalReq demo_aenv demo_adj demo_areq () = Ok q \<and>
     VerifySignature ed_plain (wr_channel q @ wr_participant q @ wr_receiver q) (wr_sig q)
       (Account_Address ed_plain (replicate 32 1)) = Ok True"
proof -
  obtain q where q: "MakeWithdrawalReq demo_aenv demo_adj demo_areq () = Ok q"
    by (simp add: MakeWithdrawalReq_Ok Let_def demo_aenv_def ed_plain_def)
  have e: "ae_ed demo_aenv = ed_plain" "adj_acc demo_adj = replicate 32 1"
    by (simp_all add: demo_aenv_def demo_adj_def NewAdjudicator_def)
  have "ed_verify ed_plain (ed_public ed_plain sk) m sg = Ok True" if "ed_sign ed_plain sk m = Ok sg" for sk m sg
    using that by (auto simp: ed_plain_def)
  then have "VerifySignature ed_plain (wr_channel q @ wr_participant q @ wr_receiver q)
      (wr_sig q) (Account_Address ed_plain (replicate 32 1)) = Ok True"
    using withdrawal_request [OF q, unfolded e] by blast
  with q show ?thesis by blast
qed

lemma demo_areq_ok: "\<exists>q. MakeAdjReq demo_areq = Ok q"
  by (simp add: MakeAdjReq_Ok demo_areq_def pp_demo_def ps_demo_def MakeNonce_range Address_MarshalBinary_def)

theorem adj_request_matches_signature_witness:
  "\<exists>q. MakeAdjReq demo_areq = Ok q \<and>
     (\<exists>sig. ps_id ps_demo @ put_u64 (aq_version q) @ concat (map (\<lambda>b. nat_le (nat b)) (aq_allocation q)) @
       (if aq_finalized q then [1] else [0]) = sig \<and> Sign gp_demo Ok (ar_state demo_areq) = Ok sig)"
proof -
  obtain q where q: "MakeAdjReq demo_areq = Ok q" using demo_areq_ok by blast
  obtain sig where s: "Sign gp_demo Ok (ar_state demo_areq) = Ok sig"
    by (simp add: Sign_def StateForChain_iff valid_row_def gp_demo_def demo_areq_def ps_demo_def)
  from adj_request_matches_signature [OF s q] q s show ?thesis by (simp add: demo_areq_def)
qed


end
