(* ===== verification/Waiting.thy ===== *)
theory Waiting
  imports Adjudicator
begin

text \<open>
  A subscription's goroutine and an adjudicator's waiting loop at work together. Waiting for a
  dispute and waiting for a conclusion are one kind of loop, which looks for a wanted event; the
  interface \<open>event_wait\<close> says so and proves once that such a wait can always still succeed while the
  canister answers with a wanted event. The canister's answers are the logs of \<open>AdjEvents\<close>.
\<close>

section \<open>Waiting for an event\<close>

text \<open>
  All answers to the subscription's query are good: no error, not empty, and they parse to a
  batch with a wanted event.
\<close>

definition answers_with :: "'w icAgent \<Rightarrow> ChannelTime \<Rightarrow> (adj_event \<Rightarrow> bool) \<Rightarrow> bool" where
  "answers_with a q wanted \<longleftrightarrow> (\<forall>m. \<exists>str n evs. QueryEvents a q m = ((str, None), n) \<and> str \<noteq> '''' \<and>
     parseEventsAll str = Ok evs \<and> list_ex wanted evs)"

text \<open>
  What holds of a subscription that gets good answers: no error is ever pending, the channel is
  closed only because the context ended, and from the query on the batch with the wanted event is
  what has been read, is buffered or is still to be sent.
\<close>

definition fed :: "ChannelTime \<Rightarrow> (adj_event \<Rightarrow> bool) \<Rightarrow> sel list \<Rightarrow> 'w AdjEventSub \<Rightarrow> bool" where
  "fed q wanted xs s \<longleftrightarrow> es_queryArgs s = q \<and> es_panicErr s = [] \<and> (es_closed s \<longrightarrow> es_ctxDone s) \<and>
     (case es_pc s of
        Polling \<Rightarrow> es_events s = [] \<and> delivered xs = [] \<and> \<not> es_closed s
      | SendEvents evs \<Rightarrow> \<not> es_closed s \<and> length (es_events s @ evs) \<le> 2 \<and>
          list_ex wanted (delivered xs @ es_events s @ evs)
      | Returned \<Rightarrow> es_closed s \<or> list_ex wanted (delivered xs @ es_events s)
      | _ \<Rightarrow> False)"

lemma fed_new: "fed \<lparr>ct_channel = cid, ct_time = t\<rparr> wanted [] (NewAdjudicatorSub cid t n)"
  by (simp add: fed_def NewAdjudicatorSub_def)

lemma poll_good_answer:
  assumes "answers_with a q wanted" and "es_queryArgs s = q"
  shows "\<exists>n evs. poll_query a s = s\<lparr>es_net := n, es_pc := SendEvents evs\<rparr> \<and> list_ex wanted evs \<and> length evs \<le> 2"
proof -
  obtain str n evs where a: "QueryEvents a q (es_net s) = ((str, None), n)" "str \<noteq> ''''"
      "parseEventsAll str = Ok evs" "list_ex wanted evs"
    using assms(1) unfolding answers_with_def by blast
  then have "evs \<noteq> []" by auto
  with a assms(2) have "poll_query a s = s\<lparr>es_net := n, es_pc := SendEvents evs\<rparr>"
    by (simp add: poll_query_def Sub_QueryEvents_def after_query_def)
  with a(4) batch_length [OF a(3)] show ?thesis by blast
qed

lemma run_step_fed: "run_step a s t \<Longrightarrow> answers_with a q wanted \<Longrightarrow> fed q wanted xs s \<Longrightarrow> fed q wanted xs t"
proof (induction rule: run_step.induct)
  case (timer s)
  then have s: "es_queryArgs s = q" "es_events s = []" "delivered xs = []" "\<not> es_closed s" "es_panicErr s = []"
    by (simp_all add: fed_def)
  from poll_good_answer [OF timer(2) s(1)] obtain n evs where
    "poll_query a s = s\<lparr>es_net := n, es_pc := SendEvents evs\<rparr>" "list_ex wanted evs" "length evs \<le> 2" by blast
  with s show ?case by (simp add: fed_def)
qed (auto simp: fed_def finish_def)

lemma env_step_fed: "env_step s (Some x) t \<Longrightarrow> fed q wanted xs s \<Longrightarrow> fed q wanted (xs @ [x]) t"
  by (erule env_stepE) (auto simp: fed_def split: pc.splits)

lemma env_step_fed_unseen: "env_step s None t \<Longrightarrow> fed q wanted xs s \<Longrightarrow> fed q wanted xs t"
  by (erule env_stepE) (auto simp: fed_def split: pc.splits)

lemma execution_fed:
  "execution a s xs t \<Longrightarrow> answers_with a q wanted \<Longrightarrow> fed q wanted [] s \<Longrightarrow> fed q wanted xs t"
  by (induction rule: execution.induct) (auto intro: run_step_fed env_step_fed env_step_fed_unseen)

text \<open>Sending the rest of a batch, and reading what is in the buffer.\<close>

lemma send_rest:
  "execution a s0 xs s \<Longrightarrow> es_pc s = SendEvents evs \<Longrightarrow> \<not> es_closed s \<Longrightarrow> length (es_events s @ evs) \<le> 2 \<Longrightarrow>
     execution a s0 xs (s\<lparr>es_events := es_events s @ evs, es_pc := SendEvents []\<rparr>)"
proof (induction evs arbitrary: s)
  case Nil
  then show ?case by (metis AdjEventSub.surjective AdjEventSub.update_convs(3,5) append_Nil2)
next
  case (Cons e evs)
  let ?t = "s\<lparr>es_events := es_events s @ [e], es_pc := SendEvents evs\<rparr>"
  have "run_step a s ?t"
    using Cons.prems by (intro run_step.send_event) (simp_all add: DefaultBufferSize_def)
  then have "execution a s0 xs ?t" using Cons.prems(1) by (rule execution.run [rotated])
  from Cons.IH [OF this] Cons.prems show ?case by simp
qed

lemma read_buffer:
  "execution a s0 xs s \<Longrightarrow> es_events s = evs \<Longrightarrow>
     execution a s0 (xs @ map (\<lambda>e. SelEvent (Some e)) evs) (s\<lparr>es_events := []\<rparr>)"
proof (induction evs arbitrary: xs s)
  case Nil
  then show ?case by (metis AdjEventSub.surjective AdjEventSub.update_convs(5) append_Nil2 list.map(1))
next
  case (Cons e evs)
  let ?t = "s\<lparr>es_events := evs\<rparr>"
  have "execution a s0 (xs @ [SelEvent (Some e)]) ?t"
    using Cons.prems by (intro execution.seen [OF _ env_step.recv]) simp_all
  from Cons.IH [OF this] show ?case by simp
qed

locale event_wait = poll_loop loop decide
  for loop :: "sel list \<Rightarrow> unit res" and decide :: "sel \<Rightarrow> unit res option" +
  fixes wanted :: "adj_event \<Rightarrow> bool"
  assumes decide_event: "decide (SelEvent (Some e)) = (if wanted e then Some (Ok ()) else None)"
    and decide_not_Hang: "decide x \<noteq> Some Hang"
begin

lemma waiting_iff: "loop xs = Hang \<longleftrightarrow> (\<forall>x\<in>set xs. decide x = None)"
proof
  assume h: "loop xs = Hang"
  from loop_cases [of xs] show "\<forall>x\<in>set xs. decide x = None"
    using h decide_not_Hang by auto
qed (rule loop_waiting)

lemma waiting_nothing_wanted:
  assumes "loop xs = Hang"
  shows "\<not> list_ex wanted (delivered xs)"
proof -
  have "\<not> wanted e" if "SelEvent (Some e) \<in> set xs" for e
    using that assms decide_event [of e] unfolding waiting_iff by auto
  then show ?thesis by (auto simp: delivered_def list_ex_iff split: sel.splits option.splits)
qed

lemma loop_wanted: "list_ex wanted evs \<Longrightarrow> loop (map (\<lambda>e. SelEvent (Some e)) evs) = Ok ()"
  by (induction evs) (auto simp: loop_Cons decide_event)

text \<open>The buffer of any state that gets good answers can be filled with the wanted event.\<close>

lemma can_buffer_wanted:
  assumes "execution a s0 xs s" and "fed q wanted xs s" and "\<not> es_ctxDone s" and "answers_with a q wanted"
    and "loop xs = Hang"
  shows "\<exists>t. execution a s0 xs t \<and> list_ex wanted (es_events t)"
proof -
  note none = waiting_nothing_wanted [OF assms(5)]
  have send: "\<exists>t. execution a s0 xs t \<and> list_ex wanted (es_events t)"
    if "execution a s0 xs u" "fed q wanted xs u" "es_pc u = SendEvents evs" for u evs
    using send_rest [OF that(1,3)] that(2,3) none by (fastforce simp: fed_def)
  show ?thesis
  proof (cases "es_pc s")
    case Polling
    have "es_queryArgs s = q" using assms(2) by (simp add: fed_def)
    from poll_good_answer [OF assms(4) this] obtain n evs where
      p: "poll_query a s = s\<lparr>es_net := n, es_pc := SendEvents evs\<rparr>" by blast
    have r: "run_step a s (poll_query a s)" using Polling by (rule run_step.timer)
    show ?thesis
      using send [OF execution.run [OF assms(1) r] run_step_fed [OF r assms(4,2)]] p by simp
  next
    case (SendEvents evs)
    then show ?thesis by (rule send [OF assms(1,2)])
  next
    case Returned
    then have "list_ex wanted (es_events s)" using assms(2,3) none by (auto simp: fed_def)
    then show ?thesis using assms(1) by blast
  qed (use assms(2) in \<open>simp_all add: fed_def\<close>)
qed

lemma can_finish:
  assumes "execution a (NewAdjudicatorSub cid t n) xs s" and "\<not> es_ctxDone s"
    and "answers_with a \<lparr>ct_channel = cid, ct_time = t\<rparr> wanted" and "loop xs = Hang"
  shows "\<exists>ys u. execution a (NewAdjudicatorSub cid t n) (xs @ ys) u \<and> loop (xs @ ys) = Ok ()"
proof -
  obtain u where u: "execution a (NewAdjudicatorSub cid t n) xs u" "list_ex wanted (es_events u)"
    using can_buffer_wanted [OF assms(1) execution_fed [OF assms(1,3) fed_new] assms(2,3,4)] by blast
  have "loop (xs @ map (\<lambda>e. SelEvent (Some e)) (es_events u)) = Ok ()"
    using loop_skip [of xs] loop_wanted [OF u(2)] assms(4) unfolding waiting_iff by simp
  with read_buffer [OF u(1) refl] show ?thesis by blast
qed

end

definition wants_dispute :: "u64 \<Rightarrow> adj_event \<Rightarrow> bool" where
  "wants_dispute v e = (case e of Disputed d \<Rightarrow> v \<le> ev_version d | Concluded d \<Rightarrow> False)"

definition wants_conclusion :: "adj_event \<Rightarrow> bool" where
  "wants_conclusion e = (case e of Disputed d \<Rightarrow> False | Concluded d \<Rightarrow> True)"

interpretation dispute_wait: event_wait "disputed_loop v" "disputed_decide v" "wants_dispute v" for v :: u64
  by unfold_locales
    (auto simp: disputed_decide_def wants_dispute_def not_less split: adj_event.splits sel.splits option.splits if_splits)

interpretation conclusion_wait: event_wait concluded_loop concluded_decide wants_conclusion
  by unfold_locales
    (auto simp: concluded_decide_def wants_conclusion_def split: adj_event.splits sel.splits option.splits)

section \<open>The canister's logs\<close>

text \<open>A log whose entries the parsers can read: amounts in two groups, and not several of one
  kind that are all of version 0.\<close>

definition readable :: "log_entry list \<Rightarrow> bool" where
  "readable log \<longleftrightarrow> list_all wf_entry log \<and> list_all two_grouped log \<and> list_all fits log \<and>
     \<not> (1 < length (of_kind True log) \<and> all_zero (of_kind True log)) \<and>
     \<not> (1 < length (of_kind False log) \<and> all_zero (of_kind False log))"

text \<open>It shows an entry of the kind (True for conclusions), the newest with at least the version.\<close>

definition shows_entry :: "bool \<Rightarrow> u64 \<Rightarrow> log_entry list \<Rightarrow> bool" where
  "shows_entry c v log \<longleftrightarrow> readable log \<and> of_kind c log \<noteq> [] \<and>
     copy_into 32 (en_cid (newest (of_kind c log))) \<noteq> zeroCID \<and> v \<le> en_version (newest (of_kind c log))"

definition always_logs :: "'w icAgent \<Rightarrow> ChannelTime \<Rightarrow> (log_entry list \<Rightarrow> bool) \<Rightarrow> bool" where
  "always_logs a q P \<longleftrightarrow> (\<forall>m. \<exists>sep log n. QueryEvents a q m = ((render sep log, None), n) \<and> wf_sep sep \<and> P log)"

text \<open>What the parser makes of a log it can read.\<close>

lemma parse_readable:
  assumes "wf_sep sep" and "list_all wf_entry log" and "list_all two_grouped log" and "list_all fits log"
  shows "parseEventsConcluded (render sep log) = log_result (of_kind True log)"
    and "parseEventsDisputed (render sep log) = log_result (of_kind False log)"
proof -
  have "list_all two_grouped (of_kind c log)" "list_all fits (of_kind c log)" for c
    using assms(3,4) by (auto simp: of_kind_def list_all_iff)
  then show "parseEventsConcluded (render sep log) = log_result (of_kind True log)"
    "parseEventsDisputed (render sep log) = log_result (of_kind False log)"
    unfolding concluded_kind disputed_kind using parse_result_kind [OF assms(1,2)] by blast+
qed

lemma log_result_readable: "readable log \<Longrightarrow> \<exists>ds. log_result (of_kind c log) = Ok ds \<and> length ds \<le> 1"
  by (cases c; cases "of_kind c log") (auto simp: log_result_def readable_def)

lemma shows_entry_result:
  "shows_entry c v log \<Longrightarrow> log_result (of_kind c log) = Ok [entry_event (newest (of_kind c log))]"
  by (cases c; cases "of_kind c log"; cases "tl (of_kind c log)")
    (auto simp: log_result_def readable_def shows_entry_def)

lemma shows_entry_parses:
  assumes "wf_sep sep" and "shows_entry c v log"
  shows "\<exists>evs. parseEventsAll (render sep log) = Ok evs \<and>
    (if c then Concluded else Disputed) (entry_event (newest (of_kind c log))) \<in> set evs"
proof -
  have r: "readable log" using assms(2) by (simp add: shows_entry_def)
  then have p: "parseEventsConcluded (render sep log) = log_result (of_kind True log)"
    "parseEventsDisputed (render sep log) = log_result (of_kind False log)"
    using parse_readable [OF assms(1)] by (simp_all add: readable_def)
  obtain cs ds where cd: "log_result (of_kind True log) = Ok cs" "length cs \<le> 1"
      "log_result (of_kind False log) = Ok ds" "length ds \<le> 1"
    using log_result_readable [OF r] by metis
  then have "parseEventsAll (render sep log) = Ok (map Concluded cs @ map Disputed ds)"
    by (simp add: parseEventsAll_def p alias_loop_single)
  then show ?thesis using shows_entry_result [OF assms(2)] cd by (cases c) auto
qed

lemma render_not_empty: "log \<noteq> [] \<Longrightarrow> render sep log \<noteq> ''''"
  by (cases log) (simp_all add: render_def segments_def AdjEvents.fields_def seg_text_def lit_def kind_name_def)

lemma always_logs_answers:
  assumes "always_logs a q (shows_entry c v)"
    and w: "\<And>d. v \<le> ev_version d \<Longrightarrow> wanted ((if c then Concluded else Disputed) d)"
  shows "answers_with a q wanted"
  unfolding answers_with_def
proof
  fix m
  obtain sep log n where a: "QueryEvents a q m = ((render sep log, None), n)" "wf_sep sep" "shows_entry c v log"
    using assms(1) unfolding always_logs_def by blast
  obtain evs where e: "parseEventsAll (render sep log) = Ok evs"
      "(if c then Concluded else Disputed) (entry_event (newest (of_kind c log))) \<in> set evs"
    using shows_entry_parses [OF a(2,3)] by blast
  have "v \<le> ev_version (entry_event (newest (of_kind c log)))"
    using a(3) by (simp add: shows_entry_def entry_event_def)
  with w e(2) have "list_ex wanted evs" by (auto simp: list_ex_iff)
  moreover have "render sep log \<noteq> ''''"
    using a(3) by (intro render_not_empty) (auto simp: shows_entry_def of_kind_def)
  ultimately show "\<exists>str n evs. QueryEvents a q m = ((str, None), n) \<and> str \<noteq> '''' \<and>
      parseEventsAll str = Ok evs \<and> list_ex wanted evs"
    using a(1) e(1) by blast
qed


text \<open>A canister whose log is always that of the example run.\<close>

lemma demo_batch_shown:
  assumes "\<And>m. QueryEvents a q m = ((render '', '' demo_batch, None), m)"
  shows "always_logs a q (shows_entry False 3)" and "always_logs a q (shows_entry True 5)"
proof -
  let ?g = "(''1'', [''000''])"
  have k: "of_kind True demo_batch = [demo_entry True 5 ?g]" "of_kind False demo_batch = [demo_entry False 3 ?g]"
    by (simp_all add: demo_batch_def of_kind_def demo_entry_def)
  have e: "wf_entry (demo_entry c v ?g)" "two_grouped (demo_entry c v ?g)" "fits (demo_entry c v ?g)" for c v
    using demo_entry_wf [of c v] by blast+
  have n: "newest [e] = e" for e by (simp add: newest_def first_max_def)
  have "readable demo_batch" by (simp add: readable_def k) (simp add: demo_batch_def e)
  moreover have "copy_into 32 (en_cid (demo_entry c v ?g)) \<noteq> zeroCID" "en_version (demo_entry c v ?g) = v" for c v
    by (simp_all add: demo_entry_def zeroCID_def)
  ultimately have "shows_entry False 3 demo_batch" "shows_entry True 5 demo_batch"
    by (simp_all add: shows_entry_def k n)
  then show "always_logs a q (shows_entry False 3)" "always_logs a q (shows_entry True 5)"
    unfolding always_logs_def using demo_sep assms by blast+
qed

lemma batch_agent_query: "QueryEvents batch_agent q m = ((render '', '' demo_batch, None), m)"
  by (simp add: QueryEvents_def batch_agent_def failing_agent_def)


section \<open>What is accepted was logged\<close>

text \<open>
  A canister that answers with a log: what it gives for a query, if anything, is the text of a
  log it may have, with amounts printed in two groups.
\<close>

definition writes_logs :: "'w icAgent \<Rightarrow> ChannelTime \<Rightarrow> (log_entry list \<Rightarrow> bool) \<Rightarrow> bool" where
  "writes_logs a q logs \<longleftrightarrow> (\<forall>str. answered a q str \<longrightarrow> str = '''' \<or>
     (\<exists>sep log. str = render sep log \<and> logs log \<and> wf_sep sep \<and> list_all wf_entry log \<and>
        list_all two_grouped log \<and> list_all fits log))"

lemma parse_empty: "parseEventsAll '''' = Ok []"
proof -
  have "find_all (ChannelIDPattern p) '''' = []" for p
    by (simp add: ChannelIDPattern_def find_all.simps)
  then show ?thesis
    by (simp add: parseEventsAll_def parseEventsConcluded_def parseEventsDisputed_def parseAdjEvents_def
        adj_patterns_def zero_event_def alias_loop_def)
qed

lemma received_logged:
  assumes "writes_logs a q logs" and "sub_inv a q xs s" and "SelEvent (Some ev) \<in> set xs"
  shows "\<exists>log c. logs log \<and> of_kind c log \<noteq> [] \<and>
    ev = (if c then Concluded else Disputed) (entry_event (newest (of_kind c log)))"
proof -
  have "ev \<in> set (delivered xs)" using assms(3) by (force simp: delivered_def)
  then obtain str evs where str: "answered a q str" "parseEventsAll str = Ok evs" "ev \<in> set evs"
    using received_batch [OF assms(2)] by fastforce
  then obtain sep log where l: "str = render sep log" "logs log" "wf_sep sep" "list_all wf_entry log"
    "list_all two_grouped log" "list_all fits log"
    using assms(1) by (auto simp: writes_logs_def parse_empty)
  have p: "parseEventsConcluded str = log_result (of_kind True log)"
    "parseEventsDisputed str = log_result (of_kind False log)"
    unfolding l(1) by (rule parse_readable [OF l(3-6)])+
  obtain cs ds where cd: "parseEventsConcluded str = Ok cs" "parseEventsDisputed str = Ok ds"
    and evs: "evs = map Concluded cs @ map Disputed ds"
    using str(2) parse_at_most_one [of str] by (auto simp: parseEventsAll_def alias_loop_single)
  with str(3) consider d where "ev = Concluded d" "d \<in> set cs" | d where "ev = Disputed d" "d \<in> set ds"
    by auto
  then show ?thesis
  proof cases
    case 1
    with log_result_event [of "of_kind True log" cs d] p(1) cd(1) l(2) show ?thesis
      by (intro exI [of _ log] exI [of _ True]) simp
  next
    case 2
    with log_result_event [of "of_kind False log" ds d] p(2) cd(2) l(2) show ?thesis
      by (intro exI [of _ log] exI [of _ False]) simp
  qed
qed

text \<open>
  Property C17 (accepted_event_was_logged): goroutine, parser and waiting loops together: if the
  canister answers the subscription's query with its logs, then a dispute that \<open>waitForDisputed\<close>
  accepts, after any interleaving, stands in one of them, has at least the version waited for and
  is the newest dispute of that log, and a conclusion that \<open>waitForConcluded\<close> accepts is the newest
  conclusion of a log.
\<close>

theorem accepted_event_was_logged:
  assumes "execution a (NewAdjudicatorSub cid t n) xs s"
    and "writes_logs a \<lparr>ct_channel = cid, ct_time = t\<rparr> logs"
  shows "(disputed_loop v xs = Ok () \<longrightarrow>
      (\<exists>log e. logs log \<and> e \<in> set (of_kind False log) \<and> v \<le> en_version e \<and>
         (\<forall>e'\<in>set (of_kind False log). en_version e' \<le> en_version e))) \<and>
    (concluded_loop xs = Ok () \<longrightarrow>
      (\<exists>log e. logs log \<and> e \<in> set (of_kind True log) \<and>
         (\<forall>e'\<in>set (of_kind True log). en_version e' \<le> en_version e)))"
proof -
  note rec = received_logged [OF assms(2) execution_inv [OF assms(1) sub_inv_new]]
  show ?thesis
  proof (intro conjI impI)
    assume "disputed_loop v xs = Ok ()"
    then obtain pre d post where xs: "xs = pre @ SelEvent (Some (Disputed d)) # post" and v: "v \<le> ev_version d"
      unfolding disputed_Ok_iff by blast
    then have "SelEvent (Some (Disputed d)) \<in> set xs" by simp
    from rec [OF this] obtain log where log: "logs log" "of_kind False log \<noteq> []"
      and d: "d = entry_event (newest (of_kind False log))"
      by (auto split: if_splits)
    from v d have "v \<le> en_version (newest (of_kind False log))" by (simp add: entry_event_def)
    with log newest_max [OF log(2)] show "\<exists>log e. logs log \<and> e \<in> set (of_kind False log) \<and> v \<le> en_version e \<and>
         (\<forall>e'\<in>set (of_kind False log). en_version e' \<le> en_version e)"
      by blast
  next
    assume "concluded_loop xs = Ok ()"
    then obtain pre d post where "xs = pre @ SelEvent (Some (Concluded d)) # post"
      unfolding concluded_Ok_iff by blast
    then have "SelEvent (Some (Concluded d)) \<in> set xs" by simp
    from rec [OF this] obtain log where log: "logs log" "of_kind True log \<noteq> []"
      by (auto split: if_splits)
    with newest_max [OF log(2)] show "\<exists>log e. logs log \<and> e \<in> set (of_kind True log) \<and>
         (\<forall>e'\<in>set (of_kind True log). en_version e' \<le> en_version e)"
      by blast
  qed
qed

lemma demo_writes_logs:
  assumes "\<And>m. QueryEvents a q m = ((render '', '' demo_batch, None), m)"
  shows "writes_logs a q (\<lambda>log. log = demo_batch)"
proof -
  have "str = render '', '' demo_batch" if "answered a q str" for str
    using that assms by (auto simp: answered_def)
  then show ?thesis
    using demo_sep demo_entry_wf unfolding writes_logs_def demo_batch_def by fastforce
qed

theorem accepted_event_was_logged_witness:
  "\<exists>xs e. concluded_loop xs = Ok () \<and> e \<in> set (of_kind True demo_batch)"
proof -
  obtain s e where ex: "execution batch_agent (NewAdjudicatorSub [1] 5 ()) [SelEvent (Some (Concluded e))] s"
    using demo_execution by blast
  have "concluded_loop [SelEvent (Some (Concluded e))] = Ok ()" by simp
  with accepted_event_was_logged [OF ex demo_writes_logs [OF batch_agent_query], of 0] show ?thesis by blast
qed

section \<open>Registering a channel\<close>

text \<open>
  Property C9 (register_end_to_end): when \<open>Register\<close> succeeds for a state that is not final, no
  sub-channels were given, the canister confirmed a dispute whose channel, version, allocation,
  finality and signatures are those of the transaction, and, if it answers the subscription with
  its logs, one of them has a dispute with at least that version. The wait is the one of the
  subscription's own goroutine, under any interleaving.
\<close>

theorem register_end_to_end:
  assumes "fst (Register env a req nstates w) = Ok ()" and "\<not> ps_final (ar_state req)"
    and "execution (con_agent (adj_conn a)) (NewAdjudicatorSub (pp_id (ar_params req)) t n) (ae_sels env) s"
    and "writes_logs (con_agent (adj_conn a)) \<lparr>ct_channel = pp_id (ar_params req), ct_time = t\<rparr> logs"
  shows "nstates = 0 \<and>
    (\<exists>q n'. Dispute (con_agent (adj_conn a)) q (aw_net w) = ((DisputeSuccess, None), n') \<and>
       aq_channel q = pp_id (ar_params req) \<and> aq_version q = ps_version (ar_state req) \<and>
       [aq_allocation q] = take 1 (al_balances (ps_alloc (ar_state req))) \<and>
       aq_finalized q = False \<and> aq_sigs q = ar_sigs req \<and>
       MakeParts (pp_parts (ar_params req)) = Ok (aq_participants q)) \<and>
    (\<exists>log e. logs log \<and> e \<in> set (of_kind False log) \<and> ps_version (ar_state req) \<le> en_version e)"
proof -
  let ?v = "ps_version (ar_state req)"
  have n0: "nstates = 0" and d: "fst (dispute env a req (pp_id (ar_params req)) w) = Ok ()"
    using assms(1,2) unfolding register_branches by (auto split: if_splits)
  from d obtain q n' pre ev post where q: "MakeAdjReq req = Ok q"
    and resp: "Dispute (con_agent (adj_conn a)) q (aw_net w) = ((DisputeSuccess, None), n')"
    and ev: "ae_sels env = pre @ SelEvent (Some (Disputed ev)) # post" "?v \<le> ev_version ev"
    unfolding dispute_Ok by blast
  have "SelEvent (Some (Disputed ev)) \<in> set (ae_sels env)" using ev(1) by simp
  from received_logged [OF assms(4) execution_inv [OF assms(3) sub_inv_new] this]
  obtain log where log: "logs log" "of_kind False log \<noteq> []" "ev = entry_event (newest (of_kind False log))"
    by (auto split: if_splits)
  have "?v \<le> en_version (newest (of_kind False log))" using ev(2) log(3) by (simp add: entry_event_def)
  with log newest_max(1) [OF log(2)]
  have "\<exists>log e. logs log \<and> e \<in> set (of_kind False log) \<and> ?v \<le> en_version e" by blast
  moreover have "aq_channel q = pp_id (ar_params req) \<and> aq_version q = ?v \<and>
      [aq_allocation q] = take 1 (al_balances (ps_alloc (ar_state req))) \<and> aq_finalized q = False \<and>
      aq_sigs q = ar_sigs req \<and> MakeParts (pp_parts (ar_params req)) = Ok (aq_participants q)"
    using q assms(2) by (auto simp: MakeAdjReq_Ok)
  ultimately show ?thesis using n0 resp by blast
qed

text \<open>A canister that confirms disputes and has the example log, and a state that is not final.\<close>

definition reg_agent :: "unit icAgent" where
  "reg_agent = batch_agent\<lparr>ag_call := (\<lambda>mode p m args w.
     (Inr (RText (if m = ''dispute'' then DisputeSuccess else render '', '' demo_batch)), w))\<rparr>"

definition reg_adj :: "unit Adjudicator" where
  "reg_adj = NewAdjudicator (replicate 32 1) ((demo_conn demo_ok)\<lparr>con_agent := reg_agent\<rparr>)"

definition reg_req :: "(unit, unit) AdjReq" where
  "reg_req = demo_areq\<lparr>ar_state := ps_demo\<lparr>ps_version := 3, ps_final := False\<rparr>\<rparr>"

lemma reg_agent_query: "QueryEvents reg_agent q m = ((render '', '' demo_batch, None), m)"
  by (simp add: QueryEvents_def reg_agent_def batch_agent_def failing_agent_def)

lemma reg_dispute: "Dispute reg_agent q m = ((DisputeSuccess, None), m)"
  by (simp add: Dispute_def reg_agent_def batch_agent_def failing_agent_def)

theorem register_end_to_end_witness:
  "\<exists>xs. fst (Register (demo_aenv\<lparr>ae_sels := xs\<rparr>) reg_adj reg_req 0 \<lparr>aw_net = (), aw_subs = []\<rparr>) = Ok () \<and>
     (\<exists>e\<in>set (of_kind False demo_batch). 3 \<le> en_version e)"
proof -
  let ?sub = "NewAdjudicatorSub (pp_id (ar_params reg_req)) 5 ()" and ?w = "\<lparr>aw_net = (), aw_subs = []\<rparr>"
  have a: "con_agent (adj_conn reg_adj) = reg_agent" by (simp add: reg_adj_def NewAdjudicator_def demo_conn_def)
  have v: "ps_version (ar_state reg_req) = 3" "\<not> ps_final (ar_state reg_req)" by (simp_all add: reg_req_def)
  have "answers_with reg_agent \<lparr>ct_channel = pp_id (ar_params reg_req), ct_time = 5\<rparr> (wants_dispute 3)"
    by (rule always_logs_answers [OF demo_batch_shown(1) [OF reg_agent_query]]) (simp add: wants_dispute_def)
  from dispute_wait.can_finish [OF execution.start _ this, of "()"]
  obtain xs u where xs: "execution reg_agent ?sub xs u" "disputed_loop 3 xs = Ok ()"
    by (auto simp: NewAdjudicatorSub_def)
  obtain q where q: "MakeAdjReq reg_req = Ok q"
    by (simp add: MakeAdjReq_Ok reg_req_def demo_areq_def pp_demo_def ps_demo_def MakeNonce_range
        Address_MarshalBinary_def)
  have "fst (dispute (demo_aenv\<lparr>ae_sels := xs\<rparr>) reg_adj reg_req (pp_id (ar_params reg_req)) ?w) = Ok ()"
    unfolding dispute_Ok a v using q reg_dispute xs(2) [unfolded disputed_Ok_iff] by fastforce
  then have ok: "fst (Register (demo_aenv\<lparr>ae_sels := xs\<rparr>) reg_adj reg_req 0 ?w) = Ok ()"
    using v(2) by (simp add: Register_def checkRegister_def Let_def)
  have "execution (con_agent (adj_conn reg_adj)) ?sub (ae_sels (demo_aenv\<lparr>ae_sels := xs\<rparr>)) u"
    using xs(1) a by simp
  from register_end_to_end [OF ok v(2) this] demo_writes_logs [OF reg_agent_query]
  have "\<exists>e\<in>set (of_kind False demo_batch). 3 \<le> en_version e" unfolding a v(1) by blast
  with ok show ?thesis by blast
qed

end
