(* ===== verification/SignedStates.thy ===== *)
theory SignedStates
  imports Waiting
begin

text \<open>
  From the accounts' signatures to a concluded channel: what the signatures of honest participants
  on a state are good for (\<open>channel/backend.go\<close> and \<open>fullySignedTx\<close>), what they bind, and how a final
  state that all have signed is concluded and withdrawn (\<open>ensureConcluded\<close>, \<open>isConcluded\<close>,
  \<open>Withdraw\<close> of \<open>channel/adjudicator.go\<close>).
\<close>

section \<open>Signed states\<close>

text \<open>
  What is relied on of ed25519: it accepts its own signatures, and a signature made for one message
  is not accepted for another.
\<close>

definition sig_correct :: "ed25519 \<Rightarrow> bool" where
  "sig_correct ed \<longleftrightarrow> (\<forall>sk m sg. ed_sign ed sk m = Ok sg \<longrightarrow> ed_verify ed (ed_public ed sk) m sg = Ok True)"

definition sig_binding :: "ed25519 \<Rightarrow> bool" where
  "sig_binding ed \<longleftrightarrow> (\<forall>sk m m' sg. ed_sign ed sk m = Ok sg \<longrightarrow>
     ed_verify ed (ed_public ed sk) m' sg = Ok True \<longrightarrow> m = m')"

text \<open>The participants with the private keys \<open>sks\<close> have each signed the state.\<close>

definition signed_by ::
  "('a, 'd) goperun \<Rightarrow> ed25519 \<Rightarrow> 'd pState \<Rightarrow> bytes list \<Rightarrow> bytes list \<Rightarrow> bool" where
  "signed_by gp ed s sks sigs \<longleftrightarrow> list_all2 (\<lambda>sk sg. Sign gp (Account_SignData ed sk) s = Ok sg) sks sigs"

text \<open>go-perun's \<open>channel.Verify\<close> with this repository's two backends registered.\<close>

definition channel_Verify ::
  "('a, 'd) goperun \<Rightarrow> ed25519 \<Rightarrow> paddr \<Rightarrow> 'd pState \<Rightarrow> bytes \<Rightarrow> bool res" where
  "channel_Verify gp ed p s sg = Verify gp (VerifySignature ed) p s sg"

lemma Sign_row:
  "Sign gp (Account_SignData ed sk) s = Ok sg \<longleftrightarrow>
     (\<exists>row data. valid_row gp s row \<and> gp_data gp (ps_data s) = Ok data \<and> ed_sign ed sk (row_bytes s row) = Ok sg)"
  unfolding sign_only_valid Account_SignData_def by blast

lemma Verify_row:
  "channel_Verify gp ed (Account_Address ed sk) s sg = Ok True \<longleftrightarrow>
     (\<exists>row data. valid_row gp s row \<and> gp_data gp (ps_data s) = Ok data \<and>
        ed_verify ed (ed_public ed sk) (row_bytes s row) sg = Ok True)"
proof -
  have "VerifySignature ed m sg (Account_Address ed sk) = Ok True \<longleftrightarrow> ed_verify ed (ed_public ed sk) m sg = Ok True" for m
    by (auto simp: VerifySignature_def Account_Address_def split: res.split)
  then have "channel_Verify gp ed (Account_Address ed sk) s sg = Ok True \<longleftrightarrow>
     (\<exists>row data. valid_row gp s row \<and> gp_data gp (ps_data s) = Ok data \<and>
        ed_verify ed (ed_public ed sk) (state_bytes (row_state s row data)) sg = Ok True)"
    unfolding channel_Verify_def Verify_def res_bind_eq_Ok StateForChain_iff by blast
  then show ?thesis by (auto simp: state_bytes_row cong: conj_cong)
qed

lemma valid_row_unique: "valid_row gp s row \<Longrightarrow> valid_row gp s row' \<Longrightarrow> row = row'"
  by (simp add: valid_row_def)

lemma signed_verifies:
  "sig_correct ed \<Longrightarrow> Sign gp (Account_SignData ed sk) s = Ok sg \<Longrightarrow>
     channel_Verify gp ed (Account_Address ed sk) s sg = Ok True"
  unfolding Sign_row Verify_row sig_correct_def by blast

lemma honest_fully_signed:
  assumes "sig_correct ed" and "signed_by gp ed s sks sigs"
  shows "fullySignedTx (channel_Verify gp ed) s sigs (map (Account_Address ed) sks) = Ok ()"
  unfolding fully_signed list_all2_map1
  using assms(2) signed_verifies [OF assms(1)] unfolding signed_by_def by (rule list_all2_mono)

text \<open>What two states with the same bytes have in common.\<close>

lemma same_row_bytes:
  fixes s s' :: "'d pState"
  assumes "row_bytes s row = row_bytes s' row'" and "length (ps_id s) = 32" and "length (ps_id s') = 32"
  shows "ps_id s = ps_id s'" and "ps_version s = ps_version s'" and "ps_final s = ps_final s'"
    and "concat (map (\<lambda>b. nat_le (nat b)) row) = concat (map (\<lambda>b. nat_le (nat b)) row')"
proof -
  let ?f = "\<lambda>s :: 'd pState. (if ps_final s then [1] else [0]) :: bytes"
    and ?r = "\<lambda>row :: int list. concat (map (\<lambda>b. nat_le (nat b)) row)"
  have "ps_id s = ps_id s' \<and> put_u64 (ps_version s) = put_u64 (ps_version s') \<and>
      ?r row @ ?f s = ?r row' @ ?f s'"
    using assms by (simp add: row_bytes_def append_eq_append_conv)
  then show "ps_id s = ps_id s'" "ps_version s = ps_version s'" "ps_final s = ps_final s'" "?r row = ?r row'"
    by (auto split: if_splits)
qed

lemma same_widths_row:
  assumes "concat (map (\<lambda>b. nat_le (nat b)) row') = concat (map (\<lambda>b. nat_le (nat b)) row)"
    and "map (\<lambda>b. length (nat_le (nat b))) row' = map (\<lambda>b. length (nat_le (nat b))) row"
    and "\<forall>b\<in>set row. 0 \<le> b" and "\<forall>b\<in>set row'. 0 \<le> b"
  shows "row' = row"
proof -
  have w: "map length (map (\<lambda>b. nat_le (nat b)) row') = map length (map (\<lambda>b. nat_le (nat b)) row)"
    using assms(2) by (simp add: comp_def)
  have "map (\<lambda>b. nat_le (nat b)) row' = map (\<lambda>b. nat_le (nat b)) row"
    using concat_same_widths [OF w] assms(1) by blast
  then have "map nat_le (map nat row') = map nat_le (map nat row)" by (simp add: comp_def)
  then have m: "map nat row' = map nat row" by (rule map_injective) (simp add: inj_def)
  have "map int (map nat r) = r" if "\<forall>b\<in>set r. 0 \<le> b" for r
    using that by (simp add: comp_def map_idI)
  then show ?thesis using m assms(3,4) by metis
qed

text \<open>
  Property C6 (signatures_bind_state): the signatures of all participants on a state make it a
  fully signed transaction; and they make another state one only if that state has the same
  channel, version and finality, and balances whose encodings run together to the same bytes. Only
  the split between the participants is not bound, and it is bound as well if the encodings have
  the same widths.
\<close>

theorem signatures_bind_state:
  assumes "sig_correct ed" and "sig_binding ed" and "signed_by gp ed s sks sigs" and "sks \<noteq> []"
    and "length (ps_id s) = 32" and "length (ps_id s') = 32"
  shows "fullySignedTx (channel_Verify gp ed) s sigs (map (Account_Address ed) sks) = Ok () \<and>
    (fullySignedTx (channel_Verify gp ed) s' sigs (map (Account_Address ed) sks) = Ok () \<longrightarrow>
       (\<exists>row row'. al_balances (ps_alloc s) = [row] \<and> al_balances (ps_alloc s') = [row'] \<and>
          ps_id s' = ps_id s \<and> ps_version s' = ps_version s \<and> ps_final s' = ps_final s \<and>
          concat (map (\<lambda>b. nat_le (nat b)) row') = concat (map (\<lambda>b. nat_le (nat b)) row) \<and>
          (map (\<lambda>b. length (nat_le (nat b))) row' = map (\<lambda>b. length (nat_le (nat b))) row \<longrightarrow> row' = row)))"
proof (intro conjI impI)
  show "fullySignedTx (channel_Verify gp ed) s sigs (map (Account_Address ed) sks) = Ok ()"
    by (rule honest_fully_signed [OF assms(1,3)])
next
  assume other: "fullySignedTx (channel_Verify gp ed) s' sigs (map (Account_Address ed) sks) = Ok ()"
  obtain sk sks' where sks: "sks = sk # sks'" using assms(4) by (cases sks) auto
  then obtain sg sigs' where sg: "sigs = sg # sigs'" "Sign gp (Account_SignData ed sk) s = Ok sg"
    using assms(3) unfolding signed_by_def by (auto simp: list_all2_Cons1)
  from other have "channel_Verify gp ed (Account_Address ed sk) s' sg = Ok True"
    unfolding fully_signed sks sg(1) by simp
  then obtain row' where row': "valid_row gp s' row'" "ed_verify ed (ed_public ed sk) (row_bytes s' row') sg = Ok True"
    unfolding Verify_row by blast
  from sg(2) obtain row where row: "valid_row gp s row" "ed_sign ed sk (row_bytes s row) = Ok sg"
    unfolding Sign_row by blast
  have "row_bytes s row = row_bytes s' row'"
    using assms(2) row(2) row'(2) unfolding sig_binding_def by blast
  from same_row_bytes [OF this assms(5,6)]
  have eq: "ps_id s' = ps_id s" "ps_version s' = ps_version s" "ps_final s' = ps_final s"
    "concat (map (\<lambda>b. nat_le (nat b)) row') = concat (map (\<lambda>b. nat_le (nat b)) row)" by simp_all
  moreover have "row' = row"
    if "map (\<lambda>b. length (nat_le (nat b))) row' = map (\<lambda>b. length (nat_le (nat b))) row"
    using same_widths_row [OF eq(4) that] row(1) row'(1) by (auto simp: valid_row_def)
  ultimately show "\<exists>row row'. al_balances (ps_alloc s) = [row] \<and> al_balances (ps_alloc s') = [row'] \<and>
      ps_id s' = ps_id s \<and> ps_version s' = ps_version s \<and> ps_final s' = ps_final s \<and>
      concat (map (\<lambda>b. nat_le (nat b)) row') = concat (map (\<lambda>b. nat_le (nat b)) row) \<and>
      (map (\<lambda>b. length (nat_le (nat b))) row' = map (\<lambda>b. length (nat_le (nat b))) row \<longrightarrow> row' = row)"
    using row(1) row'(1) by (auto simp: valid_row_def)
qed

section \<open>Concluding and withdrawing a final state\<close>

text \<open>The log of the canister shows a conclusion of the channel at the version.\<close>

definition conclusion_listed :: "'w icAgent \<Rightarrow> bytes \<Rightarrow> u64 \<Rightarrow> 'w \<Rightarrow> 'w \<Rightarrow> bool" where
  "conclusion_listed ag cid v n n' \<longleftrightarrow> (\<exists>str evs. QueryEvents ag \<lparr>ct_channel = cid, ct_time = 0\<rparr> n = ((str, None), n') \<and>
     ParseEventsConcluded str = Ok evs \<and> list_ex (\<lambda>ev. ev_version ev = v \<and> ev_id ev = cid) evs)"

lemma match_event_ex: "match_event evs v cid \<longleftrightarrow> list_ex (\<lambda>ev. ev_version ev = v \<and> ev_id ev = cid) evs"
  by (induction evs) auto

lemma queryAndMatch_True:
  "queryAndMatchEvents ag cid v n = (Ok True, n') \<longleftrightarrow> conclusion_listed ag cid v n n'"
  by (auto simp: queryAndMatchEvents_def conclusion_listed_def match_event_ex
      split: prod.splits option.splits res.splits if_splits)

text \<open>
  How a call of \<open>conclude\<close> ends well, leaving the network in state \<open>n'\<close>: the canister concludes and a
  conclusion event comes; or it refuses and its log has the conclusion of the other participant.
\<close>

definition concludes :: "('w, 'd) aenv \<Rightarrow> 'w icAgent \<Rightarrow> AdjRequest \<Rightarrow> 'w \<Rightarrow> 'w \<Rightarrow> bool" where
  "concludes env ag q n n' \<longleftrightarrow> (\<exists>resp m. Conclude ag q n = ((resp, None), m) \<and>
     (if resp = ResponseErrorConcludingChannel then conclusion_listed ag (aq_channel q) (aq_version q) m n'
      else concluded_loop (ae_sels env) = Ok () \<and> n' = ae_polled env m))"

lemma isConcluded_Ok:
  "(\<exists>w1. isConcluded env a (pp_id (ar_params req)) req w = (Ok b, w1) \<and> aw_net w1 = n') \<longleftrightarrow>
     b \<and> (\<exists>q. MakeAdjReq req = Ok q \<and> concludes env (con_agent (adj_conn a)) q (aw_net w) n')"
proof (cases "MakeAdjReq req")
  case (Ok q)
  let ?ag = "con_agent (adj_conn a)" and ?cid = "pp_id (ar_params req)"
  obtain i w0 where o: "open_sub w = (i, w0)" by (cases "open_sub w")
  have n0: "aw_net w0 = aw_net w" using open_sub_simps(3) [of w] o by simp
  have q: "aq_channel q = ?cid" "aq_version q = ps_version (ar_state req)" using Ok by (auto simp: MakeAdjReq_Ok)
  obtain resp oe m where c: "Conclude ?ag q (aw_net w) = ((resp, oe), m)" by (metis surj_pair)
  show ?thesis
  proof (cases "oe = None")
    case True
    show ?thesis
    proof (cases "resp = ResponseErrorConcludingChannel")
      case refused: True
      obtain r m' where qm: "queryAndMatchEvents ?ag ?cid (ps_version (ar_state req)) m = (r, m')" by (metis surj_pair)
      have "concludes env ?ag q (aw_net w) n' \<longleftrightarrow> r = Ok True \<and> m' = n'"
        using qm queryAndMatch_True [of ?ag ?cid "ps_version (ar_state req)" m n']
        by (simp add: concludes_def c True refused q)
      then show ?thesis
        by (cases r) (auto simp: isConcluded_def Let_def o Ok n0 c True refused qm split: bool.splits)
    next
      case False
      obtain r w2 where wt: "waitForConcluded env i (w0\<lparr>aw_net := m\<rparr>) = (r, w2)" by (metis surj_pair)
      then have "r = concluded_loop (ae_sels env)" "aw_net w2 = ae_polled env m"
        by (auto simp: waitForConcluded_def Let_def split: if_splits)
      then show ?thesis using False
        by (auto simp: isConcluded_def Let_def o Ok n0 c True wt concludes_def split: res.splits)
    qed
  qed (auto simp: isConcluded_def Let_def o Ok n0 c concludes_def)
qed (auto simp: isConcluded_def Let_def open_sub_def)

lemma ensureConcluded_final:
  assumes "ps_final (ar_state req)"
    and "fullySignedTx (ae_verify env) (ar_state req) (ar_sigs req) (pp_parts (ar_params req)) = Ok ()"
  shows "(\<exists>w1. ensureConcluded env a req (pp_id (ar_params req)) w = (Ok b, w1) \<and> aw_net w1 = n') \<longleftrightarrow>
     b \<and> (\<exists>q. MakeAdjReq req = Ok q \<and> concludes env (con_agent (adj_conn a)) q (aw_net w) n')"
proof (cases "MakeNonce (pp_nonce (ar_params req))")
  case (Ok nonce)
  then have "ensureConcluded env a req (pp_id (ar_params req)) w =
      (case isConcluded env a (pp_id (ar_params req)) req w of (Ok c, w1) \<Rightarrow> (Ok True, w1) | r \<Rightarrow> r)"
    using assms by (simp add: ensureConcluded_def Let_def split: prod.split res.split)
  moreover have "fst (isConcluded env a (pp_id (ar_params req)) req w) \<noteq> Ok False"
    using ensure_concluded_true by blast
  ultimately have "ensureConcluded env a req (pp_id (ar_params req)) w =
      isConcluded env a (pp_id (ar_params req)) req w"
    by (auto split: prod.splits res.splits)
  then show ?thesis using isConcluded_Ok by metis
qed (use assms in \<open>auto simp: ensureConcluded_def Let_def MakeAdjReq_Ok\<close>)

text \<open>
  The withdrawal of the own share to the own L1 account, signed by the own key over channel, key
  and account, is confirmed by the canister.
\<close>

definition withdrawal_confirmed :: "('w, 'd) aenv \<Rightarrow> 'w Adjudicator \<Rightarrow> bytes \<Rightarrow> 'w \<Rightarrow> bool" where
  "withdrawal_confirmed env a cid n \<longleftrightarrow>
     (let pk = ed_public (ae_ed env) (adj_acc a); l1 = con_l1 (adj_conn a) in
      \<exists>sig n'. ed_sign (ae_ed env) (adj_acc a) (cid @ pk @ l1) = Ok sig \<and>
        Withdraw (con_agent (adj_conn a))
          \<lparr>wr_channel = cid, wr_participant = pk, wr_receiver = l1, wr_sig = sig, wr_time = unix env n\<rparr> n =
          ((WithdrawalSuccessResponse, None), n'))"

lemma withdraw_confirmed:
  "fst (Adjudicator_Withdraw env a req w) = Ok () \<longleftrightarrow>
     (\<exists>b n. (\<exists>w1. ensureConcluded env a req (pp_id (ar_params req)) w = (Ok b, w1) \<and> aw_net w1 = n) \<and>
        withdrawal_confirmed env a (pp_id (ar_params req)) n)"
  unfolding withdraw_Ok withdrawal_confirmed_def MakeWithdrawalReq_Ok Let_def by blast

lemma ensureConcluded_open:
  assumes "\<not> ps_final (ar_state req)"
  shows "(\<exists>w1. ensureConcluded env a req (pp_id (ar_params req)) w = (Ok b, w1) \<and> aw_net w1 = n') \<longleftrightarrow>
     b \<and> (\<exists>nonce. MakeNonce (pp_nonce (ar_params req)) = Ok nonce \<and>
       dispute_concluded env (con_agent (adj_conn a)) req nonce (aw_net w) n')"
proof (cases "MakeNonce (pp_nonce (ar_params req))")
  case (Ok nonce)
  have "(\<exists>w1. ensureConcluded env a req (pp_id (ar_params req)) w = (Ok b, w1) \<and> aw_net w1 = n') \<longleftrightarrow>
      b \<and> (\<exists>w1. checkDisputes env a req nonce w = (Ok (), w1) \<and> aw_net w1 = n')"
    using assms by (auto simp: ensureConcluded_def Let_def Ok split: prod.splits res.splits)
  then show ?thesis unfolding checkDisputes_Ok using Ok by auto
qed (use assms in \<open>auto simp: ensureConcluded_def Let_def\<close>)

text \<open>
  Property C7 (final_state_withdraws): for a final state with the signatures of all participants,
  nothing but the outside can keep \<open>Withdraw\<close> from succeeding: it does so exactly if the nonce is in
  range, the canister concludes the channel at exactly the signed state (or shows that the other
  participant has), the curve library signs the withdrawal, and the canister confirms it. The
  withdrawal goes to the own L1 account, in the own name.
\<close>

theorem final_state_withdraws:
  assumes "sig_correct (ae_ed env)" and "ae_verify env = channel_Verify gp (ae_ed env)"
    and "pp_parts (ar_params req) = map (Account_Address (ae_ed env)) (sk # sks)"
    and "signed_by gp (ae_ed env) (ar_state req) (sk # sks) (ar_sigs req)" and "ps_final (ar_state req)"
  shows "(fst (Adjudicator_Withdraw env a req w) = Ok ()) =
    (\<exists>row nonce n. al_balances (ps_alloc (ar_state req)) = [row] \<and>
       MakeNonce (pp_nonce (ar_params req)) = Ok nonce \<and>
       concludes env (con_agent (adj_conn a))
         \<lparr>aq_nonce = nonce, aq_participants = map (ed_public (ae_ed env)) (sk # sks),
          aq_challenge = pp_challenge (ar_params req), aq_channel = pp_id (ar_params req),
          aq_version = ps_version (ar_state req), aq_allocation = row, aq_finalized = True,
          aq_sigs = ar_sigs req\<rparr> (aw_net w) n \<and>
       withdrawal_confirmed env a (pp_id (ar_params req)) n)"
    (is "?L = ?R")
proof -
  let ?ed = "ae_ed env" and ?ag = "con_agent (adj_conn a)" and ?cid = "pp_id (ar_params req)"
  have full: "fullySignedTx (ae_verify env) (ar_state req) (ar_sigs req) (pp_parts (ar_params req)) = Ok ()"
    unfolding assms(2,3) by (rule honest_fully_signed [OF assms(1,4)])
  from assms(4) obtain sg where "Sign gp (Account_SignData ?ed sk) (ar_state req) = Ok sg"
    unfolding signed_by_def by (auto simp: list_all2_Cons1)
  then obtain row where row: "al_balances (ps_alloc (ar_state req)) = [row]"
    unfolding Sign_row valid_row_def by blast
  have parts: "MakeParts (pp_parts (ar_params req)) = Ok ps \<longleftrightarrow> ps = map (ed_public ?ed) (sk # sks)" for ps
  proof -
    have "list_all2 (\<lambda>p b. MarshalBinary p = Ok b) (map (Account_Address ?ed) xs) ps \<longleftrightarrow> ps = map (ed_public ?ed) xs" for xs ps
      by (induction xs arbitrary: ps) (auto simp: list_all2_Cons1 Account_Address_def Address_MarshalBinary_def)
    then show ?thesis unfolding MakeParts_Ok assms(3) .
  qed
  have "?L \<longleftrightarrow> (\<exists>n q. MakeAdjReq req = Ok q \<and> concludes env ?ag q (aw_net w) n \<and> withdrawal_confirmed env a ?cid n)"
    unfolding withdraw_confirmed ensureConcluded_final [OF assms(5) full] by blast
  also have "\<dots> \<longleftrightarrow> ?R"
    unfolding MakeAdjReq_Ok parts using row assms(5) by auto
  finally show ?thesis .
qed


text \<open>
  Property C36 (forgotten_channel_panics): on the same path, if the canister no longer knows the
  channel when the registered version is read again after the conclusion, \<open>Withdraw\<close> panics: the
  second answer is used without the check for nil that the first one gets.
\<close>

theorem forgotten_channel_panics:
  assumes "\<not> ps_final (ar_state req)" and "MakeNonce (pp_nonce (ar_params req)) = Ok nonce"
    and "QueryState (con_agent (adj_conn a)) (pp_id (ar_params req)) (aw_net w) = ((Some qs, None), m)"
    and "cs_version (rs_state qs) \<le> ps_version (ar_state req)" and "conclude_args env req nonce qs m = Ok q"
    and "Conclude (con_agent (adj_conn a)) q m = ((resp, None), m2)" and "concluded_loop (ae_sels env) = Ok ()"
    and "QueryState (con_agent (adj_conn a)) (pp_id (ar_params req)) (ae_polled env m2) = ((None, None), n)"
  shows "fst (Adjudicator_Withdraw env a req w) = Panic ''nil pointer dereference''"
proof -
  obtain i w2 where o: "open_sub (w\<lparr>aw_net := m2\<rparr>) = (i, w2)" by (metis surj_pair)
  have w2: "aw_net w2 = m2" using open_sub_simps(3) [of "w\<lparr>aw_net := m2\<rparr>"] o by simp
  obtain r w3 where wt: "waitForConcluded env i w2 = (r, w3)" by (metis surj_pair)
  have "r = Ok ()" "aw_net w3 = ae_polled env m2"
    using waitForConcluded_subs [OF wt] waitForConcluded_net [OF wt] w2 assms(7) by simp_all
  then have "fst (checkDisputes env a req nonce w) = Panic ''nil pointer dereference''"
    using assms(3-6,8) by (simp add: checkDisputes_def Let_def o wt check_final_version_def not_less [symmetric])
  then have "fst (ensureConcluded env a req (pp_id (ar_params req)) w) = Panic ''nil pointer dereference''"
    using assms(1,2) by (auto simp: ensureConcluded_def Let_def split: prod.splits res.splits)
  then show ?thesis
    by (auto simp: Adjudicator_Withdraw_def Let_def split: prod.splits res.splits)
qed

section \<open>Concrete instances\<close>

lemma ed_plain_ok: "sig_correct ed_plain" "sig_binding ed_plain"
  by (auto simp: sig_correct_def sig_binding_def ed_plain_def)

text \<open>Two participants sign the example state; each signature of \<open>ed_plain\<close> is key and message.\<close>

definition demo_sks :: "bytes list" where
  "demo_sks = [replicate 32 1, replicate 32 2]"

definition demo_sigs :: "bytes list" where
  "demo_sigs = map (\<lambda>sk. sk @ row_bytes ps_demo [1, 514]) demo_sks"

lemma demo_signed: "signed_by gp_demo ed_plain ps_demo demo_sks demo_sigs"
proof -
  have "valid_row gp_demo ps_demo [1, 514]" by (simp add: valid_row_def gp_demo_def ps_demo_def)
  then have "Sign gp_demo (Account_SignData ed_plain sk) ps_demo = Ok (sk @ row_bytes ps_demo [1, 514])" for sk
    unfolding Sign_row by (auto simp: gp_demo_def ed_plain_def)
  then show ?thesis by (simp add: signed_by_def demo_sigs_def demo_sks_def)
qed

theorem signatures_bind_state_witness:
  "fullySignedTx (channel_Verify gp_demo ed_plain) ps_demo demo_sigs (map (Account_Address ed_plain) demo_sks) = Ok () \<and>
   fullySignedTx (channel_Verify gp_demo ed_plain) (ps_demo\<lparr>ps_version := 5\<rparr>) demo_sigs
     (map (Account_Address ed_plain) demo_sks) \<noteq> Ok ()"
proof -
  have "demo_sks \<noteq> []" "length (ps_id ps_demo) = 32" "length (ps_id (ps_demo\<lparr>ps_version := 5\<rparr>)) = 32"
    "ps_version (ps_demo\<lparr>ps_version := 5\<rparr>) \<noteq> ps_version ps_demo"
    by (simp_all add: demo_sks_def ps_demo_def)
  then show ?thesis
    using signatures_bind_state [OF ed_plain_ok demo_signed, of "ps_demo\<lparr>ps_version := 5\<rparr>"] by blast
qed

text \<open>A canister that concludes and confirms the withdrawal; its conclusion event arrives.\<close>

definition final_agent :: "unit icAgent" where
  "final_agent = demo_agent\<lparr>ag_call := (\<lambda>mode p m args w.
     (Inr (RText (if m = ''withdraw'' then WithdrawalSuccessResponse else ''concluded'')), w))\<rparr>"

definition final_adj :: "unit Adjudicator" where
  "final_adj = NewAdjudicator (replicate 32 1) ((demo_conn demo_ok)\<lparr>con_agent := final_agent\<rparr>)"

definition final_req :: "(unit, unit) AdjReq" where
  "final_req = demo_areq\<lparr>ar_sigs := demo_sigs\<rparr>"

definition final_env :: "(unit, unit) aenv" where
  "final_env = demo_aenv\<lparr>ae_verify := channel_Verify gp_demo ed_plain,
     ae_sels := [SelDefault, SelEvent (Some (Concluded zero_event))]\<rparr>"

theorem final_state_withdraws_witness:
  "fst (Adjudicator_Withdraw final_env final_adj final_req \<lparr>aw_net = (), aw_subs = []\<rparr>) = Ok ()"
proof -
  have env: "ae_ed final_env = ed_plain" "ae_verify final_env = channel_Verify gp_demo ed_plain"
    "concluded_loop (ae_sels final_env) = Ok ()" "ae_polled final_env n = n" for n
    by (simp_all add: final_env_def demo_aenv_def)
  have req: "pp_parts (ar_params final_req) = map (Account_Address ed_plain) [replicate 32 1, replicate 32 2]"
    "signed_by gp_demo ed_plain (ar_state final_req) [replicate 32 1, replicate 32 2] (ar_sigs final_req)"
    "ps_final (ar_state final_req)" "al_balances (ps_alloc (ar_state final_req)) = [[1, 514]]"
    "\<exists>nonce. MakeNonce (pp_nonce (ar_params final_req)) = Ok nonce"
    using demo_signed by (simp_all add: final_req_def demo_areq_def pp_demo_def Account_Address_def ed_plain_def
        ps_demo_def demo_sks_def MakeNonce_range)
  have ag: "con_agent (adj_conn final_adj) = final_agent" by (simp add: final_adj_def NewAdjudicator_def demo_conn_def)
  have calls: "Conclude final_agent q m = ((''concluded'', None), m)"
    "Withdraw final_agent wq m = ((WithdrawalSuccessResponse, None), m)" for q wq m
    by (simp_all add: Conclude_def Withdraw_def final_agent_def demo_agent_def)
  have ok: "concludes final_env final_agent q () ()" for q
    by (simp add: concludes_def calls env(3,4) ResponseErrorConcludingChannel_def)
  show ?thesis
    by (rule final_state_withdraws [where env = final_env and a = final_adj and gp = gp_demo, unfolded env(1,2) ag,
          OF ed_plain_ok(1) refl req(1,2,3), THEN iffD2])
      (use req(4,5) ok calls in \<open>simp add: withdrawal_confirmed_def env ag ed_plain_def\<close>)
qed

text \<open>A canister with a dispute of version 3 whose timeout is over, for a state that is not final.\<close>

definition open_agent :: "unit icAgent" where
  "open_agent = final_agent\<lparr>ag_call := (\<lambda>mode p m args w.
     (Inr (if m = ''query_state'' then RState (Some \<lparr>rs_state = \<lparr>cs_channel = replicate 32 0, cs_version = 3,
             cs_allocation = [1, 514], cs_finalized = False\<rparr>, rs_timeout = 0\<rparr>)
           else RText (if m = ''withdraw'' then WithdrawalSuccessResponse else ''concluded'')), w))\<rparr>"

definition open_adj :: "unit Adjudicator" where
  "open_adj = NewAdjudicator (replicate 32 1) ((demo_conn demo_ok)\<lparr>con_agent := open_agent\<rparr>)"

definition open_req :: "(unit, unit) AdjReq" where
  "open_req = final_req\<lparr>ar_state := ps_demo\<lparr>ps_version := 3, ps_final := False\<rparr>\<rparr>"

definition open_env :: "(unit, unit) aenv" where
  "open_env = final_env\<lparr>ae_ticks := [Timer 5000000000]\<rparr>"


text \<open>A canister that knows the channel until it concludes it: the network is whether it does.\<close>

definition forgetful_agent :: "bool icAgent" where
  "forgetful_agent = \<lparr>ag_marshal = (\<lambda>c. Inr []),
     ag_call = (\<lambda>mode p m args w.
       if m = ''query_state'' then
         (Inr (RState (if w then Some \<lparr>rs_state = \<lparr>cs_channel = replicate 32 0, cs_version = 3,
             cs_allocation = [1, 514], cs_finalized = False\<rparr>, rs_timeout = 0\<rparr> else None)), w)
       else (Inr (RText ''concluded''), False)),
     ag_canister = [1]\<rparr>"

definition forgetful_adj :: "bool Adjudicator" where
  "forgetful_adj = NewAdjudicator (replicate 32 1) \<lparr>con_agent = forgetful_agent,
     con_ledger = (\<lambda>args w. ((None, None), w)), con_perunID = [1], con_ledgerID = [3], con_l1 = [2],
     con_account_id = (\<lambda>p. p), con_decode = (\<lambda>s. [])\<rparr>"

definition forgetful_env :: "(bool, unit) aenv" where
  "forgetful_env = \<lparr>ae_verify = channel_Verify gp_demo ed_plain, ae_ed = ed_plain, ae_clock = (\<lambda>w. 5000000000),
     ae_ticks = [Timer 5000000000], ae_sels = [SelEvent (Some (Concluded zero_event))], ae_polled = (\<lambda>w. w)\<rparr>"

theorem forgotten_channel_panics_witness:
  "fst (Adjudicator_Withdraw forgetful_env forgetful_adj open_req \<lparr>aw_net = True, aw_subs = []\<rparr>) =
     Panic ''nil pointer dereference''"
proof -
  let ?w = "\<lparr>aw_net = True, aw_subs = []\<rparr>"
  have ag: "con_agent (adj_conn forgetful_adj) = forgetful_agent" by (simp add: forgetful_adj_def NewAdjudicator_def)
  obtain qs where qs: "QueryState forgetful_agent i True = ((Some qs, None), True)" "cs_version (rs_state qs) = 3"
      "rs_timeout qs = 0" for i
    by (simp add: QueryState_def forgetful_agent_def)
  have gone: "QueryState forgetful_agent i False = ((None, None), False)" for i
    by (simp add: QueryState_def forgetful_agent_def)
  have conc: "Conclude forgetful_agent q True = ((''concluded'', None), False)" for q
    by (simp add: Conclude_def forgetful_agent_def)
  have "Wait (MakeTimeout 0 5000000000) [Timer 5000000000] = Ok ()"
    by (simp add: MakeTimeout_def MakeTime_def NewTimeout_def dur_def)
  then obtain q where q: "conclude_args forgetful_env open_req nonce qs True = Ok (q nonce)" for nonce
    by (simp add: conclude_args_def Let_def qs(3) forgetful_env_def open_req_def
        final_req_def demo_areq_def pp_demo_def ps_demo_def Address_MarshalBinary_def adj_MakeAlloc_Ok)
  obtain nonce where "MakeNonce (pp_nonce (ar_params open_req)) = Ok nonce"
    by (simp add: open_req_def final_req_def demo_areq_def pp_demo_def MakeNonce_range)
  moreover have "\<not> ps_final (ar_state open_req)" "cs_version (rs_state qs) \<le> ps_version (ar_state open_req)"
    "concluded_loop (ae_sels forgetful_env) = Ok ()"
    using qs(2) by (simp_all add: open_req_def forgetful_env_def)
  ultimately show ?thesis
    using forgotten_channel_panics [of open_req nonce forgetful_adj ?w qs True forgetful_env "q nonce" "''concluded''"
        False False] qs(1) gone conc q
    by (simp add: ag forgetful_env_def)
qed

end
