(* ===== verification/TestSupport.thy ===== *)
theory TestSupport
  imports SignedStates
begin

text \<open>
  The helpers of the test directories that do more than set up a network:
  \<open>channel/connector/test/setup.go\<close> signs states with an encoding of its own and shuffles balances,
  \<open>channel/test/setup.go\<close> reads the holdings of the accounts from the canister. A failed
  \<open>require\<close> or \<open>Fatal\<close> of a test ends it, like a panic.
\<close>

section \<open>Signing\<close>

primrec NoError :: "'r res \<Rightarrow> 'r res" where
  "NoError (Ok x) = Ok x"
| "NoError (Err e) = Panic ''FailNow''"
| "NoError (Panic m) = Panic m"
| "NoError Hang = Hang"

definition SignState ::
  "('a, 'd) goperun \<Rightarrow> ed25519 \<Rightarrow> bytes list \<Rightarrow> 'd pState \<Rightarrow> bytes list res" where
  "SignState gp ed l2accs state =
     res_bind (NoError (StateForChain gp state)) (\<lambda>stateCan.
     let stateBytes = st_channel stateCan @ Uint64ToBytes (st_version stateCan) @
       balance_bytes (st_balances stateCan) @ BoolToBytes (st_final stateCan)
     in res_bind (go_nth l2accs 0) (\<lambda>acc1.
        res_bind (NoError (Account_SignData ed acc1 stateBytes)) (\<lambda>sig1.
        res_bind (go_nth l2accs 1) (\<lambda>acc2.
        res_bind (NoError (Account_SignData ed acc2 stateBytes)) (\<lambda>sig2.
        Ok [sig1, sig2])))))"

lemma NoError_Ok [simp]: "NoError r = Ok x \<longleftrightarrow> r = Ok x"
  by (cases r) simp_all

text \<open>The helper's encoding is the backend's: it returns what \<open>Sign\<close> returns for the two accounts.\<close>

lemma SignState_Ok:
  "SignState gp ed (a1 # a2 # accs) s = Ok sigs \<longleftrightarrow> signed_by gp ed s [a1, a2] sigs"
  by (auto simp: SignState_def Let_def res_bind_eq_Ok signed_by_def Sign_def state_bytes_def go_nth_def
      list_all2_Cons1)

section \<open>Mixing balances\<close>

text \<open>
  One transfer of \<open>MixBals\<close>, which makes as many as there are balances: the two positions that \<open>math/rand\<close> draws, and the answer of
  \<open>rand.Int\<close>, which itself panics on a bound that is not positive. The entries of the slice are
  taken to be different numbers, as go-perun makes them.
\<close>

record draw =
  dw_from :: nat
  dw_to :: nat
  dw_diff :: "err + int"

definition mix_round :: "draw \<Rightarrow> int list \<Rightarrow> int list res" where
  "mix_round d bals =
     (if bals ! dw_from d \<le> 0 then Panic ''crypto/rand: argument to Int is <= 0''
      else (case dw_diff d of
        Inl e \<Rightarrow> Panic ''rand''
      | Inr diff \<Rightarrow>
          (let b1 = bals[dw_from d := bals ! dw_from d - diff]
           in Ok (b1[dw_to d := b1 ! dw_to d + diff]))))"

fun mix_loop :: "nat \<Rightarrow> draw list \<Rightarrow> int list \<Rightarrow> int list res" where
  "mix_loop 0 ds bals = Ok bals"
| "mix_loop (Suc n) [] bals = Hang"
| "mix_loop (Suc n) (d # ds) bals = res_bind (mix_round d bals) (mix_loop n ds)"

definition MixBals :: "draw list \<Rightarrow> int list \<Rightarrow> int list res" where
  "MixBals ds bals = mix_loop (length bals) ds bals"

text \<open>A draw as the random sources promise it.\<close>

definition fair_draw :: "int list \<Rightarrow> draw \<Rightarrow> bool" where
  "fair_draw bals d \<longleftrightarrow> dw_from d < length bals \<and> dw_to d < length bals \<and>
     (\<forall>diff. dw_diff d = Inr diff \<longrightarrow> 0 \<le> diff \<and> diff < bals ! dw_from d)"

fun fair_draws :: "draw list \<Rightarrow> int list \<Rightarrow> bool" where
  "fair_draws [] bals = True"
| "fair_draws (d # ds) bals \<longleftrightarrow> fair_draw bals d \<and>
     (case mix_round d bals of Ok bals' \<Rightarrow> fair_draws ds bals' | _ \<Rightarrow> True)"

lemma sum_update: "i < length xs \<Longrightarrow> sum_list (xs[i := x]) = sum_list xs - xs ! i + (x :: int)"
proof (induction xs arbitrary: i)
  case (Cons y ys)
  then show ?case by (cases i) auto
qed simp

lemma mix_round_keeps:
  assumes "fair_draw bals d" and "mix_round d bals = Ok bals'"
  shows "sum_list bals' = sum_list bals" and "length bals' = length bals"
    and "list_all (\<lambda>b. 0 \<le> b) bals \<Longrightarrow> list_all (\<lambda>b. 0 \<le> b) bals'"
proof -
  from assms obtain diff where d: "dw_from d < length bals" "dw_to d < length bals" "0 \<le> diff" "diff < bals ! dw_from d"
    and b: "bals' = bals[dw_from d := bals ! dw_from d - diff,
      dw_to d := bals[dw_from d := bals ! dw_from d - diff] ! dw_to d + diff]"
    by (auto simp: mix_round_def fair_draw_def Let_def split: if_splits sum.splits)
  show "sum_list bals' = sum_list bals" "length bals' = length bals"
    using d by (simp_all add: b sum_update)
  show "list_all (\<lambda>b. 0 \<le> b) bals'" if "list_all (\<lambda>b. 0 \<le> b) bals"
    using that d by (auto simp: b list_all_length nth_list_update)
qed

text \<open>Mixing conserves the sum, and no balance becomes negative.\<close>

lemma mix_loop_keeps:
  "fair_draws ds bals \<Longrightarrow> mix_loop n ds bals = Ok bals' \<Longrightarrow>
     sum_list bals' = sum_list bals \<and> length bals' = length bals \<and>
     (list_all (\<lambda>b. 0 \<le> b) bals \<longrightarrow> list_all (\<lambda>b. 0 \<le> b) bals')"
proof (induction n ds bals rule: mix_loop.induct)
  case (3 n d ds bals)
  then obtain b1 where b1: "mix_round d bals = Ok b1" "mix_loop n ds b1 = Ok bals'"
    by (auto simp: res_bind_eq_Ok)
  with "3.prems" have "fair_draw bals d" "fair_draws ds b1" by simp_all
  with "3.IH" [OF this(2) b1(2)] mix_round_keeps [OF this(1) b1(1)] show ?case by simp
qed simp_all

lemma MixBals_keeps:
  "fair_draws ds bals \<Longrightarrow> MixBals ds bals = Ok bals' \<Longrightarrow>
     sum_list bals' = sum_list bals \<and> length bals' = length bals \<and>
     (list_all (\<lambda>b. 0 \<le> b) bals \<longrightarrow> list_all (\<lambda>b. 0 \<le> b) bals')"
  unfolding MixBals_def by (rule mix_loop_keeps)

section \<open>Holdings\<close>

text \<open>
  \<open>GetChannelBalances\<close>: each account's holdings, over its own connection; an unknown holding is
  zero, a nil pointer without an error would be dereferenced.
\<close>

fun GetChannelBalances ::
  "ed25519 \<Rightarrow> bytes \<Rightarrow> bytes list \<Rightarrow> 'w Connector list \<Rightarrow> 'w \<Rightarrow> u64 list res \<times> 'w" where
  "GetChannelBalances ed cid [] conns n = (Ok [], n)"
| "GetChannelBalances ed cid (acc # accs) [] n = (Panic ''index out of range'', n)"
| "GetChannelBalances ed cid (acc # accs) (conn # conns) n =
     (case MarshalBinary (Account_Address ed acc) of
        Err e \<Rightarrow> (Err e, n)
      | Panic m \<Rightarrow> (Panic m, n)
      | Hang \<Rightarrow> (Hang, n)
      | Ok l2Addr \<Rightarrow>
          (case QueryHoldings (con_agent conn) \<lparr>cf_channel = cid, cf_participant = l2Addr\<rparr> n of
             ((_, Some e), n') \<Rightarrow> (Err e, n')
           | ((None, None), n') \<Rightarrow> (Panic ''nil pointer dereference'', n')
           | ((Some bnn, None), n') \<Rightarrow>
               (case GetChannelBalances ed cid accs conns n' of
                  (Ok bals, n'') \<Rightarrow> (Ok ((case bnn of None \<Rightarrow> 0 | Some bn \<Rightarrow> low64 bn) # bals), n'')
                | r \<Rightarrow> r)))"

text \<open>It never panics when there is a connection per account, and returns one balance for each.\<close>

lemma GetChannelBalances_total:
  "length accs \<le> length conns \<Longrightarrow>
     (\<exists>e. fst (GetChannelBalances ed cid accs conns n) = Err e) \<or>
     (\<exists>bals. fst (GetChannelBalances ed cid accs conns n) = Ok bals \<and> length bals = length accs)"
proof (induction accs arbitrary: conns n)
  case (Cons acc accs)
  then obtain conn cs where cs: "conns = conn # cs" "length accs \<le> length cs" by (cases conns) auto
  obtain v oe n' where q: "QueryHoldings (con_agent conn) \<lparr>cf_channel = cid, cf_participant = ed_public ed acc\<rparr> n
      = ((v, oe), n')" by (metis surj_pair)
  have marshal: "MarshalBinary (Account_Address ed acc) = Ok (ed_public ed acc)"
    by (simp add: Account_Address_def Address_MarshalBinary_def)
  obtain r n'' where rest: "GetChannelBalances ed cid accs cs n' = (r, n'')" by fastforce
  with Cons.IH [OF cs(2), of n'] have r: "(\<exists>e. r = Err e) \<or> (\<exists>bals. r = Ok bals \<and> length bals = length accs)"
    by simp
  have "oe = None \<Longrightarrow> v \<noteq> None"
    using q by (auto simp: QueryHoldings_def ErrDecode_def split: sum.splits prod.splits reply.splits)
  with r show ?case
    by (cases oe; cases v) (auto simp: cs(1) marshal q rest)
qed simp

text \<open>The test goes on exactly if the canister of the first connection knows the channel, or does not.\<close>

definition AssertRegistered :: "bytes \<Rightarrow> 'w Connector list \<Rightarrow> 'w \<Rightarrow> unit res \<times> 'w" where
  "AssertRegistered cid conns n =
     (case go_nth conns 0 of
        Ok conn \<Rightarrow> (case QueryState (con_agent conn) cid n of
            ((_, Some e), n') \<Rightarrow> (Panic ''Fatal'', n')
          | ((qs, None), n') \<Rightarrow> (if qs = None then Panic ''Fatal'' else Ok (), n'))
      | Err e \<Rightarrow> (Err e, n)
      | Panic m \<Rightarrow> (Panic m, n)
      | Hang \<Rightarrow> (Hang, n))"

definition AssertNoRegistered :: "bytes \<Rightarrow> 'w Connector list \<Rightarrow> 'w \<Rightarrow> unit res \<times> 'w" where
  "AssertNoRegistered cid conns n =
     (case go_nth conns 0 of
        Ok conn \<Rightarrow> (case QueryState (con_agent conn) cid n of
            ((_, Some e), n') \<Rightarrow> (Panic ''Fatal'', n')
          | ((qs, None), n') \<Rightarrow> (if qs \<noteq> None then Panic ''Fatal'' else Ok (), n'))
      | Err e \<Rightarrow> (Err e, n)
      | Panic m \<Rightarrow> (Panic m, n)
      | Hang \<Rightarrow> (Hang, n))"

text \<open>In one state of the canister at most one of the two lets the test go on.\<close>

lemma asserts_exclude:
  "fst (AssertRegistered cid conns n) = Ok () \<Longrightarrow> fst (AssertNoRegistered cid conns n) \<noteq> Ok ()"
  by (auto simp: AssertRegistered_def AssertNoRegistered_def split: res.splits prod.splits option.splits if_splits)

section \<open>Properties\<close>

text \<open>
  Property C30 (test_signatures_accepted): the test helper's signatures are those of the backend:
  \<open>SignState\<close> returns exactly the pair that \<open>Sign\<close> returns for the two accounts, and the
  adjudicator takes that pair as a full set of signatures of the two.
\<close>

theorem test_signatures_accepted:
  assumes "sig_correct ed"
  shows "(SignState gp ed [sk1, sk2] s = Ok sigs) =
      (\<exists>sig1 sig2. Sign gp (Account_SignData ed sk1) s = Ok sig1 \<and> Sign gp (Account_SignData ed sk2) s = Ok sig2 \<and>
         sigs = [sig1, sig2]) \<and>
    (SignState gp ed [sk1, sk2] s = Ok sigs \<longrightarrow>
       fullySignedTx (channel_Verify gp ed) s sigs [Account_Address ed sk1, Account_Address ed sk2] = Ok ())"
proof
  show "(SignState gp ed [sk1, sk2] s = Ok sigs) =
      (\<exists>sig1 sig2. Sign gp (Account_SignData ed sk1) s = Ok sig1 \<and> Sign gp (Account_SignData ed sk2) s = Ok sig2 \<and>
         sigs = [sig1, sig2])"
    unfolding SignState_Ok signed_by_def by (auto simp: list_all2_Cons1)
  show "SignState gp ed [sk1, sk2] s = Ok sigs \<longrightarrow>
      fullySignedTx (channel_Verify gp ed) s sigs [Account_Address ed sk1, Account_Address ed sk2] = Ok ()"
    unfolding SignState_Ok using honest_fully_signed [OF assms, of gp s "[sk1, sk2]" sigs] by simp
qed

theorem test_signatures_accepted_witness:
  "\<exists>sigs. SignState gp_demo ed_plain [[5], [6]] ps_demo = Ok sigs \<and>
     fullySignedTx (channel_Verify gp_demo ed_plain) ps_demo sigs
       [Account_Address ed_plain [5], Account_Address ed_plain [6]] = Ok ()"
proof -
  have "valid_row gp_demo ps_demo [1, 514]" by (simp add: valid_row_def gp_demo_def ps_demo_def)
  then have "Sign gp_demo (Account_SignData ed_plain sk) ps_demo = Ok (sk @ row_bytes ps_demo [1, 514])" for sk
    unfolding Sign_row by (auto simp: gp_demo_def ed_plain_def)
  then have "SignState gp_demo ed_plain [[5], [6]] ps_demo =
      Ok [[5] @ row_bytes ps_demo [1, 514], [6] @ row_bytes ps_demo [1, 514]]"
    unfolding SignState_Ok signed_by_def by simp
  with test_signatures_accepted [OF ed_plain_ok(1), of gp_demo "[5]" "[6]" ps_demo] show ?thesis by blast
qed

end
