(* ===== verification/Connection.thy ===== *)
theory Connection
  imports Funder
begin

text \<open>
  Setting up the connector: the constructors of \<open>channel/connector/connection.go\<close> and
  \<open>DecodePrincipal\<close> of \<open>utils.go\<close>. Reading files, PEM, URLs, principals and making agents are the
  operating system's and libraries'; they are the fields of \<open>platform\<close>.
\<close>

record ('i, 'u, 'w) platform =
  os_ReadFile :: "string \<Rightarrow> err + bytes"
  pem_identity :: "bytes \<Rightarrow> err + 'i"
  url_Parse :: "string \<Rightarrow> err + 'u"
  agent_New :: "'i \<Rightarrow> 'u \<Rightarrow> err + 'w icAgent"
  agent_Sender :: "'i \<Rightarrow> principal"
  icpledger_NewAgent ::
    "principal \<Rightarrow> 'i \<Rightarrow> 'u \<Rightarrow> err + (TransferArgs \<Rightarrow> 'w \<Rightarrow> TransferResult option goret \<times> 'w)"
  principal_Decode :: "string \<Rightarrow> err + principal"
  account_identifier :: "principal \<Rightarrow> bytes"

text \<open>The error \<open>principal_Decode\<close> gives is wrapped; beside it an empty principal is returned.\<close>

definition DecodePrincipal :: "('i, 'u, 'w) platform \<Rightarrow> string \<Rightarrow> principal goret" where
  "DecodePrincipal pf s = (case principal_Decode pf s of
     Inl e \<Rightarrow> ([], Some (ErrWrap ''error decoding Principal String'' e))
   | Inr p \<Rightarrow> (p, None))"

definition NewIdentity :: "('i, 'u, 'w) platform \<Rightarrow> string \<Rightarrow> err + 'i" where
  "NewIdentity pf accountPath = (case os_ReadFile pf accountPath of
     Inl e \<Rightarrow> Inl e
   | Inr bs \<Rightarrow> pem_identity pf bs)"

definition host_port :: "string \<Rightarrow> nat \<Rightarrow> string" where
  "host_port host port = host @ '':'' @ dec port"

text \<open>The agent and the identity it sends with.\<close>

definition NewICAgent ::
  "('i, 'u, 'w) platform \<Rightarrow> string \<Rightarrow> string \<Rightarrow> nat \<Rightarrow> err + ('w icAgent \<times> 'i)" where
  "NewICAgent pf accountPath host port = (case NewIdentity pf accountPath of
     Inl e \<Rightarrow> Inl e
   | Inr agentID \<Rightarrow> (case url_Parse pf (host_port host port) of
        Inl e \<Rightarrow> Inl e
      | Inr ic0 \<Rightarrow> (case agent_New pf agentID ic0 of
           Inl e \<Rightarrow> Inl e
         | Inr ag \<Rightarrow> Inr (ag, agentID))))"

definition NewPerunAgent ::
  "('i, 'u, 'w) platform \<Rightarrow> principal \<Rightarrow> string \<Rightarrow> string \<Rightarrow> nat \<Rightarrow> err + 'w icAgent" where
  "NewPerunAgent pf canID accountPath host port = (case NewIdentity pf accountPath of
     Inl e \<Rightarrow> Inl e
   | Inr agentID \<Rightarrow> (case url_Parse pf (host_port host port) of
        Inl e \<Rightarrow> Inl e
      | Inr ic0 \<Rightarrow> (case NewAgent canID (agent_New pf agentID ic0) of
           (_, Some e) \<Rightarrow> Inl e
         | (Some ag, None) \<Rightarrow> Inr ag
         | (None, None) \<Rightarrow> Inl (ErrNew ''''))))"

definition NewLedgerAgent ::
  "('i, 'u, 'w) platform \<Rightarrow> principal \<Rightarrow> string \<Rightarrow> string \<Rightarrow> nat
     \<Rightarrow> err + (TransferArgs \<Rightarrow> 'w \<Rightarrow> TransferResult option goret \<times> 'w)" where
  "NewLedgerAgent pf canID accountPath host port = (case NewIdentity pf accountPath of
     Inl e \<Rightarrow> Inl e
   | Inr agentID \<Rightarrow> (case url_Parse pf (host_port host port) of
        Inl e \<Rightarrow> Inl e
      | Inr ic0 \<Rightarrow> icpledger_NewAgent pf canID agentID ic0))"

text \<open>Every error is a panic.\<close>

definition must :: "err + 'x \<Rightarrow> 'x res" where
  "must r = (case r of Inl e \<Rightarrow> Panic (err_text e) | Inr x \<Rightarrow> Ok x)"

definition must_ret :: "'x goret \<Rightarrow> 'x res" where
  "must_ret r = (case r of (_, Some e) \<Rightarrow> Panic (err_text e) | (x, None) \<Rightarrow> Ok x)"

definition NewICConnector ::
  "('i, 'u, 'w) platform \<Rightarrow> string \<Rightarrow> string \<Rightarrow> string \<Rightarrow> string \<Rightarrow> nat \<Rightarrow> 'w Connector res" where
  "NewICConnector pf perunID ledgerID pemAccountPath host port =
     res_bind (must (NewICAgent pf pemAccountPath host port)) (\<lambda>(ICAgent, ident).
     let ICAccount = agent_Sender pf ident in
     res_bind (must_ret (DecodePrincipal pf perunID)) (\<lambda>recipPerunID.
     res_bind (must_ret (DecodePrincipal pf ledgerID)) (\<lambda>recipLedgerID.
     res_bind (must (NewLedgerAgent pf recipLedgerID pemAccountPath host port)) (\<lambda>LedgerAgent.
     res_bind (must (NewPerunAgent pf recipPerunID pemAccountPath host port)) (\<lambda>PerunAgent.
     Ok \<lparr>con_agent = PerunAgent, con_ledger = LedgerAgent, con_perunID = recipPerunID,
         con_ledgerID = recipLedgerID, con_l1 = ICAccount, con_account_id = account_identifier pf,
         con_decode = (\<lambda>s. fst (DecodePrincipal pf s))\<rparr>)))))"

lemma must_Ok [simp]: "must r = Ok x \<longleftrightarrow> r = Inr x"
  by (auto simp: must_def split: sum.splits)

lemma must_cases: "must r \<noteq> Err e" "must r \<noteq> Hang"
  by (auto simp: must_def split: sum.splits)

lemma must_ret_cases: "must_ret r \<noteq> Err e" "must_ret r \<noteq> Hang"
  by (auto simp: must_ret_def split: prod.splits option.splits)

lemma must_ret_Ok [simp]: "must_ret r = Ok x \<longleftrightarrow> r = (x, None)"
  by (auto simp: must_ret_def split: prod.splits option.splits)

lemma NewPerunAgent_canister:
  "NewPerunAgent pf canID path host port = Inr ag \<Longrightarrow> ag_canister ag = canID"
  by (auto simp: NewPerunAgent_def NewAgent_def split: sum.splits)

lemma res_bind_eq_Err: "res_bind m f = Err e \<longleftrightarrow> m = Err e \<or> (\<exists>a. m = Ok a \<and> f a = Err e)"
  by (cases m) auto

section \<open>Properties\<close>

text \<open>
  Property (connector_setup): making a connector never returns an error, it panics or gives a
  connector: its Perun agent talks to the decoded Perun canister, and its L1 account is the
  principal of the identity read from the given file.
\<close>

theorem connector_setup:
  "(case NewICConnector pf perunID ledgerID path host port of
      Ok c \<Rightarrow> ag_canister (con_agent c) = con_perunID c \<and>
        DecodePrincipal pf perunID = (con_perunID c, None) \<and>
        DecodePrincipal pf ledgerID = (con_ledgerID c, None) \<and>
        (\<exists>ident. NewIdentity pf path = Inr ident \<and> con_l1 c = agent_Sender pf ident)
    | Panic m \<Rightarrow> True
    | _ \<Rightarrow> False)"
proof (cases "NewICConnector pf perunID ledgerID path host port")
  case (Ok c)
  then obtain ag ident where a: "NewICAgent pf path host port = Inr (ag, ident)"
    and c: "DecodePrincipal pf perunID = (con_perunID c, None)" "DecodePrincipal pf ledgerID = (con_ledgerID c, None)"
      "NewPerunAgent pf (con_perunID c) path host port = Inr (con_agent c)" "con_l1 c = agent_Sender pf ident"
    by (auto simp: NewICConnector_def Let_def)
  have "NewIdentity pf path = Inr ident" using a by (auto simp: NewICAgent_def split: sum.splits)
  with c Ok NewPerunAgent_canister [OF c(3)] show ?thesis by auto
qed (auto simp: NewICConnector_def Let_def res_bind_eq_Err res_bind_eq_Hang must_cases must_ret_cases)

end
