(* ===== verification/Spec2Isabelle.thy ===== *)
theory Spec2Isabelle
  imports Registration KeyStore FundAll TestSupport Connection
begin

text \<open>
  Verification library of perun-icp-backend, the Internet Computer backend of the state-channel
  framework go-perun. The Go packages under src/ let two parties open a channel that is funded on
  a ledger canister, sign its states off-chain, and dispute, conclude and withdraw it at the Perun
  canister.

  \<^bold>\<open>The program.\<close> The package wallet keeps ed25519 keys in a file (wallet.go) and gives
  addresses, accounts and signature checks (address.go, account.go, backend.go); wire wraps
  addresses for go-perun's wire protocol. channel/backend.go computes channel ids and the bytes of
  a state that are signed; channel/connector converts go-perun's types (serialize.go), talks to the
  canisters (icperun/icperun.go, connection.go, services.go), and polls the canister's event log,
  which is a text, in a goroutine per subscription (subscribe.go), parsing it with regular
  expressions (adjudicator_eventsub.go, utils.go). channel/funder.go deposits the own balance and
  polls the funding log (funder_events.go) until the own deposit has arrived;
  channel/adjudicator.go disputes, concludes and withdraws, and waits for the events of a
  subscription.

  \<^bold>\<open>The theories\<close>, in the order in which they build on each other.

  \<^item> Prelude: byte strings and machine words; Go results (a value, an error, a panic, or still
    waiting); the little-endian codecs; error values of channel/errors.go and connector/errors.go;
    the interfaces of a prefix codec and of a polling loop. Threads: goroutines that share a mutex,
    as a step relation over any program, with the interfaces of a lock, of goroutines that finish
    and of a goroutine that implements a function. GoRegex, GoStrings and Sha512 hold the
    parts of Go's standard library that the code uses: leftmost-first regular expressions, number
    and hex conversions, SHA-512.

  \<^item> WalletAddress: wallet/address.go, account.go and backend.go, and wire/address.go. FsWallet:
    wallet/wallet.go with the heap of key slices that the wallet and its callers share, and the
    disk. Wire: wire/account.go and the random constructors of both packages. KeyStore: the wallet
    against an abstract key store.

  \<^item> Serialize: connector/types.go and serialize.go. ChannelBackend: channel/backend.go, utils.go,
    asset.go and the memo of connection.go.

  \<^item> IcPerun: the canister's client, one definition per method. The canister, the candid encoding
    and the network are functions in the agent record that act on an arbitrary outer state.

  \<^item> Timeouts: connector/timeout.go. AdjEvents: connector/events.go, utils.go and the parsers of
    adjudicator_eventsub.go. Subscription: subscribe.go; the goroutine is a step relation, its
    reader and the rest of the world another, and executions interleave the two.

  \<^item> FunderEvents: channel/funder_events.go. Funder: connector/services.go and channel/funder.go.
    Depositors and FundAll: any number of deposits, and of whole Fund calls, that run concurrently
    with the global mutex; both are instances of the interfaces of Threads.

  \<^item> Adjudicator: channel/adjudicator.go and channel/errors.go. Waiting: its waiting loops run
    against the goroutine of a subscription and the canister's log, up to Register. SignedStates:
    what the participants' signatures on a state bind, and Withdraw as a whole, for a final state
    that all have signed and for a disputed one. TestSupport: the helpers of the test directories
    that sign, mix balances and ask the canister. Connection: the
    constructors of connector/connection.go. Registration: the init functions of channel, wallet
    and wire.

  \<^item> Spec2Isabelle, this file: what only the composition of components gives.

  \<^bold>\<open>State and operations.\<close> A Go struct is a record with the fields the code reads or writes
  (loggers are left out); a method takes the record, or the world it acts on, and returns the new
  one beside its result. Unsigned integers are words of their width, big.Int is int. Nil pointers
  are None, and every nil dereference, failed type assertion, index out of range and explicit panic
  is the value Panic.

  \<^bold>\<open>What the lemmas show.\<close> The parsers are run on every log the canister can write (renderings
  of arbitrary entries with arbitrary separators) and return what was logged, up to the amounts
  their patterns miss; the subscription delivers one batch and never blocks on events; disputing,
  withdrawing and funding succeed exactly under the stated conditions, the waiting loops accept
  only what was logged and can always still succeed while the log has what they wait for; the
  signatures of all participants make a final state concludable and bind all of it but the split
  of the balances; and a Fund that returns has paid the ledger the agreed amount and seen it
  in the canister's log, also when all participants fund at once, which takes a bounded number
  of steps and does not deadlock; the signed encoding is injective up to the stated collisions; the
  wallet keeps its keys, restores them from its file and implements a counting key store; the mutex is
  held by one deposit at a time and always given back.

  \<^bold>\<open>Bounds and schedules.\<close> No definition carries fuel of its own. What Go leaves to the
  scheduler is an input: the list of ticks of a timer, the list of selections of a waiting loop. A
  loop that has consumed its list answers Hang, so it is waiting and has not returned; theorems
  that a loop returns name the input that makes it (wait_returns, funding_wait);
  deposits_all_finish and fund_all_finish bound every run of goroutines by 7 and 25 steps each; and
  exhausted_subscription is about the loop that no input ends. The number of polling rounds in
  funding is the code's own DefaultMaxIters. find_all recurses on the rest of the text and
  load_entries on the number of entries that the file claims.

  \<^bold>\<open>Not modelled.\<close> The canister itself, go-perun and ed25519 are not under src/: they are fields
  of parameter records with what the code relies on as named hypotheses. GetBasePath (utils.go),
  go-perun's registries, logging, and the helpers under the test directories that set up a network
  or draw random parameters are glue; poly-go's gatherer, whose error FundAll returns, is a
  library. The Ev, cancel and log fields of a subscription are never read. The types
  EventPredicate, Sig, ExecPath and TimePoint and two constants of events.go have no use that the
  model could show. The
  memory model of Go below the level of channels and mutexes is not modelled; the wallet's mutex
  makes its operations atomic, as they are here.
\<close>

section \<open>Across the components\<close>

text \<open>
  Property C20 (swapped_state_concludes): through the adjudicator's check of the signatures: a
  transaction that is fully signed for the state that pays everything to the second participant
  is fully signed for the one that pays everything to the first, so either can be concluded.
\<close>

theorem swapped_state_concludes:
  assumes "gp_valid gp (with_row s [0, n]) = None" and "gp_valid gp (with_row s [n, 0]) = None"
    and "fullySignedTx (\<lambda>p st sg. Verify gp (VerifySignature ed) p st sg) (with_row s [0, n]) sigs parts = Ok ()"
  shows "fullySignedTx (\<lambda>p st sg. Verify gp (VerifySignature ed) p st sg) (with_row s [n, 0]) sigs parts = Ok ()"
proof -
  have "check_sigs (Verify gp (VerifySignature ed)) (with_row s [0, n]) i ps sigs =
      check_sigs (Verify gp (VerifySignature ed)) (with_row s [n, 0]) i ps sigs" for i ps
    by (induction ps arbitrary: i)
      (simp_all add: swap_zero(2) [OF assms(1,2)] cong: res.case_cong if_cong)
  with assms(3) show ?thesis by (simp add: fullySignedTx_def split: if_splits)
qed

theorem swapped_state_concludes_witness:
  "fullySignedTx (\<lambda>p st sg. Verify gp_demo (VerifySignature ed_plain) p st sg) (with_row ps_demo [1000, 0])
     [[5] @ row_bytes (with_row ps_demo [0, 1000]) [0, 1000]] [Account_Address ed_plain [5]] = Ok ()"
proof -
  have v: "valid_row gp_demo (with_row ps_demo [0, 1000]) [0, 1000]"
    by (simp add: valid_row_def gp_demo_def with_row_def)
  have "Sign gp_demo (Account_SignData ed_plain [5]) (with_row ps_demo [0, 1000]) =
      Ok ([5] @ row_bytes (with_row ps_demo [0, 1000]) [0, 1000])"
    using v unfolding Sign_def res_bind_eq_Ok StateForChain_iff
    by (auto simp: gp_demo_def Account_SignData_def ed_plain_def state_bytes_row [OF v])
  then have "Verify gp_demo (VerifySignature ed_plain) (Account_Address ed_plain [5]) (with_row ps_demo [0, 1000])
      ([5] @ row_bytes (with_row ps_demo [0, 1000]) [0, 1000]) = Ok True"
    by (auto simp: Sign_def Verify_def Account_SignData_def Account_Address_def VerifySignature_def ed_plain_def)
  then show ?thesis
    by (intro swapped_state_concludes) (simp_all add: gp_demo_def fullySignedTx_def go_nth_def)
qed

section \<open>Array types\<close>

text \<open>
  Go's arrays have their length in their type; the model's are lists. \<open>holds P r\<close>: if the
  computation returns a value, the value satisfies \<open>P\<close>.
\<close>

definition holds :: "('r \<Rightarrow> bool) \<Rightarrow> 'r res \<Rightarrow> bool" where
  "holds P r = (case r of Ok x \<Rightarrow> P x | _ \<Rightarrow> True)"

lemma parsed_ids: "parseEventsAll str = Ok evs \<Longrightarrow> e \<in> set evs \<Longrightarrow> length (AdjEvent_ID e) = 32"
proof -
  have id: "length (ev_id d) = 32" if "parseAdjEvents str zero_event ps = Ok d" for ps d
    using that by (auto simp: parseAdjEvents_def SetEventData_def parseChannelID_def zero_event_def zeroCID_def
        split: option.splits if_splits)
  assume "parseEventsAll str = Ok evs" "e \<in> set evs"
  then obtain cs ds where "parseEventsConcluded str = Ok cs" "parseEventsDisputed str = Ok ds"
    and e: "e \<in> set (map Concluded cs @ map Disputed ds)"
    using parse_at_most_one [of str] by (auto simp: parseEventsAll_def alias_loop_single)
  then have "\<forall>d\<in>set cs \<union> set ds. length (ev_id d) = 32"
    unfolding concluded_kind disputed_kind by (auto dest: id split: if_splits)
  with e show ?thesis by (auto simp: AdjEvent_ID_def)
qed


section \<open>Funding against the ledger and the canister's log\<close>

text \<open>
  A canister that answers each funding query with the text of a funding log it may have for the
  queried channel and time.
\<close>

definition writes_funding_logs :: "'w icAgent \<Rightarrow> (ChannelTime \<Rightarrow> fund_entry list \<Rightarrow> bool) \<Rightarrow> bool" where
  "writes_funding_logs a logs \<longleftrightarrow> (\<forall>q n s n'. QueryEvents a q n = ((s, None), n') \<longrightarrow>
     (\<exists>sep log. s = frender sep log \<and> logs q log \<and> wf_fsep sep \<and> list_all wf_fund log))"

text \<open>
  Property C15 (funding_end_to_end): when \<open>Fund\<close> succeeds, the ledger was asked for exactly the
  agreed balance plus the fee of 10,000, to the canister's account and with the memo of channel
  and participant, and the canister's log of this channel, in one of its answers, shows at least
  the agreed balance as paid in by the own key.
\<close>

theorem funding_end_to_end:
  assumes "fst (Fund ed eq f req xs w) = Ok ()" and "writes_funding_logs (con_agent (fd_conn f)) logs"
  shows "\<exists>bal args tr n log ident. hd (fr_agreement req) ! fr_idx req = bal \<and> 0 \<le> bal \<and> bal \<le> 2 ^ 30 \<and>
    con_ledger (fd_conn f) args (fw_net w) = ((Some tr, None), n) \<and>
    int (unat (ta_amount args)) = bal + 10000 \<and>
    ta_to args = con_account_id (fd_conn f) (con_perunID (fd_conn f)) \<and>
    ta_memo args = fst (Funding_Memo \<lparr>f_channel = pp_id (fr_params req), f_part = ident\<rparr>) \<and>
    MakeOffIdent (pp_parts (fr_params req) ! fr_idx req) = Ok ident \<and>
    logs \<lparr>ct_channel = pp_id (fr_params req), ct_time = 0\<rparr> log \<and> bal \<le> int (paid log (ed_public ed (fd_acc f)))"
proof -
  let ?pk = "ed_public ed (fd_acc f)"
  let ?f = "NewFundingEventSub (Address ?pk) 0 req"
  from assms(1) obtain d w1 where d: "NewDepositReqFromPerun eq req (WalletAcc (fd_acc f)) = Ok d"
    and dep: "Depositor_Deposit ed (fd_conn f) d w = (Ok (), w1)"
    and q: "fst (QueryFundingState (con_agent (fd_conn f)) ?f xs (fw_net w1)) = Ok ()"
    unfolding Fund_Ok by blast
  from d obtain row rows ident where row: "fr_agreement req = row # rows" "fr_idx req < length row"
    and ident: "MakeOffIdent (pp_parts (fr_params req) ! fr_idx req) = Ok ident"
    and dq: "d = \<lparr>dr_balance = row ! fr_idx req, dr_fee = uint ICTransferFee, dr_account = fd_acc f,
             dr_funding = \<lparr>f_channel = pp_id (fr_params req), f_part = ident\<rparr>\<rparr>"
    unfolding NewDepositReqFromPerun_Ok by blast
  let ?bal = "row ! fr_idx req"
  from dep obtain args tr n where bt: "BuildTransfer (fd_conn f) (con_l1 (fd_conn f)) ?bal (uint ICTransferFee)
      (dr_funding d) (con_perunID (fd_conn f)) = Ok args"
    and led: "con_ledger (fd_conn f) args (fw_net w) = ((Some tr, None), n)"
    unfolding Depositor_Deposit_Ok dq by auto
  note am = BuildTransfer_amounts [OF bt]
  have fee: "uint ICTransferFee = 10000" by (simp add: ICTransferFee_def)
  have fs: "fs_agreement ?f = row # rows" "fs_idx ?f = fr_idx req" "fs_address ?f = Address ?pk"
    "fs_queryArgs ?f = \<lparr>ct_channel = pp_id (fr_params req), ct_time = 0\<rparr>"
    using row by (simp_all add: NewFundingEventSub_def Let_def)
  have idx: "fs_idx ?f < length row" using row(2) fs(2) by simp
  have "fund_wait ?f (low64 ?bal) (take (fs_maxIters ?f)
      (fund_answers (con_agent (fd_conn f)) ?f xs (fw_net w1))) = Ok ()"
    using q unfolding QueryFundingState_Ok [OF fs(1) idx] fs(2) .
  then obtain pre s evs post where ans: "take (fs_maxIters ?f)
      (fund_answers (con_agent (fd_conn f)) ?f xs (fw_net w1)) = pre @ FundAnswer (s, None) # post"
    and evs: "parseEvents s = Ok evs" and le: "unat (low64 ?bal) \<le> own_total evs (Address ?pk) mod 2 ^ 64"
    unfolding fund_wait_Ok fs(3) by blast
  have "FundAnswer (s, None) \<in> set (fund_answers (con_agent (fd_conn f)) ?f xs (fw_net w1))"
    using ans by (metis in_set_conv_decomp in_set_takeD)
  from fund_answers_query [OF this] obtain m m' where
    "QueryEvents (con_agent (fd_conn f)) (fs_queryArgs ?f) m = ((s, None), m')" by blast
  with assms(2) obtain sep log where log: "s = frender sep log" "logs (fs_queryArgs ?f) log"
      "wf_fsep sep" "list_all wf_fund log"
    unfolding writes_funding_logs_def by blast
  have "evs = map fund_event log" using evs parse_funding_log [OF log(3,4)] log(1) by simp
  then have "own_total evs (Address ?pk) = paid log ?pk" using own_total_paid [OF log(4)] by simp
  moreover have "own_total evs (Address ?pk) mod 2 ^ 64 \<le> own_total evs (Address ?pk)" by (rule mod_less_eq_dividend)
  moreover have "int (unat (low64 ?bal)) = ?bal"
    using am(4,5) uint_of_small [of ?bal] by (simp add: low64_def)
  ultimately have "?bal \<le> int (paid log ?pk)" using le by linarith
  moreover have "hd (fr_agreement req) ! fr_idx req = ?bal" using row by simp
  ultimately show ?thesis
    using am(1,4,5,6,7) led ident log(2) unfolding fs(4) dq fee DepositReq.simps by blast
qed

text \<open>The canister of the examples of funding, which shows 2,000 paid in.\<close>

lemma demo_funding_logs: "writes_funding_logs demo_agent (\<lambda>q log. log = demo_log)"
  using demo_log_wf unfolding writes_funding_logs_def
  by (auto simp: QueryEvents_def demo_agent_def)

theorem funding_end_to_end_witness:
  "\<exists>args :: TransferArgs. unat (ta_amount args) = 12000 \<and> ta_to args = [1] \<and>
     ta_memo args = fst (Funding_Memo \<lparr>f_channel = replicate 32 0, f_part = replicate 32 1\<rparr>) \<and>
     2000 \<le> int (paid demo_log (replicate 32 1))"
proof -
  let ?f = "NewFunder (replicate 32 1) (demo_conn demo_ok)"
  have l: "writes_funding_logs (con_agent (fd_conn ?f)) (\<lambda>q log. log = demo_log)"
    using demo_funding_logs by (simp add: NewFunder_def demo_conn_def)
  from funding_end_to_end [OF demo_fund_succeeds l]
  obtain bal log ident and args :: TransferArgs where a: "int (unat (ta_amount args)) = bal + 10000"
      "ta_to args = con_account_id (fd_conn ?f) (con_perunID (fd_conn ?f))"
      "ta_memo args = fst (Funding_Memo \<lparr>f_channel = pp_id (fr_params demo_req), f_part = ident\<rparr>)"
      "MakeOffIdent (pp_parts (fr_params demo_req) ! fr_idx demo_req) = Ok ident"
      "bal \<le> int (paid log (ed_public ed_plain (fd_acc ?f)))" "log = demo_log"
      "hd (fr_agreement demo_req) ! fr_idx demo_req = bal"
    by blast
  have "bal = 2000" using a(7) by (simp add: demo_req_def)
  then have amount: "unat (ta_amount args) = 12000" using a(1) by linarith
  have "ident = replicate 32 1" using a(4) by (simp add: demo_req_def pp_demo_def MakeOffIdent_wallet)
  then have "unat (ta_amount args) = 12000 \<and> ta_to args = [1] \<and>
     ta_memo args = fst (Funding_Memo \<lparr>f_channel = replicate 32 0, f_part = replicate 32 1\<rparr>) \<and>
     2000 \<le> int (paid demo_log (replicate 32 1))"
    using amount a(2,3,5,6) \<open>bal = 2000\<close> by (simp add: NewFunder_def demo_conn_def demo_req_def pp_demo_def ed_plain_def)
  then show ?thesis by blast
qed

end
